(* ===== verification/Prelude.thy ===== *)
theory Prelude
  imports Main "HOL-Library.Word" "HOL-Library.Monad_Syntax"
begin

text \<open>
  Shared vocabulary of the development.

  Machine integers. A Rust \<open>usize\<close>/\<open>u64\<close>/\<open>u32\<close>/\<open>u16\<close> that is used as a number is a \<open>nat\<close>, and
  the operations that can overflow are the checked ones below: with the overflow checks of the
  repository's default (dev) profile an overflowing \<open>+\<close>, \<open>-\<close> or \<open>*\<close> panics. Bytes, bitmaps and
  atomics that wrap are \<open>word\<close>s of their width.

  Panics. A function of the kernel that may panic returns an \<open>option\<close>: \<open>None\<close> is the panic (the
  kernel stops), \<open>Some\<close> a normal return. A Rust \<open>Result\<close> or \<open>Option\<close> that the caller sees is a
  value inside \<open>Some\<close>. The \<open>do\<close> notation is \<^const>\<open>Option.bind\<close>.
\<close>

unbundle bit_operations_syntax

section \<open>Types\<close>

type_synonym usize = nat
type_synonym u64 = nat
type_synonym u32 = nat
type_synonym u16 = nat
type_synonym u8 = "8 word"

section \<open>Proof automation shared by the components\<close>

named_theorems panic_simps \<open>unfolding of the checked operations\<close>

section \<open>Checked arithmetic\<close>

definition cadd :: "nat \<Rightarrow> nat \<Rightarrow> nat \<Rightarrow> nat option" where
  "cadd w a b = (if a + b < 2 ^ w then Some (a + b) else None)"

definition cmul :: "nat \<Rightarrow> nat \<Rightarrow> nat \<Rightarrow> nat option" where
  "cmul w a b = (if a * b < 2 ^ w then Some (a * b) else None)"

definition csub :: "nat \<Rightarrow> nat \<Rightarrow> nat option" where
  "csub a b = (if b \<le> a then Some (a - b) else None)"

abbreviation uadd :: "usize \<Rightarrow> usize \<Rightarrow> usize option" where
  "uadd \<equiv> cadd 64"

abbreviation umul :: "usize \<Rightarrow> usize \<Rightarrow> usize option" where
  "umul \<equiv> cmul 64"

abbreviation add32 :: "u32 \<Rightarrow> u32 \<Rightarrow> u32 option" where
  "add32 \<equiv> cadd 32"

text \<open>\<open>saturating_sub\<close> is the truncated subtraction of \<open>nat\<close>.\<close>

definition saturating_sub :: "nat \<Rightarrow> nat \<Rightarrow> nat" where
  "saturating_sub a b = a - b"

text \<open>Rust's \<open>!\<close> on an unsigned integer of \<open>w\<close> bits.\<close>

definition cnot :: "nat \<Rightarrow> nat \<Rightarrow> nat" where
  "cnot w x = mask w - x"

lemma cadd_Some_iff [panic_simps]: "cadd w a b = Some c \<longleftrightarrow> a + b < 2 ^ w \<and> c = a + b"
  by (auto simp: cadd_def)

lemma cadd_None_iff [panic_simps]: "cadd w a b = None \<longleftrightarrow> 2 ^ w \<le> a + b"
  by (auto simp: cadd_def)

lemma cmul_Some_iff [panic_simps]: "cmul w a b = Some c \<longleftrightarrow> a * b < 2 ^ w \<and> c = a * b"
  by (auto simp: cmul_def)

lemma cmul_None_iff [panic_simps]: "cmul w a b = None \<longleftrightarrow> 2 ^ w \<le> a * b"
  by (auto simp: cmul_def)

lemma csub_Some_iff [panic_simps]: "csub a b = Some c \<longleftrightarrow> b \<le> a \<and> c = a - b"
  by (auto simp: csub_def)

lemma csub_None_iff [panic_simps]: "csub a b = None \<longleftrightarrow> a < b"
  by (auto simp: csub_def)

section \<open>Pairs under the option monad\<close>

lemma bind_Some_prod [panic_simps]:
  "Option.bind e f = Some y \<longleftrightarrow> (\<exists>x. e = Some x \<and> f x = Some y)"
  by (cases e) auto

section \<open>Arithmetic on bits of natural numbers\<close>

lemma and_mask_nat: "(x::nat) AND mask n = x mod 2 ^ n"
  by (simp add: take_bit_eq_mask [symmetric] take_bit_eq_mod)

lemma not_bit_above: "(b::nat) < 2 ^ n \<Longrightarrow> n \<le> i \<Longrightarrow> \<not> bit b i"
  by (metis bit_take_bit_iff not_le take_bit_nat_eq_self)

lemma or_disjoint_nat:
  assumes "b < 2 ^ n"
  shows "push_bit n a OR b = a * 2 ^ n + (b :: nat)"
proof -
  have "push_bit n a AND b = 0"
    using assms by (auto intro!: bit_eqI simp: bit_and_iff bit_push_bit_iff not_bit_above)
  then show ?thesis
    by (simp add: disjunctive_add_eq_or [symmetric] push_bit_eq_mult)
qed

lemma mod_low_field: "d dvd e \<Longrightarrow> (q * e + x mod e) mod d = x mod (d :: nat)"
proof -
  assume d: "d dvd e"
  then obtain k where "e = d * k" ..
  then have "(q * e + x mod e) mod d = (d * (q * k) + x mod e) mod d"
    by (simp add: ac_simps)
  also have "\<dots> = x mod d"
    using d by (simp only: mod_mult_self4) (simp add: mod_mod_cancel)
  finally show ?thesis .
qed

lemma and_field_nat: "(x::nat) AND push_bit n (mask k) = push_bit n (drop_bit n x mod 2 ^ k)"
proof (rule bit_eqI)
  fix i
  show "bit (x AND push_bit n (mask k)) i = bit (push_bit n (drop_bit n x mod 2 ^ k)) i"
    by (auto simp: bit_and_iff bit_push_bit_iff bit_drop_bit_eq bit_mask_iff bit_take_bit_iff
      simp flip: take_bit_eq_mod)
qed

text \<open>Clearing the low \<open>n\<close> bits of a \<open>w\<close>-bit number rounds it down to a multiple of \<open>2 ^ n\<close>.\<close>

lemma clear_low_bits:
  assumes "x < 2 ^ w" and "n \<le> w"
  shows "x AND cnot w (mask n) = x - x mod 2 ^ n"
proof -
  have "cnot w (mask n) = push_bit n (mask (w - n))"
    using assms(2) by (simp add: cnot_def mask_eq_exp_minus_1 push_bit_eq_mult
      diff_mult_distrib flip: power_add)
  moreover have "x AND push_bit n (mask (w - n)) = push_bit n (drop_bit n x)"
  proof (rule bit_eqI)
    fix i
    have "bit x i \<Longrightarrow> i < w"
      using not_bit_above [OF assms(1), of i] by (cases "i < w") auto
    then show "bit (x AND push_bit n (mask (w - n))) i = bit (push_bit n (drop_bit n x)) i"
      by (auto simp: diff_less_mono bit_and_iff bit_push_bit_iff bit_drop_bit_eq bit_mask_iff)
  qed
  ultimately show ?thesis
    by (simp add: push_bit_eq_mult drop_bit_eq_div minus_mod_eq_div_mult)
qed

end
