(* ===== verification/Memory.thy ===== *)
theory Memory
  imports Prelude
begin

text \<open>
  Memory as the kernel's raw pointers see it: physical memory is a map from addresses to bytes,
  and a pointer to a wider integer reads and writes its little-endian bytes. \<open>load\<close> and \<open>store\<close>
  are \<open>ptr::copy_nonoverlapping\<close> out of and into memory, \<open>write_bytes\<close> is \<open>ptr::write_bytes\<close>.
  The same little-endian encoding is used by the on-disk structures of the file system.
\<close>

section \<open>Little-endian integers\<close>

fun le_val :: "u8 list \<Rightarrow> nat" where
  "le_val [] = 0"
| "le_val (b # bs) = unat b + 256 * le_val bs"

fun le_bytes :: "nat \<Rightarrow> nat \<Rightarrow> u8 list" where
  "le_bytes 0 v = []"
| "le_bytes (Suc n) v = of_nat v # le_bytes n (v div 256)"

lemma length_le_bytes [simp]: "length (le_bytes n v) = n"
  by (induction n arbitrary: v) auto

lemma unat_of_nat_u8: "unat (of_nat v :: u8) = v mod 256"
  by (simp add: unat_of_nat)

lemma le_val_le_bytes: "le_val (le_bytes n v) = v mod 256 ^ n"
proof (induction n arbitrary: v)
  case (Suc n)
  have "v mod 256 ^ Suc n = v mod 256 + 256 * (v div 256 mod 256 ^ n)"
    by (simp add: mod_mult2_eq)
  with Suc show ?case by (simp add: unat_of_nat_u8)
qed simp

lemma le_bytes_le_val: "le_bytes (length bs) (le_val bs) = bs"
proof (induction bs)
  case (Cons b bs)
  have lt: "unat b < 256"
    using unsigned_less [of b] by simp
  have "(of_nat (unat b + 256 * le_val bs) :: u8) = b"
    by (rule word_unat_eq_iff [THEN iffD2]) (use lt in \<open>simp only: unat_of_nat_u8 mod_mult_self2, simp\<close>)
  moreover have "(unat b + 256 * le_val bs) div 256 = le_val bs"
    using lt by simp
  ultimately show ?case using Cons by (simp del: of_nat_add)
qed simp

lemma le_val_bound: "le_val bs < 256 ^ length bs"
proof (induction bs)
  case (Cons b bs)
  have "unat b < 256" using unsigned_less [of b] by simp
  with Cons show ?case by simp
qed simp

lemma le_val_replicate_0 [simp]: "le_val (replicate n 0) = 0"
  by (induction n) auto

section \<open>Memory\<close>

type_synonym ram = "nat \<Rightarrow> u8"

definition load :: "ram \<Rightarrow> nat \<Rightarrow> nat \<Rightarrow> u8 list" where
  "load m a n = map (\<lambda>i. m (a + i)) [0..<n]"

definition store :: "ram \<Rightarrow> nat \<Rightarrow> u8 list \<Rightarrow> ram" where
  "store m a bs = (\<lambda>x. if a \<le> x \<and> x < a + length bs then bs ! (x - a) else m x)"

definition write_bytes :: "ram \<Rightarrow> nat \<Rightarrow> u8 \<Rightarrow> nat \<Rightarrow> ram" where
  "write_bytes m a b n = (\<lambda>x. if a \<le> x \<and> x < a + n then b else m x)"

definition read_u64 :: "ram \<Rightarrow> nat \<Rightarrow> u64" where
  "read_u64 m a = le_val (load m a 8)"

definition write_u64 :: "ram \<Rightarrow> nat \<Rightarrow> u64 \<Rightarrow> ram" where
  "write_u64 m a v = store m a (le_bytes 8 v)"

lemma length_load [simp]: "length (load m a n) = n"
  by (simp add: load_def)

lemma nth_load [simp]: "i < n \<Longrightarrow> load m a n ! i = m (a + i)"
  by (simp add: load_def)

lemma load_cong: "(\<And>i. i < n \<Longrightarrow> m (a + i) = m' (a + i)) \<Longrightarrow> load m a n = load m' a n"
  by (auto simp: load_def)

lemma load_store_same [simp]: "load (store m a bs) a (length bs) = bs"
  by (auto simp: store_def intro!: nth_equalityI)

lemma load_store_disjoint: "a + n \<le> b \<or> b + length bs \<le> a \<Longrightarrow> load (store m b bs) a n = load m a n"
  by (rule load_cong) (auto simp: store_def)

lemma load_add: "load m a (n + k) = load m a n @ load m (a + n) k"
  by (auto simp: nth_append intro!: nth_equalityI)

lemma store_outside [simp]: "x < a \<or> a + length bs \<le> x \<Longrightarrow> store m a bs x = m x"
  by (auto simp: store_def)

lemma write_bytes_outside [simp]: "x < a \<or> a + n \<le> x \<Longrightarrow> write_bytes m a b n x = m x"
  by (auto simp: write_bytes_def)

lemma read_u64_bound: "read_u64 m a < 2 ^ 64"
  using le_val_bound [of "load m a 8"] by (simp add: read_u64_def)

lemma read_write_u64_same [simp]: "v < 2 ^ 64 \<Longrightarrow> read_u64 (write_u64 m a v) a = v"
  using load_store_same [of m a "le_bytes 8 v"]
  by (simp add: read_u64_def write_u64_def le_val_le_bytes)

lemma read_write_u64_disjoint:
  "a + 8 \<le> b \<or> b + 8 \<le> a \<Longrightarrow> read_u64 (write_u64 m b v) a = read_u64 m a"
  by (simp add: read_u64_def write_u64_def load_store_disjoint)

lemma read_u64_cong: "(\<And>i. i < 8 \<Longrightarrow> m (a + i) = m' (a + i)) \<Longrightarrow> read_u64 m a = read_u64 m' a"
  unfolding read_u64_def by (metis load_cong)

lemma read_u64_zero: "(\<And>i. i < 8 \<Longrightarrow> m (a + i) = 0) \<Longrightarrow> read_u64 m a = 0"
proof -
  assume "\<And>i. i < 8 \<Longrightarrow> m (a + i) = 0"
  then have "load m a 8 = replicate 8 0"
    by (intro nth_equalityI) auto
  then show ?thesis by (simp add: read_u64_def)
qed

end
