(* ===== verification/Addr.thy ===== *)
theory Addr
  imports Memory
begin

text \<open>
  Addresses and page-table entries: the constants of \<^verbatim>\<open>mem/mod.rs\<close>, the address arithmetic of
  \<^verbatim>\<open>mem/addr.rs\<close> and the Sv39 entry encoding of \<^verbatim>\<open>mem/pte.rs\<close>. The bit expressions are those of
  the source; the lemmas give their arithmetic meaning, which the components above use.
\<close>

section \<open>Constants (mem/mod.rs)\<close>

definition PGSIZE :: usize where "PGSIZE = 4096"
definition PGNUM :: usize where "PGNUM = PGSIZE div 8"
definition PGMASK :: usize where "PGMASK = PGSIZE - 1"
definition VA_MAX :: usize where "VA_MAX = push_bit 38 1"
definition KERN_PAGES :: usize where "KERN_PAGES = 8192"
definition MMAP_END :: usize where "MMAP_END = VA_MAX - (16 * 256 + 2) * PGSIZE"
definition MMAP_BEGIN :: usize where "MMAP_BEGIN = MMAP_END - 64 * 256 * PGSIZE"

lemma PGMASK_mask: "PGMASK = mask 12"
  by (simp add: PGMASK_def PGSIZE_def mask_eq_exp_minus_1)

lemma VA_MAX_eq: "VA_MAX = 2 ^ 38"
  by (simp add: VA_MAX_def push_bit_eq_mult)

section \<open>Address arithmetic (mem/addr.rs)\<close>

definition align_up :: "usize \<Rightarrow> usize option" where
  "align_up value = do {
     t \<leftarrow> uadd value PGMASK;
     Some (t AND cnot 64 PGMASK)
   }"

definition align_down :: "usize \<Rightarrow> usize" where
  "align_down value = value AND cnot 64 PGMASK"

definition ppn :: "usize \<Rightarrow> usize list" where
  "ppn addr = [drop_bit 12 addr AND 0x1FF, drop_bit 21 addr AND 0x1FF, drop_bit 30 addr AND 0x1FF]"

definition page_offset :: "usize \<Rightarrow> usize" where
  "page_offset addr = addr AND PGMASK"

definition vpn :: "usize \<Rightarrow> usize list" where
  "vpn addr = [drop_bit 12 addr AND 0x1FF, drop_bit 21 addr AND 0x1FF, drop_bit 30 addr AND 0x1FF]"

lemma align_down_eq: "v < 2 ^ 64 \<Longrightarrow> align_down v = v - v mod PGSIZE"
  using clear_low_bits [of v 64 12] by (simp add: align_down_def PGMASK_mask PGSIZE_def)

lemma align_down_div: "v < 2 ^ 64 \<Longrightarrow> align_down v = v div PGSIZE * PGSIZE"
  by (simp add: align_down_eq minus_mod_eq_div_mult)

lemma align_up_Some_iff:
  "align_up v = Some r \<longleftrightarrow> v + 4095 < 2 ^ 64 \<and> r = (v + 4095) div PGSIZE * PGSIZE"
proof -
  have "align_up v = (if v + 4095 < 2 ^ 64 then Some (align_down (v + 4095)) else None)"
    by (simp add: align_up_def align_down_def cadd_def PGMASK_def PGSIZE_def)
  then show ?thesis by (auto simp: align_down_div)
qed

lemma align_up_None_iff: "align_up v = None \<longleftrightarrow> 2 ^ 64 \<le> v + 4095"
  by (simp add: align_up_def cadd_def PGMASK_def PGSIZE_def)

lemma page_offset_eq: "page_offset v = v mod PGSIZE"
  by (simp add: page_offset_def PGMASK_mask and_mask_nat PGSIZE_def)

lemma and_1FF: "(x::nat) AND 0x1FF = x mod 512"
  using and_mask_nat [of x 9] by (simp add: mask_eq_exp_minus_1)

lemma vpn_eq: "vpn a = [a div 2 ^ 12 mod 512, a div 2 ^ 21 mod 512, a div 2 ^ 30 mod 512]"
  by (simp add: vpn_def and_1FF drop_bit_eq_div)

section \<open>Page-table entries (mem/pte.rs)\<close>

definition PTE_V :: nat where "PTE_V = push_bit 0 1"
definition PTE_R :: nat where "PTE_R = push_bit 1 1"
definition PTE_W :: nat where "PTE_W = push_bit 2 1"
definition PTE_X :: nat where "PTE_X = push_bit 3 1"
definition PTE_U :: nat where "PTE_U = push_bit 4 1"
definition PTE_G :: nat where "PTE_G = push_bit 5 1"
definition PTE_A :: nat where "PTE_A = push_bit 6 1"
definition PTE_D :: nat where "PTE_D = push_bit 7 1"

lemmas PTE_defs = PTE_V_def PTE_R_def PTE_W_def PTE_X_def PTE_U_def PTE_G_def PTE_A_def PTE_D_def

text \<open>A left shift of a \<open>usize\<close> drops the bits above 63.\<close>

definition shl :: "usize \<Rightarrow> nat \<Rightarrow> usize" where
  "shl x n = push_bit n x mod 2 ^ 64"

definition set_ppn :: "nat \<Rightarrow> usize \<Rightarrow> nat" where
  "set_ppn pte p = (pte AND 0x3FF) OR shl p 10"

definition get_ppn :: "nat \<Rightarrow> usize" where
  "get_ppn pte = drop_bit 10 pte AND 0xFFFFFFFFFFF"

definition set_flags :: "nat \<Rightarrow> nat \<Rightarrow> nat" where
  "set_flags pte flags = (pte AND cnot 64 0x3FF) OR (flags AND 0x3FF)"

definition get_flags :: "nat \<Rightarrow> nat" where
  "get_flags pte = pte AND 0x3FF"

definition is_valid :: "nat \<Rightarrow> bool" where
  "is_valid pte \<longleftrightarrow> pte AND PTE_V \<noteq> 0"

definition is_leaf :: "nat \<Rightarrow> bool" where
  "is_leaf pte \<longleftrightarrow> pte AND (PTE_R OR PTE_W OR PTE_X) \<noteq> 0"

definition is_table :: "nat \<Rightarrow> bool" where
  "is_table pte \<longleftrightarrow> is_valid pte \<and> \<not> is_leaf pte"

definition pte_to_pa :: "nat \<Rightarrow> usize" where
  "pte_to_pa pte = shl (get_ppn pte) 12"

definition pa_to_pte :: "usize \<Rightarrow> nat \<Rightarrow> nat" where
  "pa_to_pte pa flags = shl (drop_bit 12 pa AND 0xFFFFFFFFFFF) 10 OR (flags AND 0x3FF)"

lemma and_3FF: "(x::nat) AND 0x3FF = x mod 1024"
  using and_mask_nat [of x 10] by (simp add: mask_eq_exp_minus_1)

lemma and_44: "(x::nat) AND 0xFFFFFFFFFFF = x mod 2 ^ 44"
  using and_mask_nat [of x 44] by (simp add: mask_eq_exp_minus_1)

lemma get_flags_eq: "get_flags pte = pte mod 1024"
  by (simp add: get_flags_def and_3FF)

lemma pa_to_pte_eq: "pa_to_pte pa flags = pa div 4096 mod 2 ^ 44 * 1024 + flags mod 1024"
proof -
  have "push_bit 10 (pa div 4096 mod 2 ^ 44) mod 2 ^ 64 = push_bit 10 (pa div 4096 mod 2 ^ 44)"
    by (simp add: push_bit_eq_mult)
  then show ?thesis
    using or_disjoint_nat [of "flags mod 1024" 10 "pa div 4096 mod 2 ^ 44"]
    by (simp add: pa_to_pte_def shl_def and_3FF and_44 drop_bit_eq_div)
qed

lemma pte_to_pa_eq: "pte_to_pa pte = pte div 1024 mod 2 ^ 44 * 4096"
  by (simp add: pte_to_pa_def get_ppn_def shl_def and_44 drop_bit_eq_div push_bit_eq_mult)

lemma pa_to_pte_bound: "pa_to_pte pa flags < 2 ^ 64"
  by (simp add: pa_to_pte_eq) 

lemma is_valid_eq: "is_valid pte \<longleftrightarrow> odd pte"
  using and_mask_nat [of pte 1] by (simp add: is_valid_def PTE_V_def mask_eq_exp_minus_1 odd_iff_mod_2_eq_one)

lemma is_leaf_eq: "is_leaf pte \<longleftrightarrow> pte mod 16 \<ge> 2"
proof -
  have "(PTE_R OR PTE_W OR PTE_X :: nat) = push_bit 1 (mask 3)"
    by (simp add: PTE_defs mask_eq_exp_minus_1 push_bit_eq_mult)
  then have "is_leaf pte \<longleftrightarrow> pte div 2 mod 8 \<noteq> 0"
    using and_field_nat [of pte 1 3] by (simp add: is_leaf_def drop_bit_eq_div)
  moreover have "pte mod 16 = 2 * (pte div 2 mod 8) + pte mod 2"
    using mod_mult2_eq [of pte 2 8] by simp
  ultimately show ?thesis by auto
qed

lemma is_valid_pa_to_pte: "is_valid (pa_to_pte pa flags) \<longleftrightarrow> odd flags"
  using mod_mod_cancel [of 2 1024 flags] by (simp add: is_valid_eq pa_to_pte_eq odd_iff_mod_2_eq_one)

lemma is_leaf_pa_to_pte: "is_leaf (pa_to_pte pa flags) \<longleftrightarrow> flags mod 16 \<ge> 2"
  using mod_low_field [of 16 1024 "pa div 4096 mod 2 ^ 44" flags]
  by (simp add: is_leaf_eq pa_to_pte_eq)

lemma get_flags_pa_to_pte: "get_flags (pa_to_pte pa flags) = flags mod 1024"
  by (simp add: get_flags_eq pa_to_pte_eq)

lemma pte_to_pa_pa_to_pte: "pa < 2 ^ 56 \<Longrightarrow> pte_to_pa (pa_to_pte pa flags) = pa - pa mod PGSIZE"
proof -
  assume "pa < 2 ^ 56"
  then have "pa div 4096 < 2 ^ 44" by simp
  then show ?thesis
    by (simp add: pte_to_pa_eq pa_to_pte_eq PGSIZE_def minus_mod_eq_div_mult)
qed

lemma pte_to_pa_aligned: "pte_to_pa pte mod PGSIZE = 0"
  by (simp add: pte_to_pa_eq PGSIZE_def)

lemma flags_or_V: "(flags OR PTE_V) = (if odd flags then flags else flags + 1)"
  by (simp add: PTE_V_def or_Suc_0_eq)

lemma vpn_inj:
  assumes "va < 2 ^ 39" and "va' < 2 ^ 39"
  shows "vpn va = vpn va' \<longleftrightarrow> va div PGSIZE = va' div PGSIZE"
proof -
  define q q' where "q = va div 4096" and "q' = va' div 4096"
  have b: "q div 512 div 512 < 512" "q' div 512 div 512 < 512"
    using assms by (simp_all add: q_def q'_def less_mult_imp_div_less)
  have v: "vpn a = [a div 4096 mod 512, a div 4096 div 512 mod 512, a div 4096 div 512 div 512 mod 512]" for a
    by (simp add: vpn_eq flip: div_mult2_eq)
  have "q = q'" if "q mod 512 = q' mod 512" "q div 512 mod 512 = q' div 512 mod 512"
    "q div 512 div 512 = q' div 512 div 512"
    using that by (metis div_mult_mod_eq)
  then show ?thesis
    using b by (auto simp: v PGSIZE_def simp flip: q_def q'_def)
qed

section \<open>Fields of an entry\<close>

lemma set_ppn_eq: "set_ppn pte p = p mod 2 ^ 54 * 1024 + pte mod 1024"
proof -
  have "shl p 10 = push_bit 10 (p mod 2 ^ 54)"
    using mod_mult_mult1 [of 1024 p "2 ^ 54"] by (simp add: shl_def push_bit_eq_mult mult.commute)
  then show ?thesis
    using or_disjoint_nat [of "pte mod 1024" 10 "p mod 2 ^ 54"]
    by (simp add: set_ppn_def and_3FF or.commute)
qed

lemma set_flags_eq:
  assumes "pte < 2 ^ 64"
  shows "set_flags pte flags = pte div 1024 * 1024 + flags mod 1024"
proof -
  have m: "(1023::nat) = mask 10"
    by (simp add: mask_eq_exp_minus_1)
  have "pte AND cnot 64 0x3FF = push_bit 10 (pte div 1024)"
    unfolding m using clear_low_bits [OF assms, of 10] by (simp add: push_bit_eq_mult minus_mod_eq_div_mult)
  then show ?thesis
    using or_disjoint_nat [of "flags mod 1024" 10 "pte div 1024"]
    by (simp add: set_flags_def and_3FF)
qed

lemma get_ppn_eq: "get_ppn pte = pte div 1024 mod 2 ^ 44"
  by (simp add: get_ppn_def and_44 drop_bit_eq_div)

lemma get_ppn_set_ppn: "get_ppn (set_ppn pte p) = p mod 2 ^ 44"
  using mod_mod_cancel [of "2 ^ 44" "2 ^ 54" p] by (simp add: get_ppn_eq set_ppn_eq)

text \<open>The entry codec. For a 64-bit entry, the PPN and the flag accessors are independent fields:
  each setter is read back by its getter and leaves the other field alone; and an entry built from a
  physical address below \<open>2^56\<close> gives back that address rounded down to its page, with the low ten
  flag bits.\<close>

theorem pte_codec:
  assumes "pte < 2 ^ 64" and "pa < 2 ^ 56"
  shows "get_ppn (set_ppn pte p) = p mod 2 ^ 44 \<and> get_flags (set_ppn pte p) = get_flags pte \<and>
    get_flags (set_flags pte f) = f mod 1024 \<and> get_ppn (set_flags pte f) = get_ppn pte \<and>
    pte_to_pa (pa_to_pte pa f) = align_down pa \<and> get_flags (pa_to_pte pa f) = f mod 1024"
proof -
  have "align_down pa = pa - pa mod PGSIZE"
    using assms(2) by (intro align_down_eq) simp
  moreover have "get_flags (set_ppn pte p) = get_flags pte" "get_flags (set_flags pte f) = f mod 1024"
    "get_ppn (set_flags pte f) = get_ppn pte"
    using assms(1) by (simp_all add: get_flags_eq get_ppn_eq set_ppn_eq set_flags_eq)
  ultimately show ?thesis
    using assms(2) by (simp add: get_ppn_set_ppn get_flags_pa_to_pte pte_to_pa_pa_to_pte)
qed

theorem pte_codec_witness:
  "pte_to_pa (pa_to_pte 0x80001234 0xF) = align_down 0x80001234 \<and> get_flags (pa_to_pte 0x80001234 0xF) = 15"
  using pte_codec [where pte = "0x200004CF" and pa = "0x80001234" and p = 7 and f = "0xF"] by simp

text \<open>The three table indices of a virtual address identify its page: two addresses of the Sv39
  range use the same path through the tables exactly when they lie in the same page.\<close>

theorem vpn_identifies_page:
  assumes "va < 2 ^ 39" and "va' < 2 ^ 39"
  shows "vpn va = vpn va' \<longleftrightarrow> align_down va = align_down va'"
proof -
  have "align_down va = va div PGSIZE * PGSIZE" "align_down va' = va' div PGSIZE * PGSIZE"
    using assms by (auto intro!: align_down_div)
  then show ?thesis
    using assms by (simp add: vpn_inj PGSIZE_def)
qed

theorem vpn_identifies_page_witness:
  "vpn 0x40001234 = vpn 0x40001FFF \<longleftrightarrow> align_down 0x40001234 = align_down 0x40001FFF"
  by (rule vpn_identifies_page) simp_all

end
