(* ===== verification/Pmem.thy ===== *)
theory Pmem
  imports Addr
begin

text \<open>
  The physical page allocator (\<^verbatim>\<open>mem/pmem.rs\<close>, \<^verbatim>\<open>mem/frame.rs\<close>). A region keeps its bounds, the head
  of a list of free pages threaded through the pages themselves, and a count; a global array holds
  one 8-bit reference count per page of the 128 MiB the kernel knows. The free list is read and
  written through memory, so an allocated page that a client writes is never confused with a link.

  The lemmas give the allocator's contract: under the invariant an allocation returns a page that
  was not live, zeroed, with reference count one, and panics exactly when the region is exhausted;
  a free panics exactly when the page is not live; and initialisation establishes the invariant.
\<close>

section \<open>State\<close>

definition PHY_MEM_START :: usize where "PHY_MEM_START = 0x80000000"
definition TOTAL_PAGES :: usize where "TOTAL_PAGES = 128 * 1024 * 1024 div PGSIZE"

record region_bounds =
  rb_begin :: usize
  rb_end :: usize

record alloc_region =
  reg_bounds :: "region_bounds option"
  reg_head :: "usize option"
  reg_allocable :: usize

record pmem =
  kernel_region :: alloc_region
  user_region :: alloc_region
  page_ref :: "nat \<Rightarrow> u8"
  mem :: ram

record region_info =
  ri_begin :: usize
  ri_end :: usize
  ri_allocable :: usize

definition region_new :: alloc_region where
  "region_new = \<lparr>reg_bounds = None, reg_head = None, reg_allocable = 0\<rparr>"

definition pmem_boot :: "ram \<Rightarrow> pmem" where
  "pmem_boot m = \<lparr>kernel_region = region_new, user_region = region_new, page_ref = (\<lambda>_. 0), mem = m\<rparr>"

definition region_of :: "bool \<Rightarrow> pmem \<Rightarrow> alloc_region" where
  "region_of for_kernel s = (if for_kernel then kernel_region s else user_region s)"

definition set_region :: "bool \<Rightarrow> alloc_region \<Rightarrow> pmem \<Rightarrow> pmem" where
  "set_region for_kernel r s =
     (if for_kernel then s\<lparr>kernel_region := r\<rparr> else s\<lparr>user_region := r\<rparr>)"

section \<open>Operations\<close>

definition pa_to_index :: "usize \<Rightarrow> usize option" where
  "pa_to_index pa =
     (if pa < PHY_MEM_START then None
      else let idx = (pa - PHY_MEM_START) div PGSIZE in
           if TOTAL_PAGES \<le> idx then None else Some idx)"

text \<open>\<open>Option<NonNull<FreePage>>\<close> in memory: the null word is \<open>None\<close>.\<close>

definition non_null :: "usize \<Rightarrow> usize option" where
  "non_null p = (if p = 0 then None else Some p)"

definition read_next :: "ram \<Rightarrow> usize \<Rightarrow> usize option" where
  "read_next m page = non_null (read_u64 m page)"

definition write_next :: "ram \<Rightarrow> usize \<Rightarrow> usize option \<Rightarrow> ram" where
  "write_next m page n = write_u64 m page (case n of None \<Rightarrow> 0 | Some q \<Rightarrow> q)"

definition AllocRegion_contains :: "alloc_region \<Rightarrow> usize \<Rightarrow> bool" where
  "AllocRegion_contains r addr =
     (case reg_bounds r of Some b \<Rightarrow> rb_begin b \<le> addr \<and> addr < rb_end b | None \<Rightarrow> False)"

text \<open>The counter cannot overflow before \<open>current\<close> does: it grows by one while \<open>current\<close> grows by a page.\<close>

function init_loop :: "usize \<Rightarrow> usize \<Rightarrow> usize option \<Rightarrow> usize \<Rightarrow> ram \<Rightarrow> (usize option \<times> usize \<times> ram) option" where
  "init_loop end_aligned current head count m =
     (case uadd current PGSIZE of
        None \<Rightarrow> None
      | Some nxt \<Rightarrow>
          if nxt \<le> end_aligned
          then init_loop end_aligned nxt (non_null current) (count + 1) (write_next m current head)
          else Some (head, count, m))"
  by pat_completeness auto
termination
  by (relation "measure (\<lambda>(e, c, _). e - c)") (auto simp: cadd_Some_iff PGSIZE_def)

declare init_loop.simps [simp del]

definition AllocRegion_init :: "bool \<Rightarrow> usize \<Rightarrow> usize \<Rightarrow> pmem \<Rightarrow> pmem option" where
  "AllocRegion_init k bgn fin s = do {
     begin_aligned \<leftarrow> align_up bgn;
     let end_aligned = align_down fin;
     (head, count, m) \<leftarrow> init_loop end_aligned begin_aligned None 0 (mem s);
     (case reg_bounds (region_of k s) of
        Some _ \<Rightarrow> None
      | None \<Rightarrow> Some (set_region k \<lparr>reg_bounds = Some \<lparr>rb_begin = begin_aligned, rb_end = end_aligned\<rparr>,
                  reg_head = head, reg_allocable = count\<rparr> (s\<lparr>mem := m\<rparr>)))
   }"

definition AllocRegion_info :: "alloc_region \<Rightarrow> region_info option" where
  "AllocRegion_info r = do {
     b \<leftarrow> reg_bounds r;
     Some \<lparr>ri_begin = rb_begin b, ri_end = rb_end b, ri_allocable = reg_allocable r\<rparr>
   }"

definition AllocRegion_allocate :: "bool \<Rightarrow> pmem \<Rightarrow> (usize option \<times> pmem) option" where
  "AllocRegion_allocate k s =
     (case reg_head (region_of k s) of
        None \<Rightarrow> Some (None, s)
      | Some p \<Rightarrow> do {
          let r = region_of k s;
          let s = set_region k (r\<lparr>reg_head := read_next (mem s) p,
                                  reg_allocable := saturating_sub (reg_allocable r) 1\<rparr>) s;
          idx \<leftarrow> pa_to_index p;
          let old = page_ref s idx;
          let s = s\<lparr>page_ref := (page_ref s)(idx := old + 1)\<rparr>;
          (if old \<noteq> 0 then None
           else Some (Some p, s\<lparr>mem := write_bytes (mem s) p 0 PGSIZE\<rparr>))
        })"

definition AllocRegion_free :: "bool \<Rightarrow> usize \<Rightarrow> pmem \<Rightarrow> pmem option" where
  "AllocRegion_free k addr s = do {
     b \<leftarrow> reg_bounds (region_of k s);
     (if addr < rb_begin b \<or> rb_end b \<le> addr \<or> addr mod PGSIZE \<noteq> 0 then None
      else do {
        idx \<leftarrow> pa_to_index addr;
        let old = page_ref s idx;
        let s = s\<lparr>page_ref := (page_ref s)(idx := old - 1)\<rparr>;
        (if old = 0 then None
         else if 1 < old then Some s
         else do {
           let r = region_of k s;
           let s = s\<lparr>mem := write_next (mem s) addr (reg_head r)\<rparr>;
           n \<leftarrow> uadd (reg_allocable r) 1;
           Some (set_region k (r\<lparr>reg_head := non_null addr, reg_allocable := n\<rparr>) s)
         })
      })
   }"

definition allocate_page :: "bool \<Rightarrow> pmem \<Rightarrow> (usize option \<times> pmem) option" where
  "allocate_page for_kernel s = AllocRegion_allocate for_kernel s"

definition try_alloc :: "bool \<Rightarrow> pmem \<Rightarrow> (usize option \<times> pmem) option" where
  "try_alloc for_kernel s = allocate_page for_kernel s"

definition pmem_alloc :: "bool \<Rightarrow> pmem \<Rightarrow> (usize \<times> pmem) option" where
  "pmem_alloc for_kernel s = do {
     (r, s) \<leftarrow> allocate_page for_kernel s;
     (case r of Some p \<Rightarrow> Some (p, s) | None \<Rightarrow> None)
   }"

definition pmem_free :: "usize \<Rightarrow> bool \<Rightarrow> pmem \<Rightarrow> pmem option" where
  "pmem_free addr for_kernel s =
     (if AllocRegion_contains (kernel_region s) addr then AllocRegion_free True addr s
      else if AllocRegion_contains (user_region s) addr then AllocRegion_free False addr s
      else None)"

definition kernel_region_info :: "pmem \<Rightarrow> region_info option" where
  "kernel_region_info s = AllocRegion_info (kernel_region s)"

definition user_region_info :: "pmem \<Rightarrow> region_info option" where
  "user_region_info s = AllocRegion_info (user_region s)"

definition kernel_pool_range :: "pmem \<Rightarrow> (usize \<times> usize) option" where
  "kernel_pool_range s = do {
     info \<leftarrow> kernel_region_info s;
     Some (ri_begin info, ri_end info)
   }"

definition get_region :: "usize \<Rightarrow> pmem \<Rightarrow> bool option option" where
  "get_region pa s = do {
     k \<leftarrow> kernel_region_info s;
     u \<leftarrow> user_region_info s;
     Some (if ri_begin k \<le> pa \<and> pa < ri_end k then Some True
           else if ri_begin u \<le> pa \<and> pa < ri_end u then Some False
           else None)
   }"

text \<open>
  \<open>initialize_regions\<close>: the linker symbols \<open>__bss_end\<close> and \<open>__alloc_start\<close> and the memory range the
  device tree reports (start and size) are its inputs; the \<open>debug_assert\<close>s are kept.
\<close>

definition initialize_regions :: "usize \<Rightarrow> usize \<Rightarrow> (usize \<times> usize) option \<Rightarrow> pmem \<Rightarrow> pmem option" where
  "initialize_regions bss_end alloc_start mem_range s = do {
     kernel_end \<leftarrow> align_up bss_end;
     let (start, size) = (case mem_range of Some r \<Rightarrow> r | None \<Rightarrow> (0x80000000, 128 * 1024 * 1024));
     mem_end \<leftarrow> uadd start size;
     (if mem_end \<le> kernel_end then None
      else if alloc_start < kernel_end \<or> alloc_start AND (PGSIZE - 1) \<noteq> 0 then None
      else do {
        let alloc_begin = alloc_start;
        let alloc_end = mem_end;
        pool \<leftarrow> umul KERN_PAGES PGSIZE;
        t \<leftarrow> uadd alloc_begin pool;
        split0 \<leftarrow> align_up t;
        let split1 = (if alloc_end < split0 then alloc_end else split0);
        let kernel_split = (if split1 < alloc_begin then alloc_begin else split1);
        s \<leftarrow> AllocRegion_init True alloc_begin kernel_split s;
        s \<leftarrow> AllocRegion_init False kernel_split alloc_end s;
        k \<leftarrow> kernel_region_info s;
        u \<leftarrow> user_region_info s;
        (if ri_begin k AND (PGSIZE - 1) \<noteq> 0 \<or> ri_end k AND (PGSIZE - 1) \<noteq> 0
            \<or> ri_begin u AND (PGSIZE - 1) \<noteq> 0 \<or> ri_end u AND (PGSIZE - 1) \<noteq> 0
         then None else Some s)
      })
   }"

section \<open>Owned frames (mem/frame.rs)\<close>

text \<open>
  A \<open>PhysFrame\<close> owns the page it was allocated with and gives it back when it is dropped.
\<close>

datatype phys_frame = PhysFrame (frame_addr: usize)

definition PhysFrame_alloc :: "pmem \<Rightarrow> (phys_frame option \<times> pmem) option" where
  "PhysFrame_alloc s = do {
     (pa, s) \<leftarrow> pmem_alloc True s;
     Some (if pa = 0 then None else Some (PhysFrame pa), s)
   }"

definition PhysFrame_from_raw :: "usize \<Rightarrow> phys_frame" where
  "PhysFrame_from_raw addr = PhysFrame addr"

definition PhysFrame_drop :: "phys_frame \<Rightarrow> pmem \<Rightarrow> pmem option" where
  "PhysFrame_drop f s = pmem_free (frame_addr f) True s"

section \<open>Pages and the free list\<close>

definition pg_idx :: "usize \<Rightarrow> nat" where
  "pg_idx p = (p - PHY_MEM_START) div PGSIZE"

definition page_in :: "region_bounds \<Rightarrow> usize \<Rightarrow> bool" where
  "page_in b p \<longleftrightarrow> rb_begin b \<le> p \<and> p < rb_end b \<and> p mod PGSIZE = 0"

definition bounds_ok :: "region_bounds \<Rightarrow> bool" where
  "bounds_ok b \<longleftrightarrow> rb_begin b mod PGSIZE = 0 \<and> rb_end b mod PGSIZE = 0 \<and>
     PHY_MEM_START \<le> rb_begin b \<and> rb_end b \<le> PHY_MEM_START + TOTAL_PAGES * PGSIZE"

primrec free_list :: "ram \<Rightarrow> usize option \<Rightarrow> usize list \<Rightarrow> bool" where
  "free_list m h [] \<longleftrightarrow> h = None"
| "free_list m h (p # ps) \<longleftrightarrow> h = Some p \<and> free_list m (read_next m p) ps"

definition region_inv :: "bool \<Rightarrow> pmem \<Rightarrow> usize list \<Rightarrow> bool" where
  "region_inv k s xs \<longleftrightarrow>
     (case reg_bounds (region_of k s) of
        None \<Rightarrow> False
      | Some b \<Rightarrow> bounds_ok b \<and> free_list (mem s) (reg_head (region_of k s)) xs \<and> distinct xs \<and>
          reg_allocable (region_of k s) = length xs \<and>
          (\<forall>p. p \<in> set xs \<longleftrightarrow> page_in b p \<and> page_ref s (pg_idx p) = 0))"

definition has_page :: "bool \<Rightarrow> pmem \<Rightarrow> usize \<Rightarrow> bool" where
  "has_page k s p \<longleftrightarrow> (case reg_bounds (region_of k s) of None \<Rightarrow> False | Some b \<Rightarrow> page_in b p)"

definition pmem_inv :: "pmem \<Rightarrow> bool" where
  "pmem_inv s \<longleftrightarrow> (\<forall>k. \<exists>xs. region_inv k s xs) \<and> (\<forall>p. \<not> (has_page True s p \<and> has_page False s p))"

definition live :: "pmem \<Rightarrow> usize set" where
  "live s = {p. (\<exists>k. has_page k s p) \<and> page_ref s (pg_idx p) \<noteq> 0}"

definition free_pages :: "bool \<Rightarrow> pmem \<Rightarrow> usize set" where
  "free_pages k s = {p. has_page k s p \<and> page_ref s (pg_idx p) = 0}"

lemma region_of_set_region [simp]:
  "region_of k (set_region k' r s) = (if k = k' then r else region_of k s)"
  by (auto simp: region_of_def set_region_def)

lemma region_of_upd [simp]:
  "region_of k (s\<lparr>page_ref := f\<rparr>) = region_of k s" "region_of k (s\<lparr>mem := m\<rparr>) = region_of k s"
  by (auto simp: region_of_def)

lemma set_region_sel [simp]:
  "page_ref (set_region k r s) = page_ref s" "mem (set_region k r s) = mem s"
  by (auto simp: set_region_def)

lemma pages_apart:
  "p mod PGSIZE = 0 \<Longrightarrow> q mod PGSIZE = 0 \<Longrightarrow> p \<noteq> q \<Longrightarrow> p + PGSIZE \<le> q \<or> q + PGSIZE \<le> p"
  by (auto simp: PGSIZE_def elim!: dvdE simp flip: dvd_eq_mod_eq_0)

lemma page_less: "p mod PGSIZE = 0 \<Longrightarrow> q mod PGSIZE = 0 \<Longrightarrow> p < q \<longleftrightarrow> p + PGSIZE \<le> q"
  using pages_apart [of p q] by (auto simp: PGSIZE_def)

lemma free_list_cong:
  "(\<And>p i. p \<in> set xs \<Longrightarrow> i < 8 \<Longrightarrow> m (p + i) = m' (p + i)) \<Longrightarrow> free_list m h xs = free_list m' h xs"
proof (induction xs arbitrary: h)
  case (Cons p ps)
  have "read_next m p = read_next m' p"
    using Cons.prems by (auto simp: read_next_def intro!: arg_cong [where f = non_null] read_u64_cong)
  with Cons show ?case by simp
qed simp

lemma page_addr:
  assumes "bounds_ok b" and "page_in b p"
  shows "0x80000000 \<le> p" "p + PGSIZE \<le> 0x88000000" "p mod PGSIZE = 0"
proof -
  have "rb_end b \<le> 0x88000000" "PHY_MEM_START \<le> rb_begin b"
    using assms(1) by (auto simp: bounds_ok_def PHY_MEM_START_def TOTAL_PAGES_def PGSIZE_def)
  then show "0x80000000 \<le> p" "p mod PGSIZE = 0"
    using assms(2) by (auto simp: page_in_def PHY_MEM_START_def)
  then have "p \<noteq> 0x88000000 \<Longrightarrow> p + PGSIZE \<le> 0x88000000 \<or> 0x88000000 + PGSIZE \<le> p"
    by (intro pages_apart) (auto simp: PGSIZE_def)
  then show "p + PGSIZE \<le> 0x88000000"
    using \<open>rb_end b \<le> 0x88000000\<close> assms(2) by (auto simp: page_in_def)
qed

lemma pa_to_index_page: "bounds_ok b \<Longrightarrow> page_in b p \<Longrightarrow> pa_to_index p = Some (pg_idx p)"
  using page_addr [of b p]
  by (auto simp: pa_to_index_def pg_idx_def PHY_MEM_START_def TOTAL_PAGES_def PGSIZE_def Let_def)

lemma pg_idx_bound: "0x80000000 \<le> p \<Longrightarrow> p + PGSIZE \<le> 0x88000000 \<Longrightarrow> pg_idx p < TOTAL_PAGES"
  by (auto simp: pg_idx_def PHY_MEM_START_def TOTAL_PAGES_def PGSIZE_def)

lemma pg_idx_inj:
  assumes "0x80000000 \<le> p" "p mod PGSIZE = 0" "0x80000000 \<le> q" "q mod PGSIZE = 0"
  shows "pg_idx p = pg_idx q \<longleftrightarrow> p = q"
  using assms by (auto simp: pg_idx_def PHY_MEM_START_def PGSIZE_def elim!: dvdE simp flip: dvd_eq_mod_eq_0)

lemma region_inv_set: "region_inv k s xs \<Longrightarrow> set xs = free_pages k s"
  by (auto simp: region_inv_def free_pages_def has_page_def split: option.splits)

lemma inv_page:
  assumes "pmem_inv s" and "has_page k s p"
  shows "0x80000000 \<le> p" "p + PGSIZE \<le> 0x88000000" "p mod PGSIZE = 0" "pa_to_index p = Some (pg_idx p)"
proof -
  obtain xs where "region_inv k s xs" using assms(1) by (auto simp: pmem_inv_def)
  then obtain b where "bounds_ok b" "page_in b p"
    using assms(2) by (auto simp: region_inv_def has_page_def split: option.splits)
  then show "0x80000000 \<le> p" "p + PGSIZE \<le> 0x88000000" "p mod PGSIZE = 0" "pa_to_index p = Some (pg_idx p)"
    by (auto intro: page_addr pa_to_index_page)
qed

lemma inv_idx_eq:
  "pmem_inv s \<Longrightarrow> has_page k s p \<Longrightarrow> has_page k' s q \<Longrightarrow> pg_idx p = pg_idx q \<longleftrightarrow> p = q"
  by (intro pg_idx_inj) (auto dest: inv_page)

lemma inv_apart:
  "pmem_inv s \<Longrightarrow> has_page k s p \<Longrightarrow> has_page k' s q \<Longrightarrow> p \<noteq> q \<Longrightarrow> p + PGSIZE \<le> q \<or> q + PGSIZE \<le> p"
  by (intro pages_apart) (auto dest: inv_page)

lemma inv_disjoint: "pmem_inv s \<Longrightarrow> has_page k s p \<Longrightarrow> has_page k' s p \<Longrightarrow> k = k'"
  by (cases k; cases k') (auto simp: pmem_inv_def)

lemma has_page_cong: "reg_bounds (region_of k s') = reg_bounds (region_of k s) \<Longrightarrow> has_page k s' p = has_page k s p"
  by (simp add: has_page_def)

text \<open>A region whose record is untouched keeps its invariant when the counts of its pages and the
  links in its free pages are kept.\<close>

lemma region_inv_frame:
  assumes "region_inv k s xs" and "region_of k s' = region_of k s"
    and "\<And>p. has_page k s p \<Longrightarrow> page_ref s' (pg_idx p) = page_ref s (pg_idx p)"
    and "\<And>p i. p \<in> free_pages k s \<Longrightarrow> i < 8 \<Longrightarrow> mem s' (p + i) = mem s (p + i)"
  shows "region_inv k s' xs"
proof -
  have "free_list (mem s') h xs = free_list (mem s) h xs" for h
    using assms(4) region_inv_set [OF assms(1)] by (intro free_list_cong) auto
  then show ?thesis
    using assms(1-3) by (auto simp: region_inv_def has_page_def split: option.splits)
qed

lemma pmem_inv_set_mem:
  assumes inv: "pmem_inv s" and p: "p \<in> live s"
    and m: "\<And>x. x < p \<or> p + PGSIZE \<le> x \<Longrightarrow> m x = mem s x"
  shows "pmem_inv (s\<lparr>mem := m\<rparr>)"
proof -
  obtain k where k: "has_page k s p" and ref: "page_ref s (pg_idx p) \<noteq> 0"
    using p by (auto simp: live_def)
  have out: "m (q + i) = mem s (q + i)" if "q \<in> free_pages k' s" "i < 8" for k' q i
  proof -
    have "has_page k' s q" "q \<noteq> p" using that ref by (auto simp: free_pages_def)
    then have "q + PGSIZE \<le> p \<or> p + PGSIZE \<le> q" using inv_apart [OF inv _ k] by auto
    then show ?thesis using that(2) by (intro m) (auto simp: PGSIZE_def)
  qed
  have "\<exists>xs. region_inv k (s\<lparr>mem := m\<rparr>) xs" for k
  proof -
    obtain xs where "region_inv k s xs" using inv by (auto simp: pmem_inv_def)
    then have "region_inv k (s\<lparr>mem := m\<rparr>) xs" by (rule region_inv_frame) (auto dest: out)
    then show ?thesis ..
  qed
  then show ?thesis
    using inv by (auto simp: pmem_inv_def has_page_def)
qed

lemma live_set_mem [simp]: "live (s\<lparr>mem := m\<rparr>) = live s"
  by (auto simp: live_def has_page_def)

lemma live_page:
  assumes "pmem_inv s" and "p \<in> live s"
  shows "0x80000000 \<le> p" "p + PGSIZE \<le> 0x88000000" "p mod PGSIZE = 0"
  using assms by (auto simp: live_def dest: inv_page)

section \<open>Allocation\<close>

definition alloc_post :: "bool \<Rightarrow> pmem \<Rightarrow> usize \<Rightarrow> pmem \<Rightarrow> bool" where
  "alloc_post k s p s' \<longleftrightarrow>
     pmem_inv s' \<and> p \<in> free_pages k s \<and> live s' = insert p (live s) \<and>
     mem s' = write_bytes (mem s) p 0 PGSIZE \<and> page_ref s' = (page_ref s)(pg_idx p := 1) \<and>
     (\<forall>k. reg_bounds (region_of k s') = reg_bounds (region_of k s))"

lemma read_next_bound: "read_next m p = Some q \<Longrightarrow> 0 < q \<and> q < 2 ^ 64"
  using read_u64_bound [of m p] by (auto simp: read_next_def non_null_def split: if_splits)

lemma alloc_region_inv:
  assumes inv: "pmem_inv s" and r: "region_inv k s (p # ps)"
    and s': "s' = (set_region k ((region_of k s)\<lparr>reg_head := read_next (mem s) p,
       reg_allocable := length ps\<rparr>) s)\<lparr>page_ref := (page_ref s)(pg_idx p := 1),
       mem := write_bytes (mem s) p 0 PGSIZE\<rparr>"
  shows "alloc_post k s p s'"
proof -
  have p: "p \<in> free_pages k s" using region_inv_set [OF r] by auto
  then have hp: "has_page k s p" by (simp add: free_pages_def)
  have bnds: "reg_bounds (region_of j s') = reg_bounds (region_of j s)" for j
    by (simp add: s')
  have ref: "has_page j s q \<Longrightarrow> page_ref s' (pg_idx q) = (if q = p then 1 else page_ref s (pg_idx q))" for j q
    using inv_idx_eq [OF inv _ hp] by (auto simp: s')
  have out: "mem s' (q + i) = mem s (q + i)" if "has_page j s q" "q \<noteq> p" "i < 8" for j q i
    using inv_apart [OF inv that(1) hp that(2)] that(3) by (auto simp: s' PGSIZE_def)
  have d: "p \<notin> set ps" "distinct ps" using r by (auto simp: region_inv_def split: option.splits)
  have kk: "region_inv k s' ps"
  proof -
    have "free_list (mem s') h ps = free_list (mem s) h ps" for h
      using region_inv_set [OF r] d out [of k] by (intro free_list_cong) (auto simp: free_pages_def)
    moreover have "q \<in> set ps \<longleftrightarrow> has_page k s q \<and> page_ref s' (pg_idx q) = 0" for q
    proof -
      have "q \<in> set (p # ps) \<longleftrightarrow> has_page k s q \<and> page_ref s (pg_idx q) = 0"
        unfolding region_inv_set [OF r] by (simp add: free_pages_def)
      with d(1) ref [of k q] show ?thesis by (cases "q = p"; cases "has_page k s q") simp_all
    qed
    moreover obtain b where "reg_bounds (region_of k s) = Some b" "bounds_ok b"
      "free_list (mem s) (read_next (mem s) p) ps"
      using r by (auto simp: region_inv_def split: option.splits)
    ultimately show ?thesis
      unfolding region_inv_def using d(2) by (simp add: bnds has_page_def) (simp add: s')
  qed
  have "\<exists>xs. region_inv j s' xs" for j
  proof (cases "j = k")
    case False
    have ne: "q \<noteq> p" if "has_page j s q" for q
      using inv_disjoint [OF inv that] hp False by auto
    obtain xs where "region_inv j s xs" using inv by (auto simp: pmem_inv_def)
    moreover have "region_of j s' = region_of j s" using False by (simp add: s')
    ultimately have "region_inv j s' xs"
      by (rule region_inv_frame) (auto simp: ref free_pages_def dest: ne intro!: out [of j])
    then show ?thesis ..
  qed (use kk in auto)
  moreover have hpeq: "has_page j s' q = has_page j s q" for j q
    by (rule has_page_cong [OF bnds])
  ultimately have "pmem_inv s'"
    using inv by (auto simp: pmem_inv_def)
  moreover have "live s' = insert p (live s)"
    using hp by (auto simp: live_def hpeq ref split: if_splits)
  ultimately show ?thesis
    using p bnds by (simp add: alloc_post_def s')
qed

lemma pmem_alloc_cases:
  assumes inv: "pmem_inv s"
  shows "(free_pages k s = {} \<and> allocate_page k s = Some (None, s)) \<or>
    (\<exists>p s'. allocate_page k s = Some (Some p, s') \<and> alloc_post k s p s')"
proof -
  obtain xs where r: "region_inv k s xs" using inv by (auto simp: pmem_inv_def)
  show ?thesis
  proof (cases xs)
    case Nil
    then show ?thesis
      using r region_inv_set [OF r]
      by (auto simp: region_inv_def allocate_page_def AllocRegion_allocate_def split: option.splits)
  next
    case (Cons p ps)
    then have p: "has_page k s p" "page_ref s (pg_idx p) = 0"
      using region_inv_set [OF r] by (auto simp: free_pages_def)
    have h: "reg_head (region_of k s) = Some p" "reg_allocable (region_of k s) = Suc (length ps)"
      using r Cons by (auto simp: region_inv_def split: option.splits)
    have "\<exists>s'. allocate_page k s = Some (Some p, s') \<and> alloc_post k s p s'"
      using alloc_region_inv [OF inv r [unfolded Cons] refl] p inv_page(4) [OF inv p(1)]
      by (simp add: allocate_page_def AllocRegion_allocate_def h Let_def saturating_sub_def)
    then show ?thesis by blast
  qed
qed

section \<open>Release\<close>

definition free_post :: "usize \<Rightarrow> pmem \<Rightarrow> pmem \<Rightarrow> bool" where
  "free_post p s s' \<longleftrightarrow>
     pmem_inv s' \<and> page_ref s' = (page_ref s)(pg_idx p := page_ref s (pg_idx p) - 1) \<and>
     live s' = (if page_ref s (pg_idx p) = 1 then live s - {p} else live s) \<and>
     (\<forall>x. x < p \<or> p + PGSIZE \<le> x \<longrightarrow> mem s' x = mem s x) \<and>
     (\<forall>k. reg_bounds (region_of k s') = reg_bounds (region_of k s))"

lemma region_inv_length:
  assumes inv: "pmem_inv s" and r: "region_inv k s xs"
  shows "length xs \<le> TOTAL_PAGES"
proof -
  have hp: "has_page k s p" if "p \<in> set xs" for p
    using that region_inv_set [OF r] by (auto simp: free_pages_def)
  have "inj_on pg_idx (set xs)"
    using inv_idx_eq [OF inv hp hp] by (auto simp: inj_on_def)
  moreover have "pg_idx ` set xs \<subseteq> {..<TOTAL_PAGES}"
    by (auto intro!: pg_idx_bound inv_page [OF inv hp])
  ultimately have "card (set xs) \<le> card {..<TOTAL_PAGES}"
    by (intro card_inj_on_le) auto
  moreover have "distinct xs" using r by (auto simp: region_inv_def split: option.splits)
  ultimately show ?thesis by (simp add: distinct_card)
qed

lemma read_write_next:
  "(\<And>q. h = Some q \<Longrightarrow> 0 < q \<and> q < 2 ^ 64) \<Longrightarrow> read_next (write_next m p h) p = h"
  by (cases h) (auto simp: read_next_def write_next_def non_null_def)

lemma write_next_outside: "x < p \<or> p + 8 \<le> x \<Longrightarrow> write_next m p h x = m x"
  by (auto simp: write_next_def write_u64_def)

lemma free_list_head: "free_list m h xs \<Longrightarrow> h = Some q \<Longrightarrow> q \<in> set xs"
  by (cases xs) auto

lemma free_shared_inv:
  assumes inv: "pmem_inv s" and hp: "has_page k s p"
    and ref: "page_ref s (pg_idx p) \<noteq> 0" "page_ref s (pg_idx p) \<noteq> 1"
  shows "free_post p s (s\<lparr>page_ref := (page_ref s)(pg_idx p := page_ref s (pg_idx p) - 1)\<rparr>)"
    (is "free_post p s ?s'")
proof -
  have nz: "page_ref s (pg_idx p) - 1 \<noteq> 0" using ref(2) by simp
  have eq: "page_ref ?s' (pg_idx q) = 0 \<longleftrightarrow> page_ref s (pg_idx q) = 0" if "has_page j s q" for j q
    using nz ref inv_idx_eq [OF inv that hp] by auto
  have hpe: "has_page j ?s' q = has_page j s q" for j q by (rule has_page_cong) simp
  have "region_inv j ?s' xs \<longleftrightarrow> region_inv j s xs" for j xs
  proof -
    have "(page_in b q \<and> page_ref ?s' (pg_idx q) = 0) = (page_in b q \<and> page_ref s (pg_idx q) = 0)"
      if "reg_bounds (region_of j s) = Some b" for b q
      using eq [of j q] that by (auto simp: has_page_def)
    then show ?thesis by (simp add: region_inv_def split: option.splits)
  qed
  then have "pmem_inv ?s'" using inv unfolding pmem_inv_def hpe by presburger
  moreover have "live ?s' = live s" using eq unfolding live_def hpe by blast
  ultimately show ?thesis using ref by (simp add: free_post_def)
qed

lemma free_last_inv:
  assumes inv: "pmem_inv s" and hp: "has_page k s p" and ref: "page_ref s (pg_idx p) = 1"
    and r: "region_inv k s xs"
    and s': "s' = set_region k ((region_of k s)\<lparr>reg_head := Some p, reg_allocable := Suc (length xs)\<rparr>)
       (s\<lparr>page_ref := (page_ref s)(pg_idx p := 0), mem := write_next (mem s) p (reg_head (region_of k s))\<rparr>)"
  shows "free_post p s s'"
proof -
  obtain b where b: "reg_bounds (region_of k s) = Some b" "bounds_ok b"
    and fl: "free_list (mem s) (reg_head (region_of k s)) xs" and d: "distinct xs"
    using r by (auto simp: region_inv_def split: option.splits)
  have pn: "p \<notin> set xs" using ref region_inv_set [OF r] by (auto simp: free_pages_def)
  have bnds: "reg_bounds (region_of j s') = reg_bounds (region_of j s)" for j by (simp add: s')
  have hpe: "has_page j s' q = has_page j s q" for j q by (rule has_page_cong [OF bnds])
  have refs: "has_page j s q \<Longrightarrow> page_ref s' (pg_idx q) = (if q = p then 0 else page_ref s (pg_idx q))" for j q
    using inv_idx_eq [OF inv _ hp] by (auto simp: s')
  have out: "mem s' (q + i) = mem s (q + i)" if "has_page j s q" "q \<noteq> p" "i < 8" for j q i
    using inv_apart [OF inv that(1) hp that(2)] that(3) by (auto simp: s' PGSIZE_def intro!: write_next_outside)
  have hs: "q \<in> set xs \<longleftrightarrow> has_page k s q \<and> page_ref s (pg_idx q) = 0" for q
    unfolding region_inv_set [OF r] by (simp add: free_pages_def)
  have "region_inv k s' (p # xs)"
  proof -
    have "0 < q \<and> q < 2 ^ 64" if "reg_head (region_of k s) = Some q" for q
      using free_list_head [OF fl that] hs inv_page [OF inv, of k q] by (auto simp: PGSIZE_def)
    then have "read_next (mem s') p = reg_head (region_of k s)"
      by (simp add: s' read_write_next)
    moreover have "free_list (mem s') h xs = free_list (mem s) h xs" for h
      using hs pn by (intro free_list_cong) (auto intro!: out [of k])
    moreover have "q \<in> set (p # xs) \<longleftrightarrow> has_page k s q \<and> page_ref s' (pg_idx q) = 0" for q
      using hs [of q] refs [of k q] hp by (cases "q = p"; cases "has_page k s q") simp_all
    ultimately show ?thesis
      unfolding region_inv_def using d pn b fl by (simp add: bnds has_page_def) (simp add: s')
  qed
  moreover have "\<exists>ys. region_inv j s' ys" if "j \<noteq> k" for j
  proof -
    have ne: "q \<noteq> p" if "has_page j s q" for q
      using inv_disjoint [OF inv that] hp \<open>j \<noteq> k\<close> by auto
    obtain ys where "region_inv j s ys" using inv by (auto simp: pmem_inv_def)
    moreover have "region_of j s' = region_of j s" using that by (simp add: s')
    ultimately have "region_inv j s' ys"
      by (rule region_inv_frame) (auto simp: refs free_pages_def dest: ne intro!: out [of j])
    then show ?thesis ..
  qed
  ultimately have "\<exists>ys. region_inv j s' ys" for j by (cases "j = k") auto
  then have "pmem_inv s'" using inv by (simp add: pmem_inv_def hpe)
  moreover have "live s' = live s - {p}" by (auto simp: live_def hpe refs split: if_splits)
  moreover have "mem s' x = mem s x" if "x < p \<or> p + PGSIZE \<le> x" for x
    using that by (auto simp: s' PGSIZE_def intro!: write_next_outside)
  ultimately show ?thesis
    using ref bnds by (simp add: free_post_def s')
qed

lemma u8_gt_1: "w \<noteq> 0 \<Longrightarrow> w \<noteq> 1 \<Longrightarrow> 1 < (w :: u8)"
proof -
  assume "w \<noteq> 0" "w \<noteq> 1"
  then have "unat w \<noteq> 0" "unat w \<noteq> 1" by (auto simp: word_unat_eq_iff)
  then show "1 < w" by (simp add: word_less_nat_alt)
qed

lemma contains_page: "p mod PGSIZE = 0 \<Longrightarrow> AllocRegion_contains (region_of k s) p = has_page k s p"
  by (auto simp: AllocRegion_contains_def has_page_def page_in_def split: option.splits)

lemma AllocRegion_free_page:
  assumes inv: "pmem_inv s" and hp: "has_page k s p"
  shows "if page_ref s (pg_idx p) = 0 then AllocRegion_free k p s = None
    else \<exists>s'. AllocRegion_free k p s = Some s' \<and> free_post p s s'"
proof -
  obtain xs where r: "region_inv k s xs" using inv by (auto simp: pmem_inv_def)
  obtain b where b: "reg_bounds (region_of k s) = Some b" "page_in b p"
    using hp by (auto simp: has_page_def split: option.splits)
  have len: "reg_allocable (region_of k s) = length xs"
    using r by (auto simp: region_inv_def split: option.splits)
  have nn: "non_null p = Some p" using inv_page [OF inv hp] by (auto simp: non_null_def)
  have add: "uadd (length xs) (Suc 0) = Some (Suc (length xs))"
    using region_inv_length [OF inv r] by (auto simp: cadd_Some_iff TOTAL_PAGES_def PGSIZE_def)
  consider "page_ref s (pg_idx p) = 0" | "page_ref s (pg_idx p) = 1"
    | "page_ref s (pg_idx p) \<noteq> 0" "page_ref s (pg_idx p) \<noteq> 1" by blast
  then show ?thesis
  proof cases
    case 3
    then have "1 < page_ref s (pg_idx p)" by (rule u8_gt_1)
    with 3 b show ?thesis
      using free_shared_inv [OF inv hp 3] inv_page(4) [OF inv hp]
      by (simp add: AllocRegion_free_def page_in_def Let_def)
  qed (use b inv_page(4) [OF inv hp] free_last_inv [OF inv hp _ r refl] in
      \<open>simp_all add: AllocRegion_free_def page_in_def Let_def len add nn\<close>)
qed

lemma pmem_free_spec:
  assumes inv: "pmem_inv s"
  shows "if p \<in> live s then \<exists>s'. pmem_free p f s = Some s' \<and> free_post p s s' else pmem_free p f s = None"
proof (cases "\<exists>k. has_page k s p")
  case True
  then obtain k where k: "has_page k s p" ..
  have "pmem_free p f s = AllocRegion_free k p s"
    using k inv_disjoint [OF inv k] contains_page [OF inv_page(3) [OF inv k], of True s]
      contains_page [OF inv_page(3) [OF inv k], of False s]
    by (cases k) (auto simp: pmem_free_def region_of_def)
  then show ?thesis using AllocRegion_free_page [OF inv k] k by (auto simp: live_def)
next
  case False
  then have "p \<notin> live s" by (auto simp: live_def)
  moreover have "AllocRegion_free k p s = None" for k
    using False by (auto simp: AllocRegion_free_def has_page_def page_in_def split: option.splits bind_splits)
  ultimately show ?thesis by (simp add: pmem_free_def)
qed

section \<open>Initialisation\<close>

lemma init_loop_spec:
  assumes "e + PGSIZE < 2 ^ 64" and "c + PGSIZE < 2 ^ 64" and "c mod PGSIZE = 0" and "e mod PGSIZE = 0"
    and "0 < c" and "free_list m h xs" and "distinct xs"
    and "\<forall>x \<in> set xs. x mod PGSIZE = 0 \<and> 0 < x \<and> x + PGSIZE \<le> c"
  shows "\<exists>h' ys m'. init_loop e c h (length xs) m = Some (h', length ys, m') \<and> free_list m' h' ys \<and>
    distinct ys \<and> set ys = set xs \<union> {p. c \<le> p \<and> p < e \<and> p mod PGSIZE = 0} \<and>
    (\<forall>x. x < c \<or> e \<le> x \<longrightarrow> m' x = m x) \<and> (c < e \<longrightarrow> h' = Some (e - PGSIZE))"
  using assms
proof (induction "e - c" arbitrary: c h m xs rule: less_induct)
  case less
  show ?case
  proof (cases "c + PGSIZE \<le> e")
    case True
    let ?m = "write_next m c h" and ?c = "c + PGSIZE"
    have hd: "0 < q \<and> q < 2 ^ 64" if "h = Some q" for q
      using free_list_head [OF less.prems(6) that] less.prems(2,8) by auto
    have "free_list ?m g xs = free_list m g xs" for g
      using less.prems(8) by (intro free_list_cong write_next_outside) (auto simp: PGSIZE_def)
    then have fl: "free_list ?m (non_null c) (c # xs)"
      using less.prems(5,6) hd by (simp add: non_null_def read_write_next)
    have ds: "distinct (c # xs)" using less.prems(7,8) by (auto simp: PGSIZE_def)
    have al: "?c mod PGSIZE = 0" using less.prems(3) by (simp add: PGSIZE_def)
    have lt: "e - ?c < e - c" "?c + PGSIZE < 2 ^ 64" "0 < ?c"
      using True less.prems(1,5) by (auto simp: PGSIZE_def)
    have all: "\<forall>x \<in> set (c # xs). x mod PGSIZE = 0 \<and> 0 < x \<and> x + PGSIZE \<le> ?c"
      using less.prems(3,5,8) by (auto simp: PGSIZE_def)
    obtain h' ys m' where ys: "init_loop e ?c (non_null c) (length (c # xs)) ?m = Some (h', length ys, m')"
      "free_list m' h' ys" "distinct ys" "set ys = set (c # xs) \<union> {p. ?c \<le> p \<and> p < e \<and> p mod PGSIZE = 0}"
      "\<forall>x. x < ?c \<or> e \<le> x \<longrightarrow> m' x = ?m x" "?c < e \<longrightarrow> h' = Some (e - PGSIZE)"
      using less.hyps [OF lt(1) less.prems(1) lt(2) al less.prems(4) lt(3) fl ds all]
      by (elim exE conjE) (rule that)
    have "set ys = set xs \<union> {p. c \<le> p \<and> p < e \<and> p mod PGSIZE = 0}"
      using ys(4) pages_apart [OF less.prems(3)] less.prems(3) True by (fastforce simp: PGSIZE_def)
    moreover have "h' = Some (e - PGSIZE)" if "\<not> ?c < e"
      using that True ys(1) less.prems(1,2,5)
      by (auto simp: init_loop.simps [of "c + 4096" "c + 4096"] non_null_def cadd_def PGSIZE_def split: if_splits)
    moreover have "init_loop e c h (length xs) m = Some (h', length ys, m')"
      using ys(1) True less.prems(2) by (simp add: init_loop.simps [of e c] cadd_def)
    moreover have "m' x = m x" if "x < c \<or> e \<le> x" for x
      using ys(5) that True by (auto simp: PGSIZE_def write_next_outside)
    ultimately show ?thesis using ys by blast
  next
    case False
    then have "\<not> c < e" using pages_apart [OF less.prems(3,4)] by (auto simp: PGSIZE_def)
    with False less.prems show ?thesis
      by (intro exI [of _ h] exI [of _ xs] exI [of _ m]) (auto simp: init_loop.simps [of e c] cadd_def)
  qed
qed

lemma AllocRegion_init_spec:
  assumes "reg_bounds (region_of k s) = None" and "0 < bgn"
    and "bgn + 2 * PGSIZE < 2 ^ 64" and "fin + 2 * PGSIZE < 2 ^ 64"
    and "align_up bgn = Some b" and "align_down fin = e"
  shows "\<exists>h ys m'. AllocRegion_init k bgn fin s = Some (set_region k \<lparr>reg_bounds = Some \<lparr>rb_begin = b, rb_end = e\<rparr>,
      reg_head = h, reg_allocable = length ys\<rparr> (s\<lparr>mem := m'\<rparr>)) \<and>
    free_list m' h ys \<and> distinct ys \<and> set ys = {p. page_in \<lparr>rb_begin = b, rb_end = e\<rparr> p} \<and>
    (\<forall>x. x < b \<or> e \<le> x \<longrightarrow> m' x = mem s x) \<and> (b < e \<longrightarrow> h = Some (e - PGSIZE))"
proof -
  have b: "b = (bgn + 4095) div PGSIZE * PGSIZE" using assms(5) by (simp add: align_up_Some_iff)
  have e: "e = fin div PGSIZE * PGSIZE" using assms(4,6) by (simp add: align_down_div)
  have "e \<le> fin" unfolding e by (rule div_times_less_eq_dividend)
  moreover have "b \<le> bgn + 4095" unfolding b by (rule div_times_less_eq_dividend)
  moreover have "0 < b" using assms(2) by (auto simp: b PGSIZE_def)
  ultimately have "e + PGSIZE < 2 ^ 64" "b + PGSIZE < 2 ^ 64" "0 < b"
    using assms(3,4) by (auto simp: PGSIZE_def)
  then obtain h ys m' where ys: "init_loop e b None 0 (mem s) = Some (h, length ys, m')" "free_list m' h ys"
    "distinct ys" "set ys = {p. b \<le> p \<and> p < e \<and> p mod PGSIZE = 0}"
    "\<forall>x. x < b \<or> e \<le> x \<longrightarrow> m' x = mem s x" "b < e \<longrightarrow> h = Some (e - PGSIZE)"
    using init_loop_spec [of e b "mem s" None "[]"] by (auto simp: b e)
  then show ?thesis
    using assms by (intro exI [of _ h] exI [of _ ys] exI [of _ m']) (simp add: AllocRegion_init_def page_in_def)
qed

lemma aligned_and_mask: "x mod PGSIZE = 0 \<Longrightarrow> x AND (PGSIZE - 1) = 0"
  using page_offset_eq [of x] by (simp add: page_offset_def PGMASK_def)

text \<open>Where \<open>initialize_regions\<close> puts the boundary between the kernel's and the users' pages.\<close>

definition kernel_split :: "usize \<Rightarrow> usize \<Rightarrow> usize" where
  "kernel_split alloc_begin alloc_end = max alloc_begin (min alloc_end (alloc_begin + KERN_PAGES * PGSIZE))"

lemma initialize_regions_split:
  assumes start: "align_up bss_end = Some ke" "ke \<le> alloc_start" "ke < start + sz"
    and alloc: "alloc_start mod PGSIZE = 0" "0 < alloc_start" "alloc_start < 2 ^ 63" "start + sz < 2 ^ 63"
  shows "initialize_regions bss_end alloc_start (Some (start, sz)) (pmem_boot m) =
    Option.bind (AllocRegion_init True alloc_start (kernel_split alloc_start (start + sz)) (pmem_boot m))
      (\<lambda>s. Option.bind (AllocRegion_init False (kernel_split alloc_start (start + sz)) (start + sz) s)
        (\<lambda>s. Option.bind (kernel_region_info s) (\<lambda>k. Option.bind (user_region_info s) (\<lambda>u.
          if ri_begin k AND (PGSIZE - 1) \<noteq> 0 \<or> ri_end k AND (PGSIZE - 1) \<noteq> 0 \<or>
             ri_begin u AND (PGSIZE - 1) \<noteq> 0 \<or> ri_end u AND (PGSIZE - 1) \<noteq> 0 then None else Some s))))"
proof -
  have c: "uadd start sz = Some (start + sz)" "umul KERN_PAGES PGSIZE = Some (KERN_PAGES * PGSIZE)"
    "uadd alloc_start (KERN_PAGES * PGSIZE) = Some (alloc_start + KERN_PAGES * PGSIZE)"
    using alloc by (auto simp: panic_simps KERN_PAGES_def PGSIZE_def)
  have a: "align_up (alloc_start + KERN_PAGES * PGSIZE) = Some (alloc_start + KERN_PAGES * PGSIZE)"
    using alloc by (auto simp: align_up_Some_iff KERN_PAGES_def PGSIZE_def elim!: dvdE simp flip: dvd_eq_mod_eq_0)
  have k: "(if (if start + sz < alloc_start + KERN_PAGES * PGSIZE then start + sz
       else alloc_start + KERN_PAGES * PGSIZE) < alloc_start then alloc_start
      else if start + sz < alloc_start + KERN_PAGES * PGSIZE then start + sz
       else alloc_start + KERN_PAGES * PGSIZE) = kernel_split alloc_start (start + sz)"
    by (auto simp: kernel_split_def)
  show ?thesis
    using start c a aligned_and_mask [OF alloc(1)]
    by (simp add: initialize_regions_def Let_def k)
qed

lemma align_down_le: "v < 2 ^ 64 \<Longrightarrow> align_down v \<le> v"
  by (simp add: align_down_eq)

lemma align_down_aligned: "v < 2 ^ 64 \<Longrightarrow> align_down v mod PGSIZE = 0"
  by (simp add: align_down_div)

lemma align_down_id: "v < 2 ^ 64 \<Longrightarrow> v mod PGSIZE = 0 \<Longrightarrow> align_down v = v"
  by (simp add: align_down_eq)

lemma align_up_bounds:
  assumes "align_up v = Some r"
  shows "v \<le> r" "r \<le> v + 4095" "r mod PGSIZE = 0"
proof -
  have r: "r = (v + 4095) div PGSIZE * PGSIZE" using assms by (simp add: align_up_Some_iff)
  show "r \<le> v + 4095" unfolding r by (rule div_times_less_eq_dividend)
  show "r mod PGSIZE = 0" by (simp add: r)
  have "v + 4095 < r + PGSIZE"
    using dividend_less_div_times [of PGSIZE "v + 4095"] by (simp add: r PGSIZE_def)
  then show "v \<le> r" by (simp add: PGSIZE_def)
qed

lemma align_up_id: "v + 4095 < 2 ^ 64 \<Longrightarrow> v mod PGSIZE = 0 \<Longrightarrow> align_up v = Some v"
  by (auto simp: align_up_Some_iff PGSIZE_def elim!: dvdE simp flip: dvd_eq_mod_eq_0)

lemma initialize_regions_result:
  assumes start: "align_up bss_end = Some ke" "ke \<le> a" "ke < start + sz"
    and alloc: "a mod PGSIZE = 0" "0 < a" "a \<le> start + sz" "start + sz < 2 ^ 62"
    and ks: "ks = kernel_split a (start + sz)" "align_up ks = Some ub" "align_down ks = ke'"
      "align_down (start + sz) = ue"
  shows "\<exists>h1 ys1 h2 ys2 m'. initialize_regions bss_end a (Some (start, sz)) (pmem_boot m) =
      Some \<lparr>kernel_region = \<lparr>reg_bounds = Some \<lparr>rb_begin = a, rb_end = ke'\<rparr>, reg_head = h1, reg_allocable = length ys1\<rparr>,
        user_region = \<lparr>reg_bounds = Some \<lparr>rb_begin = ub, rb_end = ue\<rparr>, reg_head = h2, reg_allocable = length ys2\<rparr>,
        page_ref = (\<lambda>_. 0), mem = m'\<rparr> \<and>
    free_list m' h1 ys1 \<and> distinct ys1 \<and> set ys1 = {p. page_in \<lparr>rb_begin = a, rb_end = ke'\<rparr> p} \<and>
    free_list m' h2 ys2 \<and> distinct ys2 \<and> set ys2 = {p. page_in \<lparr>rb_begin = ub, rb_end = ue\<rparr> p} \<and>
    (ub < ue \<longrightarrow> h2 = Some (ue - PGSIZE)) \<and> (\<forall>x < a. m' x = m x)"
proof -
  have k: "a \<le> ks" "ks \<le> start + sz" using alloc(3) by (auto simp: ks(1) kernel_split_def)
  have r: "ke' \<le> ks" "ks \<le> ub" using align_down_le [of ks] align_up_bounds [OF ks(2)] k alloc ks by auto
  have au: "align_up a = Some a" using alloc k by (intro align_up_id) auto
  let ?s0 = "pmem_boot m"
  obtain h1 ys1 m1 where i1: "AllocRegion_init True a ks ?s0 = Some (set_region True
      \<lparr>reg_bounds = Some \<lparr>rb_begin = a, rb_end = ke'\<rparr>, reg_head = h1, reg_allocable = length ys1\<rparr> (?s0\<lparr>mem := m1\<rparr>))"
    and f1: "free_list m1 h1 ys1" "distinct ys1" "set ys1 = {p. page_in \<lparr>rb_begin = a, rb_end = ke'\<rparr> p}"
      "\<forall>x. x < a \<or> ke' \<le> x \<longrightarrow> m1 x = m x"
    using AllocRegion_init_spec [of True ?s0 a ks, OF _ alloc(2) _ _ au ks(3)] k alloc
    by (auto simp: pmem_boot_def region_of_def region_new_def PGSIZE_def)
  let ?s1 = "set_region True
      \<lparr>reg_bounds = Some \<lparr>rb_begin = a, rb_end = ke'\<rparr>, reg_head = h1, reg_allocable = length ys1\<rparr> (?s0\<lparr>mem := m1\<rparr>)"
  obtain h2 ys2 m2 where i2: "AllocRegion_init False ks (start + sz) ?s1 = Some (set_region False
      \<lparr>reg_bounds = Some \<lparr>rb_begin = ub, rb_end = ue\<rparr>, reg_head = h2, reg_allocable = length ys2\<rparr> (?s1\<lparr>mem := m2\<rparr>))"
    and f2: "free_list m2 h2 ys2" "distinct ys2" "set ys2 = {p. page_in \<lparr>rb_begin = ub, rb_end = ue\<rparr> p}"
      "\<forall>x. x < ub \<or> ue \<le> x \<longrightarrow> m2 x = m1 x" "ub < ue \<longrightarrow> h2 = Some (ue - PGSIZE)"
    using AllocRegion_init_spec [of False ?s1 ks "start + sz", OF _ _ _ _ ks(2,4)] k alloc
    by (auto simp: pmem_boot_def region_of_def region_new_def set_region_def PGSIZE_def)
  have apart: "p + 8 \<le> ub" if "p \<in> set ys1" for p
    using that f1(3) r pages_apart [of p ke'] align_down_aligned [of ks] ks(3) k alloc
    by (auto simp: page_in_def PGSIZE_def)
  have "free_list m2 h1 ys1"
    using f1(1) free_list_cong [of ys1 m2 m1 h1] f2(4) apart by fastforce
  moreover have "m2 x = m x" if "x < a" for x
    using that f1(4) f2(4) k r by auto
  moreover have "ke' mod PGSIZE = 0" "ue mod PGSIZE = 0"
    using k alloc align_down_aligned [of ks] align_down_aligned [of "start + sz"] by (simp_all flip: ks(3,4))
  with alloc(1) align_up_bounds(3) [OF ks(2)]
  have "a AND (PGSIZE - 1) = 0" "ub AND (PGSIZE - 1) = 0" "ke' AND (PGSIZE - 1) = 0" "ue AND (PGSIZE - 1) = 0"
    by (simp_all only: aligned_and_mask)
  moreover have "initialize_regions bss_end a (Some (start, sz)) ?s0 = Option.bind (Some (set_region False
      \<lparr>reg_bounds = Some \<lparr>rb_begin = ub, rb_end = ue\<rparr>, reg_head = h2, reg_allocable = length ys2\<rparr> (?s1\<lparr>mem := m2\<rparr>)))
        (\<lambda>s. Option.bind (kernel_region_info s) (\<lambda>k. Option.bind (user_region_info s) (\<lambda>u.
          if ri_begin k AND (PGSIZE - 1) \<noteq> 0 \<or> ri_end k AND (PGSIZE - 1) \<noteq> 0 \<or>
             ri_begin u AND (PGSIZE - 1) \<noteq> 0 \<or> ri_end u AND (PGSIZE - 1) \<noteq> 0 then None else Some s)))"
    using initialize_regions_split [OF start alloc(1,2), of m] alloc ks(1) i1 i2 by simp
  ultimately show ?thesis
    using f1(2,3) f2(1-3,5)
    by (intro exI [of _ h1] exI [of _ ys1] exI [of _ h2] exI [of _ ys2] exI [of _ m2])
      (simp add: kernel_region_info_def user_region_info_def AllocRegion_info_def set_region_def pmem_boot_def)
qed

section \<open>A small machine\<close>

text \<open>Four free kernel pages, no user page: the state on which the properties are exercised.\<close>

definition pmem_example :: pmem where
  "pmem_example = \<lparr>kernel_region = \<lparr>reg_bounds = Some \<lparr>rb_begin = 0x80001000, rb_end = 0x80005000\<rparr>,
       reg_head = Some 0x80004000, reg_allocable = 4\<rparr>,
     user_region = \<lparr>reg_bounds = Some \<lparr>rb_begin = 0x80005000, rb_end = 0x80005000\<rparr>,
       reg_head = None, reg_allocable = 0\<rparr>,
     page_ref = (\<lambda>_. 0),
     mem = write_next (write_next (write_next (\<lambda>_. 0) 0x80002000 (Some 0x80001000))
       0x80003000 (Some 0x80002000)) 0x80004000 (Some 0x80003000)\<rparr>"

lemma read_write_next_other:
  "p + 8 \<le> q \<or> q + 8 \<le> p \<Longrightarrow> read_next (write_next m q h) p = read_next m p"
  by (simp add: read_next_def write_next_def read_write_u64_disjoint)

lemma read_next_zero: "read_next (\<lambda>_. 0) p = None"
  by (simp add: read_next_def read_u64_zero non_null_def)

lemma page_in_example:
  "page_in \<lparr>rb_begin = 0x80001000, rb_end = 0x80005000\<rparr> p \<longleftrightarrow> p \<in> {0x80004000, 0x80003000, 0x80002000, 0x80001000}"
  by (auto simp: page_in_def PGSIZE_def elim!: dvdE simp flip: dvd_eq_mod_eq_0)

lemma pmem_example_inv: "pmem_inv pmem_example"
proof -
  have "region_inv True pmem_example [0x80004000, 0x80003000, 0x80002000, 0x80001000]"
    using read_write_next [of "Some 0x80001000"] read_write_next [of "Some 0x80002000"] read_write_next [of "Some 0x80003000"]
    by (simp add: region_inv_def region_of_def pmem_example_def read_write_next_other read_next_zero
      page_in_example bounds_ok_def PHY_MEM_START_def TOTAL_PAGES_def PGSIZE_def)
  moreover have "region_inv False pmem_example []"
    by (simp add: region_inv_def region_of_def pmem_example_def bounds_ok_def page_in_def
      PHY_MEM_START_def TOTAL_PAGES_def PGSIZE_def)
  ultimately have "\<exists>xs. region_inv k pmem_example xs" for k by (cases k) auto
  then show ?thesis by (auto simp: pmem_inv_def has_page_def region_of_def pmem_example_def page_in_def)
qed

lemma pmem_example_free: "free_pages True pmem_example = {0x80001000, 0x80002000, 0x80003000, 0x80004000}"
  by (auto simp: free_pages_def has_page_def region_of_def pmem_example_def page_in_example)

section \<open>Properties\<close>

lemma pmem_alloc_post:
  assumes "pmem_inv s"
  shows "(free_pages k s = {} \<and> pmem_alloc k s = None) \<or>
    (\<exists>p s'. pmem_alloc k s = Some (p, s') \<and> alloc_post k s p s')"
  using pmem_alloc_cases [OF assms, of k] by (auto simp: pmem_alloc_def)

text \<open>C37. Allocation. In a well-formed allocator state, \<open>alloc\<close> panics exactly when the region has no
  free page. Otherwise it returns a page of that region that was free, so no live page is handed out
  twice; the page becomes live with reference count one, is all zero, no byte outside it changes, and
  the allocator stays well formed.\<close>

theorem pmem_alloc_correct:
  assumes "pmem_inv s"
  shows "case pmem_alloc k s of
      None \<Rightarrow> free_pages k s = {}
    | Some (p, s') \<Rightarrow> pmem_inv s' \<and> p \<in> free_pages k s \<and> p \<notin> live s \<and> live s' = insert p (live s) \<and>
        page_ref s' = (page_ref s)(pg_idx p := 1) \<and>
        (\<forall>x. mem s' x = (if p \<le> x \<and> x < p + PGSIZE then 0 else mem s x))"
  using pmem_alloc_post [OF assms, of k]
  by (auto simp: alloc_post_def free_pages_def live_def write_bytes_def)

theorem pmem_alloc_correct_witness:
  "\<exists>p s'. pmem_alloc True pmem_example = Some (p, s') \<and> pmem_inv s' \<and> p \<in> {0x80001000, 0x80002000, 0x80003000, 0x80004000}"
  using pmem_alloc_correct [OF pmem_example_inv, of True]
  by (auto simp: pmem_example_free split: option.splits)

text \<open>C38. Release. \<open>free\<close> panics exactly when the address is not a live page: an address outside the
  regions, an unaligned one and a double free all stop the kernel. On a live page it drops one
  reference; the page leaves the live set only with its last reference, no byte of another page
  changes, and the allocator stays well formed.\<close>

theorem pmem_free_correct:
  assumes "pmem_inv s"
  shows "case pmem_free p f s of
      None \<Rightarrow> p \<notin> live s
    | Some s' \<Rightarrow> p \<in> live s \<and> pmem_inv s' \<and>
        page_ref s' = (page_ref s)(pg_idx p := page_ref s (pg_idx p) - 1) \<and>
        live s' = (if page_ref s (pg_idx p) = 1 then live s - {p} else live s) \<and>
        (\<forall>x. x < p \<or> p + PGSIZE \<le> x \<longrightarrow> mem s' x = mem s x)"
  using pmem_free_spec [OF assms, of p f] by (auto simp: free_post_def split: if_splits)

theorem pmem_free_correct_witness: "pmem_free 0x80001000 True pmem_example = None"
proof -
  have "0x80001000 \<notin> live pmem_example"
    by (simp add: live_def pmem_example_def)
  then show ?thesis
    using pmem_free_correct [OF pmem_example_inv, of "0x80001000" True] by (auto split: option.splits)
qed

text \<open>Two adjacent ranges of whole pages that cover the memory between \<open>a\<close> and \<open>e\<close>.\<close>

lemma pages_between:
  assumes "x mod PGSIZE = 0" "u mod PGSIZE = 0" "b mod PGSIZE = 0" and "u \<le> e" "e < u + PGSIZE" "a \<le> b" "x \<le> e"
    and "b = x \<or> x = u \<and> u \<le> b"
  shows "p mod PGSIZE = 0 \<and> (a \<le> p \<and> p < x \<or> b \<le> p \<and> p < u) \<longleftrightarrow> a \<le> p \<and> p + PGSIZE \<le> e \<and> p mod PGSIZE = 0"
proof -
  have "p < x \<longleftrightarrow> p + PGSIZE \<le> x" "p < u \<longleftrightarrow> p + PGSIZE \<le> u" "p < b \<longleftrightarrow> p + PGSIZE \<le> b" if "p mod PGSIZE = 0"
    using that assms(1-3) by (simp_all only: page_less)
  moreover have "p + PGSIZE \<le> e \<longleftrightarrow> p + PGSIZE \<le> u" if "p mod PGSIZE = 0"
    using that assms(2,4,5) page_less [of u "p + PGSIZE"] by (auto simp: PGSIZE_def)
  moreover have "x \<le> u" using assms(5,7) page_less [OF assms(2,1)] by linarith
  ultimately show ?thesis using assms(4-8) by auto
qed

text \<open>C39. Initialisation. With an aligned heap start above the kernel image and memory that ends within
  128 MiB of its base, \<open>initialize_regions\<close> succeeds and establishes a well-formed allocator: no page
  is live, the two regions are disjoint, their free pages are exactly the whole pages between the heap
  start and the end of memory, and nothing below the heap start is written.\<close>

theorem initialize_regions_ok:
  assumes start: "align_up bss_end = Some ke" "ke \<le> a" "ke < start + sz"
    and alloc: "a mod PGSIZE = 0" "PHY_MEM_START \<le> a" "a \<le> start + sz"
    and top: "start + sz \<le> PHY_MEM_START + TOTAL_PAGES * PGSIZE"
  shows "\<exists>s'. initialize_regions bss_end a (Some (start, sz)) (pmem_boot m) = Some s' \<and> pmem_inv s' \<and> live s' = {} \<and>
    (\<forall>p. (\<exists>k. p \<in> free_pages k s') \<longleftrightarrow> a \<le> p \<and> p + PGSIZE \<le> start + sz \<and> p mod PGSIZE = 0) \<and>
    (\<forall>x < a. mem s' x = m x)"
proof -
  define ks where "ks = kernel_split a (start + sz)"
  have n: "PHY_MEM_START = 0x80000000" "TOTAL_PAGES * PGSIZE = 0x8000000"
    by (simp_all add: PHY_MEM_START_def TOTAL_PAGES_def PGSIZE_def)
  have k: "a \<le> ks" "ks \<le> start + sz" using alloc(3) by (auto simp: ks_def kernel_split_def)
  obtain ub where ub: "align_up ks = Some ub"
    using k top n align_up_None_iff [of ks] by (cases "align_up ks") auto
  define ke' ue where "ke' = align_down ks" and "ue = align_down (start + sz)"
  have al: "ke' mod PGSIZE = 0" "ue mod PGSIZE = 0" "ub mod PGSIZE = 0" "ke' \<le> ks" "ue \<le> start + sz" "ks \<le> ub"
    "start + sz < ue + PGSIZE" "ks < ke' + PGSIZE" "ub \<le> ks + 4095"
    using k top n align_up_bounds [OF ub] align_down_aligned [of ks] align_down_aligned [of "start + sz"]
      align_down_eq [of ks] align_down_eq [of "start + sz"]
    by (auto simp: ke'_def ue_def PGSIZE_def)
  have sp: "ks = a + KERN_PAGES * PGSIZE \<Longrightarrow> ub = ke'" "ks \<noteq> a + KERN_PAGES * PGSIZE \<Longrightarrow> ks = start + sz \<or> ks = a"
    "ks = start + sz \<Longrightarrow> ke' = ue" "ks = a \<Longrightarrow> ub = ke'"
    using alloc(1) k top n ub align_up_id [of ks] align_down_id [of ks]
    by (auto simp: ks_def kernel_split_def ke'_def ue_def min_def max_def split: if_splits)
  obtain h1 ys1 h2 ys2 m' where s': "initialize_regions bss_end a (Some (start, sz)) (pmem_boot m) =
      Some \<lparr>kernel_region = \<lparr>reg_bounds = Some \<lparr>rb_begin = a, rb_end = ke'\<rparr>, reg_head = h1, reg_allocable = length ys1\<rparr>,
        user_region = \<lparr>reg_bounds = Some \<lparr>rb_begin = ub, rb_end = ue\<rparr>, reg_head = h2, reg_allocable = length ys2\<rparr>,
        page_ref = (\<lambda>_. 0), mem = m'\<rparr>" (is "_ = Some ?s")
    and f: "free_list m' h1 ys1" "distinct ys1" "set ys1 = {p. page_in \<lparr>rb_begin = a, rb_end = ke'\<rparr> p}"
      "free_list m' h2 ys2" "distinct ys2" "set ys2 = {p. page_in \<lparr>rb_begin = ub, rb_end = ue\<rparr> p}" "\<forall>x < a. m' x = m x"
    using initialize_regions_result [OF start alloc(1) _ alloc(3) _ ks_def ub ke'_def [symmetric] ue_def [symmetric], of m]
      alloc(2) top n by auto
  have "region_inv True ?s ys1" "region_inv False ?s ys2"
    using f al k alloc top by (auto simp: region_inv_def region_of_def bounds_ok_def)
  then have "\<exists>xs. region_inv k ?s xs" for k by (cases k) auto
  moreover have "\<not> (has_page True ?s p \<and> has_page False ?s p)" for p
    using al by (auto simp: has_page_def region_of_def page_in_def)
  ultimately have inv: "pmem_inv ?s" unfolding pmem_inv_def by blast
  have "(\<exists>k. p \<in> free_pages k ?s) \<longleftrightarrow>
      p mod PGSIZE = 0 \<and> (a \<le> p \<and> p < ke' \<or> ub \<le> p \<and> p < ue)" for p
    by (auto simp: free_pages_def has_page_def region_of_def page_in_def ex_bool_eq)
  moreover have "p mod PGSIZE = 0 \<and> (a \<le> p \<and> p < ke' \<or> ub \<le> p \<and> p < ue) \<longleftrightarrow>
      a \<le> p \<and> p + PGSIZE \<le> start + sz \<and> p mod PGSIZE = 0" for p
    using al k sp by (intro pages_between) (auto dest: order_trans)
  moreover have "live ?s = {}" by (simp add: live_def)
  ultimately show ?thesis using s' inv f(7) by auto
qed

theorem initialize_regions_ok_witness:
  "\<exists>s'. initialize_regions 0x80205123 0x80206000 (Some (0x80000000, 0x8000000)) (pmem_boot (\<lambda>_. 0)) = Some s' \<and>
    pmem_inv s' \<and> live s' = {}"
  using initialize_regions_ok [of "0x80205123" "0x80206000" "0x80206000" "0x80000000" "0x8000000" "\<lambda>_. 0"]
  by (auto simp: align_up_Some_iff PGSIZE_def PHY_MEM_START_def TOTAL_PAGES_def)

text \<open>Allocating a page and freeing it again succeeds and restores the allocator: the same pages are
  live, every reference count and every free set is as before.\<close>

theorem pmem_alloc_free:
  assumes "pmem_inv s" and "pmem_alloc k s = Some (p, s1)"
  shows "\<exists>s2. pmem_free p f s1 = Some s2 \<and> pmem_inv s2 \<and> live s2 = live s \<and> page_ref s2 = page_ref s \<and>
    (\<forall>j. free_pages j s2 = free_pages j s)"
proof -
  have post: "alloc_post k s p s1" using pmem_alloc_post [OF assms(1), of k] assms(2) by auto
  then have ref: "page_ref s (pg_idx p) = 0" "page_ref s1 = (page_ref s)(pg_idx p := 1)" "p \<notin> live s"
    by (auto simp: alloc_post_def free_pages_def live_def)
  have "pmem_inv s1" "p \<in> live s1" "live s1 = insert p (live s)" using post by (auto simp: alloc_post_def)
  then obtain s2 where s2: "pmem_free p f s1 = Some s2" "free_post p s1 s2"
    using pmem_free_spec [of s1 p f] by auto
  have "page_ref s2 = page_ref s" using s2(2) ref by (auto simp: free_post_def)
  moreover have "has_page j s2 q = has_page j s q" for j q
    using s2(2) post by (intro has_page_cong) (simp add: free_post_def alloc_post_def)
  moreover have "live s2 = live s"
    using s2(2) ref \<open>live s1 = insert p (live s)\<close> by (auto simp: free_post_def)
  ultimately show ?thesis using s2 by (auto simp: free_post_def free_pages_def)
qed

theorem pmem_alloc_free_witness:
  "\<exists>p s1 s2. pmem_alloc True pmem_example = Some (p, s1) \<and> pmem_free p True s1 = Some s2 \<and> live s2 = live pmem_example"
proof -
  obtain p s1 where "pmem_alloc True pmem_example = Some (p, s1)"
    using pmem_alloc_post [OF pmem_example_inv, of True] pmem_example_free by auto
  then show ?thesis using pmem_alloc_free [OF pmem_example_inv, of True p s1 True] by blast
qed

text \<open>C40. Memory beyond 128 MiB. When the device tree reports memory that reaches past the 32768 pages
  the reference counts cover, initialisation still succeeds and fills the user region, but the very
  first user allocation panics: the free list starts at the highest page, which has no count.\<close>

theorem large_memory_alloc_panics:
  assumes start: "align_up bss_end = Some ke" "ke \<le> a" "ke < start + sz"
    and alloc: "a mod PGSIZE = 0" "0 < a" "a + KERN_PAGES * PGSIZE < PHY_MEM_START + TOTAL_PAGES * PGSIZE"
    and top: "PHY_MEM_START + TOTAL_PAGES * PGSIZE + PGSIZE \<le> start + sz" "start + sz < 2 ^ 62"
  shows "\<exists>s'. initialize_regions bss_end a (Some (start, sz)) (pmem_boot m) = Some s' \<and>
    free_pages False s' \<noteq> {} \<and> pmem_alloc False s' = None"
proof -
  define ks ue where "ks = a + KERN_PAGES * PGSIZE" and "ue = align_down (start + sz)"
  have n: "PHY_MEM_START = 0x80000000" "TOTAL_PAGES * PGSIZE = 0x8000000"
    by (simp_all add: PHY_MEM_START_def TOTAL_PAGES_def PGSIZE_def)
  have ks: "ks = kernel_split a (start + sz)" "ks mod PGSIZE = 0" "ks < 0x88000000"
    using alloc top n by (auto simp: ks_def kernel_split_def)
  have ue: "ue mod PGSIZE = 0" "0x88000000 < ue"
    using top n align_down_aligned [of "start + sz"] align_down_eq [of "start + sz"]
    by (auto simp: ue_def PGSIZE_def)
  have "ue - PGSIZE \<ge> 0x88000000" using ue page_less [of "0x88000000" ue] by (auto simp: PGSIZE_def)
  then have pan: "pa_to_index (ue - PGSIZE) = None"
    by (auto simp: pa_to_index_def n Let_def TOTAL_PAGES_def PGSIZE_def)
  have le: "a \<le> start + sz" "ks < ue" and id: "align_up ks = Some ks" "align_down ks = ks"
    using alloc top n ks ue by (auto intro: align_up_id align_down_id)
  obtain h1 h2 m' and ys1 ys2 :: "usize list" where s': "initialize_regions bss_end a (Some (start, sz)) (pmem_boot m) =
      Some \<lparr>kernel_region = \<lparr>reg_bounds = Some \<lparr>rb_begin = a, rb_end = ks\<rparr>, reg_head = h1, reg_allocable = length ys1\<rparr>,
        user_region = \<lparr>reg_bounds = Some \<lparr>rb_begin = ks, rb_end = ue\<rparr>, reg_head = h2, reg_allocable = length ys2\<rparr>,
        page_ref = (\<lambda>_. 0), mem = m'\<rparr>" (is "_ = Some ?s") and "ks < ue \<longrightarrow> h2 = Some (ue - PGSIZE)"
    using initialize_regions_result [OF start alloc(1,2) le(1) top(2) ks(1) id ue_def [symmetric], of m]
    by (elim exE conjE) (rule that)
  then have h2: "h2 = Some (ue - PGSIZE)" using le(2) by simp
  have "ks \<in> free_pages False ?s"
    using ks ue by (simp add: free_pages_def has_page_def region_of_def page_in_def)
  moreover have "pmem_alloc False ?s = None"
    by (simp add: pmem_alloc_def allocate_page_def AllocRegion_allocate_def region_of_def set_region_def h2 pan Let_def)
  ultimately show ?thesis using s' by blast
qed

theorem large_memory_alloc_panics_witness:
  "\<exists>s'. initialize_regions 0x80205123 0x80206000 (Some (0x80000000, 0x40000000)) (pmem_boot (\<lambda>_. 0)) = Some s' \<and>
    free_pages False s' \<noteq> {} \<and> pmem_alloc False s' = None"
  by (rule large_memory_alloc_panics [of "0x80205123" "0x80206000" "0x80206000" "0x80000000" "0x40000000"])
    (simp_all add: align_up_Some_iff PGSIZE_def PHY_MEM_START_def TOTAL_PAGES_def KERN_PAGES_def)

section \<open>The contract for clients\<close>

text \<open>
  What the page tables and the address spaces rely on: an allocation in a good state hands out a fresh
  zeroed page, and a client may write its live pages without disturbing the allocator.
\<close>

locale frame_source =
  fixes alloc :: "pmem \<Rightarrow> (usize \<times> pmem) option"
    and good :: "pmem \<Rightarrow> bool"
    and owned :: "pmem \<Rightarrow> usize set"
  assumes alloc_good: "good s \<Longrightarrow> alloc s = Some (p, s') \<Longrightarrow> good s'"
    and alloc_fresh: "good s \<Longrightarrow> alloc s = Some (p, s') \<Longrightarrow> p \<notin> owned s"
    and alloc_owned: "good s \<Longrightarrow> alloc s = Some (p, s') \<Longrightarrow> owned s' = insert p (owned s)"
    and alloc_mem: "good s \<Longrightarrow> alloc s = Some (p, s') \<Longrightarrow> mem s' = write_bytes (mem s) p 0 PGSIZE"
    and owned_page: "good s \<Longrightarrow> p \<in> owned s \<Longrightarrow> p mod PGSIZE = 0 \<and> 0 < p \<and> p + PGSIZE \<le> 2 ^ 56"
    and write_good: "good s \<Longrightarrow> p \<in> owned s \<Longrightarrow> (\<And>x. x < p \<or> p + PGSIZE \<le> x \<Longrightarrow> m x = mem s x) \<Longrightarrow> good (s\<lparr>mem := m\<rparr>)"
    and write_owned: "owned (s\<lparr>mem := m\<rparr>) = owned s"
begin

lemma owned_apart:
  "good s \<Longrightarrow> p \<in> owned s \<Longrightarrow> q \<in> owned s \<Longrightarrow> p \<noteq> q \<Longrightarrow> p + PGSIZE \<le> q \<or> q + PGSIZE \<le> p"
  using owned_page [of s p] owned_page [of s q] pages_apart [of p q] by simp

text \<open>Two successive allocations never return overlapping pages.\<close>

lemma alloc_twice_apart:
  assumes "good s" and "alloc s = Some (p, s1)" and "alloc s1 = Some (q, s2)"
  shows "p + PGSIZE \<le> q \<or> q + PGSIZE \<le> p"
proof -
  have "good s1" "p \<in> owned s1" "q \<notin> owned s1" "good s2" "owned s2 = insert q (owned s1)"
    using alloc_good [OF assms(1,2)] alloc_owned [OF assms(1,2)] alloc_fresh [OF _ assms(3)]
      alloc_owned [OF _ assms(3)] alloc_good [OF _ assms(3)] by auto
  then show ?thesis by (intro owned_apart [of s2]) auto
qed

end

lemma free_not_live: "p \<in> free_pages k s \<Longrightarrow> p \<notin> live s"
  by (simp add: free_pages_def live_def)

lemma pmem_frame_source: "frame_source (pmem_alloc k) pmem_inv live"
proof
  fix s p s' assume "pmem_inv s" "pmem_alloc k s = Some (p, s')"
  then have post: "alloc_post k s p s'" using pmem_alloc_post [of s k] by auto
  then show "pmem_inv s'" "p \<notin> live s" "live s' = insert p (live s)" "mem s' = write_bytes (mem s) p 0 PGSIZE"
    by (auto simp: alloc_post_def dest: free_not_live)
next
  fix s p assume "pmem_inv s" "p \<in> live s"
  then show "p mod PGSIZE = 0 \<and> 0 < p \<and> p + PGSIZE \<le> 2 ^ 56"
    using live_page [of s p] by auto
next
  fix s p m assume "pmem_inv s" "p \<in> live s" "\<And>x. x < p \<or> p + PGSIZE \<le> x \<Longrightarrow> m x = mem s x"
  then show "pmem_inv (s\<lparr>mem := m\<rparr>)" by (rule pmem_inv_set_mem)
qed simp

text \<open>A source that also says how many frames are left: while there is one, an allocation succeeds.\<close>

locale bounded_frame_source = frame_source +
  fixes avail :: "pmem \<Rightarrow> nat"
  assumes alloc_succeeds: "good s \<Longrightarrow> 0 < avail s \<Longrightarrow> alloc s \<noteq> None"
    and alloc_avail: "good s \<Longrightarrow> alloc s = Some (p, s') \<Longrightarrow> avail s = Suc (avail s')"
    and write_avail: "avail (s\<lparr>mem := m\<rparr>) = avail s"

lemma finite_free_pages: "pmem_inv s \<Longrightarrow> finite (free_pages k s)"
  by (metis List.finite_set pmem_inv_def region_inv_set)

lemma pmem_bounded_frame_source: "bounded_frame_source (pmem_alloc k) pmem_inv live (\<lambda>s. card (free_pages k s))"
proof (intro bounded_frame_source.intro bounded_frame_source_axioms.intro pmem_frame_source)
  fix s assume "pmem_inv s" "0 < card (free_pages k s)"
  then show "pmem_alloc k s \<noteq> None" using pmem_alloc_post [of s k] by auto
next
  fix s p s' assume inv: "pmem_inv s" and al: "pmem_alloc k s = Some (p, s')"
  then have post: "alloc_post k s p s'" using pmem_alloc_post [of s k] by auto
  then have "free_pages k s = insert p (free_pages k s')" "p \<notin> free_pages k s'"
    using inv_idx_eq [OF inv] by (auto simp: alloc_post_def free_pages_def has_page_def)
  then show "card (free_pages k s) = Suc (card (free_pages k s'))"
    using finite_free_pages [of s' k] post by (simp add: alloc_post_def)
qed (simp add: free_pages_def has_page_def)

interpretation kernel_frames: bounded_frame_source "pmem_alloc True" pmem_inv live "\<lambda>s. card (free_pages True s)"
  by (rule pmem_bounded_frame_source)

interpretation user_frames: bounded_frame_source "pmem_alloc False" pmem_inv live "\<lambda>s. card (free_pages False s)"
  by (rule pmem_bounded_frame_source)

end
