(* ===== verification/Pagetable.thy ===== *)
theory Pagetable
  imports Pmem "HOL-Library.Sublist"
begin

text \<open>
  Sv39 page tables (\<^verbatim>\<open>mem/pagetable.rs\<close>). A table is a page of 512 entries in physical memory, so every
  operation takes the address of the root table and the memory. \<open>walk\<close> and \<open>map\<close> call the page
  allocator: they are written over an allocation function (\<open>walk_with\<close>, \<open>map_with\<close>), their lemmas are
  proved once from the contract \<open>frame_source\<close>, and the kernel's own operations are the instances at
  \<^const>\<open>pmem_alloc\<close>.

  The abstraction \<open>pt_get\<close> reads the last-level entry of an address. Under the invariant \<open>pt_wf\<close> (the
  tables reached from the root are distinct live pages and no upper entry is a leaf), \<open>map\<close> and
  \<open>unmap\<close> are exact updates of it on the pages of the range.
\<close>

section \<open>Operations\<close>

datatype uvm_error = OutOfRange | NoMem | MapFailed

text \<open>The address of entry \<open>idx\<close> of the table at \<open>table\<close>.\<close>

definition entry_addr :: "usize \<Rightarrow> usize \<Rightarrow> usize" where
  "entry_addr table idx = table + 8 * idx"

fun walk_levels :: "(pmem \<Rightarrow> (usize \<times> pmem) option) \<Rightarrow> usize \<Rightarrow> bool \<Rightarrow> nat list \<Rightarrow> usize \<Rightarrow> pmem \<Rightarrow> (usize option \<times> pmem) option" where
  "walk_levels alloc_page va alloc [] table s = Some (Some (entry_addr table (vpn va ! 0)), s)"
| "walk_levels alloc_page va alloc (level # levels) table s = (
     let idx = vpn va ! level;
         pte_ref = entry_addr table idx;
         pte = read_u64 (mem s) pte_ref
     in if is_valid pte then
          (if is_leaf pte then Some (None, s)
           else let next_pa = pte_to_pa pte in
             if next_pa = 0 then Some (None, s)
             else walk_levels alloc_page va alloc levels next_pa s)
        else if \<not> alloc then Some (None, s)
        else do {
          (new_table, s) \<leftarrow> alloc_page s;
          (if new_table = 0 then Some (None, s)
           else do {
             let m = write_bytes (mem s) new_table 0 PGSIZE;
             let m = write_u64 m pte_ref (pa_to_pte new_table PTE_V);
             walk_levels alloc_page va alloc levels new_table (s\<lparr>mem := m\<rparr>)
           })
        })"

definition walk_with :: "(pmem \<Rightarrow> (usize \<times> pmem) option) \<Rightarrow> usize \<Rightarrow> usize \<Rightarrow> bool \<Rightarrow> pmem \<Rightarrow> (usize option \<times> pmem) option" where
  "walk_with alloc_page root va alloc s =
     (if VA_MAX \<le> va then Some (None, s) else walk_levels alloc_page va alloc [2, 1] root s)"

definition walk :: "usize \<Rightarrow> usize \<Rightarrow> bool \<Rightarrow> pmem \<Rightarrow> (usize option \<times> pmem) option" where
  "walk = walk_with (pmem_alloc True)"

fun lookup_levels :: "ram \<Rightarrow> usize \<Rightarrow> nat list \<Rightarrow> usize \<Rightarrow> usize option" where
  "lookup_levels m va [] table = Some (entry_addr table (vpn va ! 0))"
| "lookup_levels m va (level # levels) table = (
     let idx = vpn va ! level;
         pte = read_u64 m (entry_addr table idx)
     in if is_valid pte then
          (if is_leaf pte then None
           else let next_pa = pte_to_pa pte in
             if next_pa = 0 then None else lookup_levels m va levels next_pa)
        else None)"

definition pt_lookup :: "ram \<Rightarrow> usize \<Rightarrow> usize \<Rightarrow> usize option" where
  "pt_lookup m root va = (if VA_MAX \<le> va then None else lookup_levels m va [2, 1] root)"

function map_loop :: "(pmem \<Rightarrow> (usize \<times> pmem) option) \<Rightarrow> usize \<Rightarrow> nat \<Rightarrow> usize \<Rightarrow> usize \<Rightarrow> usize \<Rightarrow> pmem \<Rightarrow> (bool \<times> pmem) option" where
  "map_loop alloc_page root flags last_pg a pa_cur s =
     (if last_pg < a then Some (True, s)
      else do {
        (r, s) \<leftarrow> walk_with alloc_page root a True s;
        (case r of
           None \<Rightarrow> Some (False, s)
         | Some pte \<Rightarrow>
             let cur = read_u64 (mem s) pte in
             if is_valid cur \<and> (\<not> is_leaf cur \<or> pte_to_pa cur \<noteq> pa_cur) then Some (False, s)
             else let s = s\<lparr>mem := write_u64 (mem s) pte (pa_to_pte pa_cur (flags OR PTE_V))\<rparr> in
               if a = last_pg then Some (True, s)
               else do {
                 a' \<leftarrow> uadd a PGSIZE;
                 pa' \<leftarrow> uadd pa_cur PGSIZE;
                 map_loop alloc_page root flags last_pg a' pa' s
               })
      })"
  by pat_completeness auto
termination
  by (relation "measure (\<lambda>(_, _, _, last_pg, a, _, _). last_pg - a)") (auto simp: cadd_Some_iff PGSIZE_def)

declare map_loop.simps [simp del]

definition map_with :: "(pmem \<Rightarrow> (usize \<times> pmem) option) \<Rightarrow> usize \<Rightarrow> usize \<Rightarrow> usize \<Rightarrow> usize \<Rightarrow> nat \<Rightarrow> pmem \<Rightarrow> (bool \<times> pmem) option" where
  "map_with alloc_page root va pa len flags s =
     (if len = 0 then Some (False, s)
      else do {
        let start = align_down va;
        t \<leftarrow> uadd va len;
        end \<leftarrow> align_up t;
        let pa_cur = align_down pa;
        last_pg \<leftarrow> csub end PGSIZE;
        map_loop alloc_page root flags last_pg start pa_cur s
      })"

definition pt_map :: "usize \<Rightarrow> usize \<Rightarrow> usize \<Rightarrow> usize \<Rightarrow> nat \<Rightarrow> pmem \<Rightarrow> (bool \<times> pmem) option" where
  "pt_map = map_with (pmem_alloc True)"

function unmap_loop :: "usize \<Rightarrow> bool \<Rightarrow> usize \<Rightarrow> usize \<Rightarrow> pmem \<Rightarrow> (bool \<times> pmem) option" where
  "unmap_loop root free last_pg a s =
     (if last_pg < a then Some (True, s)
      else case pt_lookup (mem s) root a of
             None \<Rightarrow> Some (False, s)
           | Some pte \<Rightarrow>
               let old = read_u64 (mem s) pte in
               if \<not> is_valid old \<or> \<not> is_leaf old then Some (False, s)
               else do {
                 let pa = pte_to_pa old;
                 s \<leftarrow> (if free
                       then do {
                         r \<leftarrow> get_region pa s;
                         (case r of Some for_kernel \<Rightarrow> pmem_free pa for_kernel s | None \<Rightarrow> None)
                       }
                       else Some s);
                 let s = s\<lparr>mem := write_u64 (mem s) pte 0\<rparr>;
                 (if a = last_pg then Some (True, s)
                  else do {
                    a' \<leftarrow> uadd a PGSIZE;
                    unmap_loop root free last_pg a' s
                  })
               })"
  by pat_completeness auto
termination
  by (relation "measure (\<lambda>(_, _, last_pg, a, _). last_pg - a)") (auto simp: cadd_Some_iff PGSIZE_def)

declare unmap_loop.simps [simp del]

definition pt_unmap :: "usize \<Rightarrow> usize \<Rightarrow> usize \<Rightarrow> bool \<Rightarrow> pmem \<Rightarrow> (bool \<times> pmem) option" where
  "pt_unmap root va len free s =
     (if len = 0 then Some (False, s)
      else do {
        let start = align_down va;
        t \<leftarrow> uadd va len;
        end \<leftarrow> align_up t;
        last_pg \<leftarrow> csub end PGSIZE;
        unmap_loop root free last_pg start s
      })"

text \<open>
  \<open>destroy\<close> recurses through the tables without counting levels; the fuel is the number of levels it
  may still descend. A kernel table has three levels, so two descents from the root are enough;
  \<open>None\<close> is a panic or a descent below the fuel.
\<close>

fun destroy_level :: "nat \<Rightarrow> usize \<Rightarrow> nat list \<Rightarrow> pmem \<Rightarrow> pmem option" where
  "destroy_level fuel table_pa [] s = Some s"
| "destroy_level fuel table_pa (i # is) s = do {
     let pte = read_u64 (mem s) (entry_addr table_pa i);
     s \<leftarrow> (if \<not> is_valid pte then Some s
           else if is_leaf pte then do {
             let pa = pte_to_pa pte;
             r \<leftarrow> get_region pa s;
             s \<leftarrow> (if r = Some False then pmem_free pa False s else Some s);
             Some (s\<lparr>mem := write_u64 (mem s) (entry_addr table_pa i) 0\<rparr>)
           }
           else if is_table pte then do {
             let child_pa = pte_to_pa pte;
             s \<leftarrow> (if child_pa \<noteq> 0
                   then (case fuel of
                           0 \<Rightarrow> None
                         | Suc n \<Rightarrow> do {
                             s \<leftarrow> destroy_level n child_pa [0..<PGNUM] s;
                             pmem_free child_pa True s
                           })
                   else Some s);
             Some (s\<lparr>mem := write_u64 (mem s) (entry_addr table_pa i) 0\<rparr>)
           }
           else Some s);
     destroy_level fuel table_pa is s
   }"

definition pt_destroy :: "usize \<Rightarrow> pmem \<Rightarrow> pmem option" where
  "pt_destroy root s = destroy_level 2 root [0..<PGNUM] s"

text \<open>
  \<open>copy\<close>: three nested loops over the entries, left early with an error. \<open>copy_frame\<close> is the sequence
  allocate, copy, map that the user-page and the kernel-data branches share.
\<close>

definition sv39_va :: "usize \<Rightarrow> usize \<Rightarrow> usize \<Rightarrow> usize" where
  "sv39_va i j k = (
     let va_raw = shl i 30 OR shl j 21 OR shl k 12;
         sign = drop_bit 38 va_raw AND 1
     in if sign = 1 then va_raw OR shl (cnot 64 0) 39 else va_raw AND (shl 1 39 - 1))"

definition copy_frame :: "bool \<Rightarrow> usize \<Rightarrow> usize \<Rightarrow> usize \<Rightarrow> nat \<Rightarrow> pmem \<Rightarrow> ((uvm_error + unit) \<times> pmem) option" where
  "copy_frame for_kernel dst_root va pa flags s = do {
     (new_pa, s) \<leftarrow> pmem_alloc for_kernel s;
     (if new_pa = 0 then Some (Inl NoMem, s)
      else do {
        let s = s\<lparr>mem := store (mem s) new_pa (load (mem s) pa PGSIZE)\<rparr>;
        (ok, s) \<leftarrow> pt_map dst_root va new_pa PGSIZE flags s;
        Some (if ok then Inr () else Inl MapFailed, s)
      })
   }"

definition copy_entry :: "usize \<Rightarrow> usize \<Rightarrow> nat \<Rightarrow> pmem \<Rightarrow> ((uvm_error + unit) \<times> pmem) option" where
  "copy_entry dst_root va pte0 s = (
     let pa = pte_to_pa pte0;
         flags = get_flags pte0
     in if flags AND PTE_U \<noteq> 0 then do {
          r \<leftarrow> get_region pa s;
          (case r of
             Some for_kernel \<Rightarrow> if \<not> for_kernel then copy_frame False dst_root va pa flags s else Some (Inr (), s)
           | None \<Rightarrow> Some (Inr (), s))
        }
        else if flags AND PTE_X \<noteq> 0 then do {
          (ok, s) \<leftarrow> pt_map dst_root va pa PGSIZE flags s;
          Some (if ok then Inr () else Inl MapFailed, s)
        }
        else do {
          r \<leftarrow> get_region pa s;
          (case r of
             Some for_kernel \<Rightarrow> if for_kernel then copy_frame True dst_root va pa flags s else Some (Inr (), s)
           | None \<Rightarrow> Some (Inr (), s))
        })"

fun copy_l0 :: "usize \<Rightarrow> usize \<Rightarrow> usize \<Rightarrow> usize \<Rightarrow> nat list \<Rightarrow> pmem \<Rightarrow> ((uvm_error + unit) \<times> pmem) option" where
  "copy_l0 dst_root l0 i j [] s = Some (Inr (), s)"
| "copy_l0 dst_root l0 i j (k # ks) s = (
     let pte0 = read_u64 (mem s) (entry_addr l0 k) in
     if \<not> is_valid pte0 \<or> \<not> is_leaf pte0 then copy_l0 dst_root l0 i j ks s
     else do {
       (r, s) \<leftarrow> copy_entry dst_root (sv39_va i j k) pte0 s;
       (case r of Inl e \<Rightarrow> Some (Inl e, s) | Inr _ \<Rightarrow> copy_l0 dst_root l0 i j ks s)
     })"

fun copy_l1 :: "usize \<Rightarrow> usize \<Rightarrow> usize \<Rightarrow> nat list \<Rightarrow> pmem \<Rightarrow> ((uvm_error + unit) \<times> pmem) option" where
  "copy_l1 dst_root l1 i [] s = Some (Inr (), s)"
| "copy_l1 dst_root l1 i (j # js) s = (
     let pte1 = read_u64 (mem s) (entry_addr l1 j);
         l0_pa = pte_to_pa pte1
     in if \<not> is_valid pte1 \<or> \<not> is_table pte1 \<or> l0_pa = 0 then copy_l1 dst_root l1 i js s
     else do {
       (r, s) \<leftarrow> copy_l0 dst_root l0_pa i j [0..<PGNUM] s;
       (case r of Inl e \<Rightarrow> Some (Inl e, s) | Inr _ \<Rightarrow> copy_l1 dst_root l1 i js s)
     })"

fun copy_l2 :: "usize \<Rightarrow> usize \<Rightarrow> nat list \<Rightarrow> pmem \<Rightarrow> ((uvm_error + unit) \<times> pmem) option" where
  "copy_l2 dst_root l2 [] s = Some (Inr (), s)"
| "copy_l2 dst_root l2 (i # is) s = (
     let pte2 = read_u64 (mem s) (entry_addr l2 i);
         l1_pa = pte_to_pa pte2
     in if \<not> is_valid pte2 \<or> \<not> is_table pte2 \<or> l1_pa = 0 then copy_l2 dst_root l2 is s
     else do {
       (r, s) \<leftarrow> copy_l1 dst_root l1_pa i [0..<PGNUM] s;
       (case r of Inl e \<Rightarrow> Some (Inl e, s) | Inr _ \<Rightarrow> copy_l2 dst_root l2 is s)
     })"

definition pt_copy :: "usize \<Rightarrow> pmem \<Rightarrow> ((uvm_error + usize) \<times> pmem) option" where
  "pt_copy root s = do {
     (dst_root, s) \<leftarrow> pmem_alloc True s;
     (if dst_root = 0 then Some (Inl NoMem, s)
      else do {
        let s = s\<lparr>mem := write_bytes (mem s) dst_root 0 PGSIZE\<rparr>;
        (r, s) \<leftarrow> copy_l2 dst_root root [0..<PGNUM] s;
        Some (case r of Inl e \<Rightarrow> Inl e | Inr _ \<Rightarrow> Inr dst_root, s)
      })
   }"

section \<open>Tables in memory\<close>

definition child :: "ram \<Rightarrow> usize \<Rightarrow> usize option" where
  "child m a = (let pte = read_u64 m a in
     if is_valid pte \<and> \<not> is_leaf pte \<and> pte_to_pa pte \<noteq> 0 then Some (pte_to_pa pte) else None)"

text \<open>The table reached from \<open>t\<close> along a path of indices.\<close>

fun table_at :: "ram \<Rightarrow> usize \<Rightarrow> usize list \<Rightarrow> usize option" where
  "table_at m t [] = Some t"
| "table_at m t (i # is) = (case child m (entry_addr t i) of None \<Rightarrow> None | Some t' \<Rightarrow> table_at m t' is)"

definition paths :: "nat \<Rightarrow> usize list set" where
  "paths n = {p. length p \<le> n \<and> (\<forall>i \<in> set p. i < 512)}"

text \<open>The last-level entry of an address, 0 when a table on the way is missing.\<close>

definition pt_get :: "ram \<Rightarrow> usize \<Rightarrow> usize \<Rightarrow> nat" where
  "pt_get m root va = (case table_at m root [vpn va ! 2, vpn va ! 1] of
     None \<Rightarrow> 0 | Some t \<Rightarrow> read_u64 m (entry_addr t (vpn va ! 0)))"

definition pt_tables :: "ram \<Rightarrow> usize \<Rightarrow> usize set" where
  "pt_tables m root = {t. \<exists>p \<in> paths 2. table_at m root p = Some t}"

definition pt_wf :: "usize set \<Rightarrow> ram \<Rightarrow> usize \<Rightarrow> bool" where
  "pt_wf own m root \<longleftrightarrow>
     pt_tables m root \<subseteq> own \<and>
     (\<forall>p \<in> paths 2. \<forall>q \<in> paths 2. table_at m root p \<noteq> None \<longrightarrow> table_at m root p = table_at m root q \<longrightarrow> p = q) \<and>
     (\<forall>p \<in> paths 1. \<forall>i < 512. \<forall>t. table_at m root p = Some t \<longrightarrow>
        is_valid (read_u64 m (entry_addr t i)) \<longrightarrow> child m (entry_addr t i) \<noteq> None)"

lemma table_at_snoc:
  "table_at m t (p @ [i]) = (case table_at m t p of None \<Rightarrow> None | Some t' \<Rightarrow> child m (entry_addr t' i))"
  by (induction p arbitrary: t) (auto split: option.splits)

lemma table_at_append:
  "table_at m t (p @ q) = (case table_at m t p of None \<Rightarrow> None | Some t' \<Rightarrow> table_at m t' q)"
  by (induction p arbitrary: t) (auto split: option.splits)

lemma vpn_bound: "i < 3 \<Longrightarrow> vpn va ! i < 512"
  by (auto simp: vpn_eq less_Suc_eq numeral_3_eq_3)

lemma vpn_path: "[vpn va ! 2, vpn va ! 1] \<in> paths 2" "[vpn va ! 2] \<in> paths 2"
  "[vpn va ! 2] \<in> paths 1" "[] \<in> paths 1" "[] \<in> paths 2"
  by (auto simp: paths_def intro: vpn_bound)

lemma paths_snoc: "p @ [i] \<in> paths (Suc n) \<longleftrightarrow> p \<in> paths n \<and> i < 512"
  by (auto simp: paths_def)

lemma path_prefix: "r \<in> paths n \<Longrightarrow> p @ q = r \<Longrightarrow> p \<in> paths n"
  by (auto simp: paths_def)

lemma lookup_levels_table_at:
  "lookup_levels m va ls t = map_option (\<lambda>t. entry_addr t (vpn va ! 0)) (table_at m t (map (\<lambda>l. vpn va ! l) ls))"
  by (induction ls arbitrary: t) (auto simp: child_def Let_def)

lemma pt_lookup_eq:
  "pt_lookup m root va = (if VA_MAX \<le> va then None
     else map_option (\<lambda>t. entry_addr t (vpn va ! 0)) (table_at m root [vpn va ! 2, vpn va ! 1]))"
  by (simp add: pt_lookup_def lookup_levels_table_at del: lookup_levels.simps table_at.simps)

lemma walk_levels_no_alloc:
  "walk_levels al va False ls t s = Some (lookup_levels (mem s) va ls t, s)"
  by (induction ls arbitrary: t) (auto simp: Let_def)

lemma entry_in_page: "i < 512 \<Longrightarrow> t \<le> entry_addr t i \<and> entry_addr t i + 8 \<le> t + PGSIZE"
  by (auto simp: entry_addr_def PGSIZE_def)

lemma entry_apart:
  assumes "t mod PGSIZE = 0" "t' mod PGSIZE = 0" "i < 512" "j < 512" "t' \<noteq> t \<or> j \<noteq> i"
  shows "entry_addr t' j + 8 \<le> entry_addr t i \<or> entry_addr t i + 8 \<le> entry_addr t' j"
proof (cases "t' = t")
  case True
  then show ?thesis using assms(5) by (auto simp: entry_addr_def)
next
  case False
  then show ?thesis using pages_apart [OF assms(1,2)] entry_in_page [OF assms(3), of t] entry_in_page [OF assms(4), of t']
    by fastforce
qed

lemma read_other_entry:
  "t mod PGSIZE = 0 \<Longrightarrow> t' mod PGSIZE = 0 \<Longrightarrow> i < 512 \<Longrightarrow> j < 512 \<Longrightarrow> t' \<noteq> t \<or> j \<noteq> i \<Longrightarrow>
    read_u64 (write_u64 m (entry_addr t i) v) (entry_addr t' j) = read_u64 m (entry_addr t' j)"
  using entry_apart [of t t' i j] by (intro read_write_u64_disjoint) auto

lemma write_u64_outside: "x < a \<or> a + 8 \<le> x \<Longrightarrow> write_u64 m a v x = m x"
  by (auto simp: write_u64_def)

lemma write_entry_outside:
  "i < 512 \<Longrightarrow> x < t \<or> t + PGSIZE \<le> x \<Longrightarrow> write_u64 m (entry_addr t i) v x = m x"
  using entry_in_page [of i t] by (intro write_u64_outside) auto

lemma table_owned: "pt_wf own m root \<Longrightarrow> p \<in> paths 2 \<Longrightarrow> table_at m root p = Some t \<Longrightarrow> t \<in> own"
  by (auto simp: pt_wf_def pt_tables_def)

lemma table_inj:
  "pt_wf own m root \<Longrightarrow> p \<in> paths 2 \<Longrightarrow> q \<in> paths 2 \<Longrightarrow> table_at m root p = Some t \<Longrightarrow>
    table_at m root q = Some t \<Longrightarrow> p = q"
  by (auto simp: pt_wf_def)

lemma table_child:
  "pt_wf own m root \<Longrightarrow> p \<in> paths 1 \<Longrightarrow> i < 512 \<Longrightarrow> table_at m root p = Some t \<Longrightarrow>
    is_valid (read_u64 m (entry_addr t i)) \<Longrightarrow> child m (entry_addr t i) \<noteq> None"
  by (auto simp: pt_wf_def)

lemma pt_wfI:
  assumes "\<And>p t. p \<in> paths 2 \<Longrightarrow> table_at m root p = Some t \<Longrightarrow> t \<in> own"
    and "\<And>p q t. p \<in> paths 2 \<Longrightarrow> q \<in> paths 2 \<Longrightarrow> table_at m root p = Some t \<Longrightarrow> table_at m root q = Some t \<Longrightarrow> p = q"
    and "\<And>p i t. p \<in> paths 1 \<Longrightarrow> i < 512 \<Longrightarrow> table_at m root p = Some t \<Longrightarrow>
      is_valid (read_u64 m (entry_addr t i)) \<Longrightarrow> child m (entry_addr t i) \<noteq> None"
  shows "pt_wf own m root"
  unfolding pt_wf_def pt_tables_def using assms by fastforce

lemma paths_mono: "p \<in> paths 1 \<Longrightarrow> p \<in> paths 2"
  by (auto simp: paths_def)

lemma paths_butlast: "q @ [j] \<in> paths 2 \<Longrightarrow> q \<in> paths 1 \<and> q \<in> paths 2 \<and> j < 512"
  by (auto simp: paths_def)

text \<open>Two memories that agree on a set of pages; the tables do not change when the pages they occupy do not.\<close>

definition agree_on :: "usize set \<Rightarrow> ram \<Rightarrow> ram \<Rightarrow> bool" where
  "agree_on T m m' \<longleftrightarrow> (\<forall>t \<in> T. \<forall>x. t \<le> x \<and> x < t + PGSIZE \<longrightarrow> m' x = m x)"

lemma agree_onI: "(\<And>t x. t \<in> T \<Longrightarrow> t \<le> x \<Longrightarrow> x < t + PGSIZE \<Longrightarrow> m' x = m x) \<Longrightarrow> agree_on T m m'"
  by (simp add: agree_on_def)

lemma agree_onD: "agree_on T m m' \<Longrightarrow> t \<in> T \<Longrightarrow> t \<le> x \<Longrightarrow> x < t + PGSIZE \<Longrightarrow> m' x = m x"
  by (simp add: agree_on_def)

lemma agree_on_mono: "agree_on T m m' \<Longrightarrow> T' \<subseteq> T \<Longrightarrow> agree_on T' m m'"
  by (auto simp: agree_on_def)

lemma agree_on_trans: "agree_on T m m1 \<Longrightarrow> agree_on T m1 m2 \<Longrightarrow> agree_on T m m2"
  by (simp add: agree_on_def)

lemma table_at_cong:
  assumes wf: "pt_wf own m root"
    and same: "agree_on (pt_tables m root) m m'"
    and q: "q \<in> paths 2"
  shows "table_at m' root q = table_at m root q"
  using q
proof (induction q rule: rev_induct)
  case (snoc j q)
  note q = paths_butlast [OF snoc.prems]
  have "child m' (entry_addr t j) = child m (entry_addr t j)" if t: "table_at m root q = Some t" for t
  proof -
    have "t \<in> pt_tables m root" using t q by (auto simp: pt_tables_def)
    then have "read_u64 m' (entry_addr t j) = read_u64 m (entry_addr t j)"
      using entry_in_page [of j t] q by (intro read_u64_cong agree_onD [OF same]) auto
    then show ?thesis by (simp add: child_def)
  qed
  then show ?case using snoc.IH q by (auto simp: table_at_snoc split: option.splits)
qed simp

lemma read_table_cong:
  assumes "t \<in> pt_tables m root" "i < 512"
    and same: "agree_on (pt_tables m root) m m'"
  shows "read_u64 m' (entry_addr t i) = read_u64 m (entry_addr t i)"
  using entry_in_page [of i t] assms(1,2) by (intro read_u64_cong agree_onD [OF same]) auto

lemma pt_cong:
  assumes wf: "pt_wf own m root"
    and same: "agree_on (pt_tables m root) m m'"
  shows "pt_wf own m' root" "pt_get m' root va = pt_get m root va" "pt_tables m' root = pt_tables m root"
proof -
  have ta: "table_at m' root q = table_at m root q" if "q \<in> paths 2" for q
    by (rule table_at_cong [OF wf same that])
  show tabs: "pt_tables m' root = pt_tables m root"
    by (simp add: pt_tables_def ta cong: bex_cong)
  have rd: "read_u64 m' (entry_addr t i) = read_u64 m (entry_addr t i)"
    if "p \<in> paths 2" "table_at m root p = Some t" "i < 512" for p t i
    using that same by (intro read_table_cong) (auto simp: pt_tables_def)
  then show "pt_get m' root va = pt_get m root va"
    using vpn_path(1) [of va] vpn_bound [of 0 va] by (auto simp: pt_get_def ta simp del: table_at.simps split: option.splits)
  have "child m' (entry_addr t i) = child m (entry_addr t i)"
    if "p \<in> paths 2" "table_at m root p = Some t" "i < 512" for p t i
    using rd [OF that] by (simp add: child_def)
  note ch = this
  show "pt_wf own m' root"
  proof (rule pt_wfI)
    fix p i t assume p: "p \<in> paths 1" "i < 512" "table_at m' root p = Some t" "is_valid (read_u64 m' (entry_addr t i))"
    then have "table_at m root p = Some t" using ta [OF paths_mono [OF p(1)]] by simp
    then show "child m' (entry_addr t i) \<noteq> None"
      using rd [OF paths_mono [OF p(1)] _ p(2)] ch [OF paths_mono [OF p(1)] _ p(2)] table_child [OF wf p(1,2)] p(4) by simp
  qed (use table_owned [OF wf] table_inj [OF wf] in \<open>simp_all add: ta\<close>)
qed

text \<open>Writing one entry of the table at path \<open>p\<close> only affects the paths through that entry.\<close>

lemma table_at_write:
  assumes wf: "pt_wf own m root" and al: "\<And>t. t \<in> own \<Longrightarrow> t mod PGSIZE = 0"
    and p: "p \<in> paths 2" "table_at m root p = Some t" "i < 512"
    and q: "q \<in> paths 2" "\<not> prefix (p @ [i]) q"
  shows "table_at (write_u64 m (entry_addr t i) v) root q = table_at m root q" (is "table_at ?m root q = _")
  using q
proof (induction q rule: rev_induct)
  case (snoc j q)
  note q = paths_butlast [OF snoc.prems(1)]
  have np: "\<not> prefix (p @ [i]) q" using snoc.prems(2) by auto
  have "child ?m (entry_addr t' j) = child m (entry_addr t' j)" if t': "table_at m root q = Some t'" for t'
  proof -
    have "t' \<noteq> t \<or> j \<noteq> i"
      using table_inj [OF wf p(1) _ p(2)] t' q snoc.prems(2) by auto
    then have "read_u64 ?m (entry_addr t' j) = read_u64 m (entry_addr t' j)"
      using al table_owned [OF wf] p t' q by (intro read_other_entry) auto
    then show ?thesis by (simp add: child_def)
  qed
  then show ?case using snoc.IH q np by (auto simp: table_at_snoc split: option.splits)
qed simp

lemma read_table_write:
  assumes wf: "pt_wf own m root" and al: "\<And>t. t \<in> own \<Longrightarrow> t mod PGSIZE = 0"
    and p: "p \<in> paths 2" "table_at m root p = Some t" "i < 512"
    and q: "q \<in> paths 2" "table_at m root q = Some t'" "j < 512" "q \<noteq> p \<or> j \<noteq> i"
  shows "read_u64 (write_u64 m (entry_addr t i) v) (entry_addr t' j) = read_u64 m (entry_addr t' j)"
  using al table_owned [OF wf] table_inj [OF wf p(1) q(1) p(2)] p q by (intro read_other_entry) auto

text \<open>Writing a last-level entry updates \<^const>\<open>pt_get\<close> at the pages of that entry and nothing else.\<close>

lemma write_leaf:
  assumes wf: "pt_wf own m root" and al: "\<And>t. t \<in> own \<Longrightarrow> t mod PGSIZE = 0"
    and t: "table_at m root [vpn va ! 2, vpn va ! 1] = Some t" and v: "v < 2 ^ 64"
    and m': "m' = write_u64 m (entry_addr t (vpn va ! 0)) v"
  shows "pt_wf own m' root" "pt_tables m' root = pt_tables m root"
    "pt_get m' root va' = (if vpn va' = vpn va then v else pt_get m root va')"
proof -
  let ?p = "[vpn va ! 2, vpn va ! 1]" and ?i = "vpn va ! 0"
  note p = vpn_path(1) [of va] t vpn_bound [of 0 va, simplified]
  have ta: "table_at m' root q = table_at m root q" if "q \<in> paths 2" for q
    unfolding m' using that by (intro table_at_write [OF wf al p]) (auto simp: paths_def prefix_def)
  show "pt_tables m' root = pt_tables m root"
    by (simp add: pt_tables_def ta cong: bex_cong)
  show "pt_wf own m' root"
  proof (rule pt_wfI)
    fix q j t' assume q: "q \<in> paths 1" "j < 512" "table_at m' root q = Some t'" "is_valid (read_u64 m' (entry_addr t' j))"
    have tq: "table_at m root q = Some t'" using ta [OF paths_mono [OF q(1)]] q(3) by simp
    have "q \<noteq> ?p" using q(1) by (auto simp: paths_def)
    then have "read_u64 m' (entry_addr t' j) = read_u64 m (entry_addr t' j)"
      unfolding m' by (intro read_table_write [OF wf al p paths_mono [OF q(1)] tq q(2)]) auto
    then show "child m' (entry_addr t' j) \<noteq> None"
      using table_child [OF wf q(1,2) tq] q(4) by (simp add: child_def)
  qed (use table_owned [OF wf] table_inj [OF wf] in \<open>simp_all add: ta\<close>)
  have veq: "vpn va' = vpn va \<longleftrightarrow> vpn va' ! 0 = ?i \<and> [vpn va' ! 2, vpn va' ! 1] = ?p"
    by (auto simp: vpn_eq)
  show "pt_get m' root va' = (if vpn va' = vpn va then v else pt_get m root va')"
  proof (cases "vpn va' = vpn va")
    case True
    then show ?thesis
      using ta [OF vpn_path(1)] t v by (simp add: pt_get_def m' del: table_at.simps)
  next
    case False
    have "read_u64 m' (entry_addr t' (vpn va' ! 0)) = read_u64 m (entry_addr t' (vpn va' ! 0))"
      if "table_at m root [vpn va' ! 2, vpn va' ! 1] = Some t'" for t'
      unfolding m' using False veq that
      by (intro read_table_write [OF wf al p vpn_path(1) that]) (auto simp: vpn_bound)
    then show ?thesis
      using False ta [OF vpn_path(1)] by (auto simp: pt_get_def simp del: table_at.simps split: option.splits)
  qed
qed

text \<open>Linking a fresh zeroed page below an invalid entry adds one empty table and maps nothing.\<close>

lemma child_link:
  assumes "n mod PGSIZE = 0" "0 < n" "n < 2 ^ 56"
  shows "child (write_u64 m a (pa_to_pte n PTE_V)) a = Some n"
proof -
  have "is_valid (pa_to_pte n PTE_V)" "\<not> is_leaf (pa_to_pte n PTE_V)"
    by (simp_all add: is_valid_pa_to_pte is_leaf_pa_to_pte PTE_V_def)
  then show ?thesis
    using assms pte_to_pa_pa_to_pte [OF assms(3), of PTE_V] pa_to_pte_bound [of n PTE_V] by (simp add: child_def)
qed

lemma link_table:
  assumes wf: "pt_wf own m root" and al: "\<And>t. t \<in> own \<Longrightarrow> t mod PGSIZE = 0"
    and p: "p \<in> paths 1" "table_at m root p = Some t" "i < 512"
    and inv: "\<not> is_valid (read_u64 m (entry_addr t i))"
    and n: "n \<notin> own" "n mod PGSIZE = 0" "0 < n" "n < 2 ^ 56" "\<And>x. n \<le> x \<Longrightarrow> x < n + PGSIZE \<Longrightarrow> m x = 0"
    and m': "m' = write_u64 m (entry_addr t i) (pa_to_pte n PTE_V)"
  shows "pt_wf (insert n own) m' root" "table_at m' root (p @ [i]) = Some n"
    "pt_tables m' root \<subseteq> insert n (pt_tables m root)" "pt_get m' root va = pt_get m root va"
proof -
  note p2 = paths_mono [OF p(1)]
  have tn: "t \<noteq> n" "t mod PGSIZE = 0" using table_owned [OF wf p2 p(2)] n(1) al by auto
  have ta: "table_at m' root q = table_at m root q" if "q \<in> paths 2" "\<not> prefix (p @ [i]) q" for q
    unfolding m' by (rule table_at_write [OF wf al p2 p(2,3) that])
  have tp: "table_at m' root p = Some t" using ta [OF p2] p(2) by simp
  show tpi: "table_at m' root (p @ [i]) = Some n"
    using tp child_link [OF n(2-4)] by (simp add: table_at_snoc m')
  have zero: "read_u64 m' (entry_addr n j) = 0" if "j < 512" for j
  proof -
    have "read_u64 m' (entry_addr n j) = read_u64 m (entry_addr n j)"
      unfolding m' using tn n(2) p(3) that by (intro read_other_entry) auto
    also have "\<dots> = 0"
      using entry_in_page [OF that, of n] by (intro read_u64_zero n(5)) auto
    finally show ?thesis .
  qed
  have below: "table_at m' root q = (if q = p @ [i] then Some n else None)"
    if q2: "q \<in> paths 2" and pre: "prefix (p @ [i]) q" for q
  proof -
    obtain r where q: "q = (p @ [i]) @ r" using pre by (auto simp: prefix_def)
    have "table_at m' root q = table_at m' n r" using table_at_append [of m' root "p @ [i]" r] tpi by (simp add: q)
    moreover have "table_at m' n r = None" if ne: "r \<noteq> []"
    proof -
      obtain j r' where r: "r = j # r'" using ne by (cases r) auto
      then have "j < 512" using q2 q by (auto simp: paths_def)
      then show ?thesis using zero by (simp add: r child_def is_valid_eq)
    qed
    ultimately show ?thesis using q by auto
  qed
  have old: "table_at m' root q = Some t' \<Longrightarrow> q \<noteq> p @ [i] \<Longrightarrow> table_at m root q = Some t' \<and> \<not> prefix (p @ [i]) q"
    if "q \<in> paths 2" for q t'
    using ta [OF that] below [OF that] by (cases "prefix (p @ [i]) q") auto
  have tq: "t' = n \<and> q = p @ [i] \<or> t' \<in> own \<and> table_at m root q = Some t' \<and> \<not> prefix (p @ [i]) q"
    if "q \<in> paths 2" "table_at m' root q = Some t'" for q t'
    using old [OF that] tpi that table_owned [OF wf that(1)] by (cases "q = p @ [i]") auto
  show "pt_wf (insert n own) m' root"
  proof (rule pt_wfI)
    fix q t' assume "q \<in> paths 2" "table_at m' root q = Some t'"
    then show "t' \<in> insert n own" using tq by auto
  next
    fix q r t' assume "q \<in> paths 2" "r \<in> paths 2" "table_at m' root q = Some t'" "table_at m' root r = Some t'"
    then show "q = r" using tq [of q t'] tq [of r t'] n(1) table_inj [OF wf] by auto
  next
    fix q j t' assume q: "q \<in> paths 1" "j < 512" "table_at m' root q = Some t'" "is_valid (read_u64 m' (entry_addr t' j))"
    note q2 = paths_mono [OF q(1)]
    have "t' \<noteq> n" using zero [OF q(2)] q(4) by (auto simp: is_valid_eq)
    then have t': "table_at m root q = Some t'" "t' \<in> own" using tq [OF q2 q(3)] by auto
    show "child m' (entry_addr t' j) \<noteq> None"
    proof (cases "q = p \<and> j = i")
      case True
      then show ?thesis using tpi tp q(3) by (simp add: table_at_snoc)
    next
      case False
      then have "read_u64 m' (entry_addr t' j) = read_u64 m (entry_addr t' j)"
        unfolding m' by (intro read_table_write [OF wf al p2 p(2,3) q2 t'(1) q(2)]) auto
      then show ?thesis
        using table_child [OF wf q(1,2) t'(1)] q(4) by (simp add: child_def)
    qed
  qed
  show "pt_tables m' root \<subseteq> insert n (pt_tables m root)"
    using tq by (fastforce simp: pt_tables_def)
  let ?q = "[vpn va ! 2, vpn va ! 1]"
  have np: "p \<noteq> ?q" using p(1) by (auto simp: paths_def)
  show "pt_get m' root va = pt_get m root va"
  proof (cases "prefix (p @ [i]) ?q")
    case True
    then obtain r where "?q = (p @ [i]) @ r" by (auto simp: prefix_def)
    moreover have "table_at m root (p @ [i]) = None" using p(2) inv by (simp add: table_at_snoc child_def)
    ultimately have "table_at m root ?q = None"
      using table_at_append [of m root "p @ [i]" r] by (simp del: table_at.simps)
    moreover have "pt_get m' root va = 0"
      using below [OF vpn_path(1) True] zero [OF vpn_bound, of 0 va]
      by (simp add: pt_get_def del: table_at.simps)
    ultimately show ?thesis by (simp add: pt_get_def)
  next
    case False
    have "read_u64 m' (entry_addr t' (vpn va ! 0)) = read_u64 m (entry_addr t' (vpn va ! 0))"
      if "table_at m root ?q = Some t'" for t'
      unfolding m' using np by (intro read_table_write [OF wf al p2 p(2,3) vpn_path(1) that]) (auto simp: vpn_bound)
    then show ?thesis
      using ta [OF vpn_path(1) False] by (auto simp: pt_get_def simp del: table_at.simps split: option.splits)
  qed
qed

section \<open>Operations over any frame source\<close>

text \<open>
  What every operation on the tables of \<open>root\<close> keeps: a good allocator, well-formed tables, the pages
  owned before; new tables are fresh pages, and an owned page that is no table is not written.
\<close>

definition pt_ext :: "(pmem \<Rightarrow> bool) \<Rightarrow> (pmem \<Rightarrow> usize set) \<Rightarrow> usize \<Rightarrow> pmem \<Rightarrow> pmem \<Rightarrow> bool" where
  "pt_ext good owned root s s' \<longleftrightarrow>
     good s' \<and> pt_wf (owned s') (mem s') root \<and> owned s \<subseteq> owned s' \<and>
     pt_tables (mem s') root \<subseteq> pt_tables (mem s) root \<union> (owned s' - owned s) \<and>
     agree_on (owned s - pt_tables (mem s) root) (mem s) (mem s')"

lemma pt_ext_refl: "good s \<Longrightarrow> pt_wf (owned s) (mem s) root \<Longrightarrow> pt_ext good owned root s s"
  by (simp add: pt_ext_def agree_on_def)

lemma pt_ext_trans:
  assumes 1: "pt_ext good owned root s s1" and 2: "pt_ext good owned root s1 s2"
  shows "pt_ext good owned root s s2"
proof -
  have "owned s - pt_tables (mem s) root \<subseteq> owned s1 - pt_tables (mem s1) root"
    using 1 unfolding pt_ext_def by auto
  then have "agree_on (owned s - pt_tables (mem s) root) (mem s) (mem s2)"
    using 1 2 agree_on_mono agree_on_trans unfolding pt_ext_def by blast
  moreover have "pt_tables (mem s2) root \<subseteq> pt_tables (mem s) root \<union> (owned s2 - owned s)" "owned s \<subseteq> owned s2"
    using 1 2 unfolding pt_ext_def by auto
  ultimately show ?thesis using 2 unfolding pt_ext_def by simp
qed

text \<open>A page may be mapped at \<open>a\<close> to \<open>pa\<close> when nothing is mapped there yet, or a leaf of the same page.\<close>

definition mappable :: "ram \<Rightarrow> usize \<Rightarrow> usize \<Rightarrow> usize \<Rightarrow> bool" where
  "mappable m root a pa \<longleftrightarrow> a < VA_MAX \<and>
     (is_valid (pt_get m root a) \<longrightarrow> is_leaf (pt_get m root a) \<and> pte_to_pa (pt_get m root a) = pa)"

text \<open>
  The effect of mapping the pages of \<open>[a, c)\<close> to \<open>pa, pa + PGSIZE, ...\<close>: the entries of the range are
  the new ones, all others are kept.
\<close>

definition mapped_range :: "ram \<Rightarrow> ram \<Rightarrow> usize \<Rightarrow> usize \<Rightarrow> usize \<Rightarrow> usize \<Rightarrow> nat \<Rightarrow> bool" where
  "mapped_range m m' root a c pa flags \<longleftrightarrow>
     (\<forall>va < VA_MAX. va mod PGSIZE = 0 \<longrightarrow> pt_get m' root va =
        (if a \<le> va \<and> va < c then pa_to_pte (pa + (va - a)) (flags OR PTE_V) else pt_get m root va))"

lemma vpn_eq_page:
  assumes "va < VA_MAX" "va' < VA_MAX" "va mod PGSIZE = 0" "va' mod PGSIZE = 0"
  shows "vpn va' = vpn va \<longleftrightarrow> va' = va"
proof -
  have "va < 2 ^ 39" "va' < 2 ^ 39" using assms(1,2) by (auto simp: VA_MAX_eq)
  then have "vpn va' = vpn va \<longleftrightarrow> va' div PGSIZE = va div PGSIZE" by (intro vpn_inj)
  also have "\<dots> \<longleftrightarrow> va' = va" using assms(3,4) by (metis div_mult_mod_eq)
  finally show ?thesis .
qed

lemma mapped_range_step:
  assumes "mapped_range m m1 root a (a + PGSIZE) pa flags"
    and "mapped_range m1 m' root (a + PGSIZE) c (pa + PGSIZE) flags" and "a + PGSIZE \<le> c"
    and "a mod PGSIZE = 0"
  shows "mapped_range m m' root a c pa flags"
  unfolding mapped_range_def
proof (intro allI impI)
  fix va assume va: "va < VA_MAX" "va mod PGSIZE = 0"
  consider "va < a" | "va = a" | "a + PGSIZE \<le> va" using page_less [OF assms(4) va(2)] by linarith
  then show "pt_get m' root va = (if a \<le> va \<and> va < c then pa_to_pte (pa + (va - a)) (flags OR PTE_V) else pt_get m root va)"
    using assms va unfolding mapped_range_def by cases (auto simp: PGSIZE_def)
qed

context frame_source
begin

lemma owned_aligned: "good s \<Longrightarrow> t \<in> owned s \<Longrightarrow> t mod PGSIZE = 0"
  using owned_page by blast

lemma write_table_good:
  assumes "good s" "pt_wf (owned s) (mem s) root" "p \<in> paths 2" "table_at (mem s) root p = Some t" "i < 512"
  shows "good (s\<lparr>mem := write_u64 (mem s) (entry_addr t i) v\<rparr>)"
  using assms(1) table_owned [OF assms(2-4)] write_entry_outside [OF assms(5)] by (rule write_good)

lemma write_bytes_idem: "write_bytes (write_bytes m p b n) p b n = write_bytes m p b n"
  by (auto simp: write_bytes_def)

lemma alloc_link:
  assumes g: "good s" and wf: "pt_wf (owned s) (mem s) root"
    and p: "p \<in> paths 1" "table_at (mem s) root p = Some t" "i < 512"
    and inv: "\<not> is_valid (read_u64 (mem s) (entry_addr t i))"
    and al: "alloc s = Some (n, s1)"
    and s2: "s2 = s1\<lparr>mem := write_u64 (write_bytes (mem s1) n 0 PGSIZE) (entry_addr t i) (pa_to_pte n PTE_V)\<rparr>"
  shows "n \<noteq> 0" "pt_ext good owned root s s2" "table_at (mem s2) root (p @ [i]) = Some n"
    "pt_get (mem s2) root va = pt_get (mem s) root va"
proof -
  let ?m = "write_bytes (mem s) n 0 PGSIZE"
  note g1 = alloc_good [OF g al] and o1 = alloc_owned [OF g al] and fr = alloc_fresh [OF g al] and m1 = alloc_mem [OF g al]
  have n: "n mod PGSIZE = 0" "0 < n" "n < 2 ^ 56" using owned_page [OF g1, of n] o1 by (auto simp: PGSIZE_def)
  show "n \<noteq> 0" using n by simp
  have out: "agree_on (owned s) (mem s) ?m"
  proof (rule agree_onI)
    fix q x assume q: "q \<in> owned s" "q \<le> x" "x < q + PGSIZE"
    then have "q \<noteq> n" using fr by auto
    then show "?m x = mem s x" using q owned_apart [OF g1, of q n] o1 by (auto simp: write_bytes_def)
  qed
  have same: "agree_on (pt_tables (mem s) root) (mem s) ?m"
    using out wf by (auto simp: pt_wf_def elim: agree_on_mono)
  have wf1: "pt_wf (owned s) ?m root" and get1: "pt_get ?m root va = pt_get (mem s) root va"
    and tab1: "pt_tables ?m root = pt_tables (mem s) root"
    using pt_cong [OF wf same] by blast+
  have t1: "table_at ?m root p = Some t"
    using table_at_cong [OF wf same paths_mono [OF p(1)]] p(2) by simp
  have "t \<in> pt_tables (mem s) root" using p(2) paths_mono [OF p(1)] by (auto simp: pt_tables_def)
  then have inv1: "\<not> is_valid (read_u64 ?m (entry_addr t i))"
    using inv read_table_cong [OF _ p(3) same] by simp
  have m2: "mem s2 = write_u64 ?m (entry_addr t i) (pa_to_pte n PTE_V)"
    by (simp add: s2 m1 write_bytes_idem)
  note link = link_table [OF wf1 owned_aligned [OF g] p(1) t1 p(3) inv1 fr n _ m2]
  have o2: "owned s2 = insert n (owned s)" by (simp add: s2 write_owned o1)
  have wf2: "pt_wf (insert n (owned s)) (mem s2) root" and "table_at (mem s2) root (p @ [i]) = Some n"
    and tabs2: "pt_tables (mem s2) root \<subseteq> insert n (pt_tables ?m root)"
    and "pt_get (mem s2) root va = pt_get ?m root va"
    using link by (auto simp: write_bytes_def)
  then show "table_at (mem s2) root (p @ [i]) = Some n" "pt_get (mem s2) root va = pt_get (mem s) root va"
    using get1 by simp_all
  have town: "t \<in> owned s" using table_owned [OF wf paths_mono [OF p(1)] p(2)] .
  have "good s2"
    unfolding s2 using o1 town write_entry_outside [OF p(3), of _ t]
    by (intro write_good [OF g1, of t]) (simp_all add: m1 write_bytes_idem)
  moreover have "agree_on (owned s - pt_tables (mem s) root) (mem s) (mem s2)"
  proof (rule agree_onI)
    fix q x assume q: "q \<in> owned s - pt_tables (mem s) root" "q \<le> x" "x < q + PGSIZE"
    have "q \<noteq> t" using q(1) p(2) paths_mono [OF p(1)] by (auto simp: pt_tables_def)
    then have "x < t \<or> t + PGSIZE \<le> x" using q owned_apart [OF g, of q t] town by auto
    then show "mem s2 x = mem s x" using agree_onD [OF out _ q(2,3)] q(1) by (simp add: m2 write_entry_outside [OF p(3)])
  qed
  ultimately show "pt_ext good owned root s s2"
    using wf2 tabs2 tab1 fr by (auto simp: pt_ext_def o2)
qed

lemma walk_levels_spec:
  assumes "good s" and "pt_wf (owned s) (mem s) root" and "table_at (mem s) root p = Some t"
    and "p @ map (\<lambda>l. vpn va ! l) ls = [vpn va ! 2, vpn va ! 1]"
    and "walk_levels alloc va True ls t s = Some (r, s')"
  shows "\<exists>t'. r = Some (entry_addr t' (vpn va ! 0)) \<and> table_at (mem s') root [vpn va ! 2, vpn va ! 1] = Some t' \<and>
    pt_ext good owned root s s' \<and> (\<forall>va'. pt_get (mem s') root va' = pt_get (mem s) root va')"
  using assms
proof (induction ls arbitrary: s p t)
  case Nil
  then show ?case by (auto simp del: table_at.simps intro: pt_ext_refl)
next
  case (Cons l ls)
  let ?i = "vpn va ! l"
  have pi: "(p @ [?i]) @ map (\<lambda>l. vpn va ! l) ls = [vpn va ! 2, vpn va ! 1]" using Cons.prems(4) by simp
  have "p @ [?i] \<in> paths 2" by (rule path_prefix [OF vpn_path(1) pi])
  then have p: "p \<in> paths 1" "?i < 512" using paths_butlast by blast+
  let ?pte = "read_u64 (mem s) (entry_addr t ?i)"
  show ?case
  proof (cases "is_valid ?pte")
    case True
    then obtain c where c: "child (mem s) (entry_addr t ?i) = Some c"
      using table_child [OF Cons.prems(2) p Cons.prems(3)] by auto
    then have "walk_levels alloc va True ls c s = Some (r, s')"
      using Cons.prems(5) by (auto simp: child_def Let_def split: if_splits)
    moreover have "table_at (mem s) root (p @ [?i]) = Some c" using Cons.prems(3) c by (simp add: table_at_snoc)
    ultimately show ?thesis using Cons.IH [OF Cons.prems(1,2) _ pi] by blast
  next
    case False
    then obtain n s1 where al: "alloc s = Some (n, s1)"
      using Cons.prems(5) by (auto simp: Let_def bind_Some_prod)
    define s2 where "s2 = s1\<lparr>mem := write_u64 (write_bytes (mem s1) n 0 PGSIZE) (entry_addr t ?i) (pa_to_pte n PTE_V)\<rparr>"
    note link = alloc_link [OF Cons.prems(1,2) p(1) Cons.prems(3) p(2) False al s2_def]
    have "walk_levels alloc va True ls n s2 = Some (r, s')"
      using Cons.prems(5) False al link(1) by (simp add: Let_def s2_def)
    moreover have "good s2" "pt_wf (owned s2) (mem s2) root" using link(2) by (auto simp: pt_ext_def)
    ultimately show ?thesis
      using Cons.IH [OF _ _ link(3) pi] link(2,4) pt_ext_trans by metis
  qed
qed

lemma walk_with_spec:
  assumes "good s" and "pt_wf (owned s) (mem s) root" and "walk_with alloc root va True s = Some (r, s')"
  shows "pt_ext good owned root s s' \<and> (\<forall>va'. pt_get (mem s') root va' = pt_get (mem s) root va') \<and>
    (if va < VA_MAX then \<exists>t. r = Some (entry_addr t (vpn va ! 0)) \<and>
       table_at (mem s') root [vpn va ! 2, vpn va ! 1] = Some t \<and> read_u64 (mem s') (entry_addr t (vpn va ! 0)) = pt_get (mem s) root va
     else r = None)"
proof (cases "va < VA_MAX")
  case True
  then have "walk_levels alloc va True [2, 1] root s = Some (r, s')"
    using assms(3) by (simp add: walk_with_def)
  then obtain t where t: "r = Some (entry_addr t (vpn va ! 0))" "table_at (mem s') root [vpn va ! 2, vpn va ! 1] = Some t"
    "pt_ext good owned root s s'" "\<forall>va'. pt_get (mem s') root va' = pt_get (mem s) root va'"
    using walk_levels_spec [OF assms(1,2), of "[]" root va "[2, 1]" r s'] by auto
  then have "read_u64 (mem s') (entry_addr t (vpn va ! 0)) = pt_get (mem s) root va"
    by (metis option.simps(5) pt_get_def)
  with t True show ?thesis by (simp del: table_at.simps)
next
  case False
  then show ?thesis using assms by (auto simp: walk_with_def intro: pt_ext_refl)
qed

text \<open>One iteration of \<open>map\<close>: walk to the entry and write it.\<close>

lemma write_leaf_ext:
  assumes g: "good s" and wf: "pt_wf (owned s) (mem s) root"
    and t: "table_at (mem s) root [vpn va ! 2, vpn va ! 1] = Some t" and v: "v < 2 ^ 64"
    and s': "s' = s\<lparr>mem := write_u64 (mem s) (entry_addr t (vpn va ! 0)) v\<rparr>"
  shows "pt_ext good owned root s s'"
    "pt_get (mem s') root va' = (if vpn va' = vpn va then v else pt_get (mem s) root va')"
proof -
  have m': "mem s' = write_u64 (mem s) (entry_addr t (vpn va ! 0)) v" and o': "owned s' = owned s"
    by (simp_all add: s' write_owned)
  note leaf = write_leaf [OF wf owned_aligned [OF g] t v m']
  show "pt_get (mem s') root va' = (if vpn va' = vpn va then v else pt_get (mem s) root va')"
    by (rule leaf(3))
  have b: "vpn va ! 0 < 512" by (rule vpn_bound) simp
  have town: "t \<in> owned s" by (rule table_owned [OF wf vpn_path(1) t])
  have "t \<in> pt_tables (mem s) root" using vpn_path(1) t unfolding pt_tables_def by blast
  then have "agree_on (owned s - pt_tables (mem s) root) (mem s) (mem s')"
    using owned_apart [OF g town] write_entry_outside [OF b] unfolding m'
    by (intro agree_onI) (metis DiffD1 DiffD2 add_le_cancel_right le_trans linorder_not_le)
  moreover have "good s'" unfolding s' by (rule write_table_good [OF g wf vpn_path(1) t b])
  ultimately show "pt_ext good owned root s s'" using leaf(1,2) by (simp add: pt_ext_def o')
qed

text \<open>One iteration of \<open>map\<close> on the page \<open>a\<close>.\<close>

lemma map_page:
  assumes g: "good s" and wf: "pt_wf (owned s) (mem s) root" and a: "a mod PGSIZE = 0"
    and w: "walk_with alloc root a True s = Some (r, s1)"
  shows "pt_ext good owned root s s1" "\<forall>va. pt_get (mem s1) root va = pt_get (mem s) root va"
    "mappable (mem s) root a pa \<longleftrightarrow> (\<exists>pte. r = Some pte \<and>
       (is_valid (read_u64 (mem s1) pte) \<longrightarrow> is_leaf (read_u64 (mem s1) pte) \<and> pte_to_pa (read_u64 (mem s1) pte) = pa))"
    "r = Some pte \<Longrightarrow> s2 = s1\<lparr>mem := write_u64 (mem s1) pte (pa_to_pte pa (flags OR PTE_V))\<rparr> \<Longrightarrow>
       pt_ext good owned root s s2 \<and> mapped_range (mem s) (mem s2) root a (a + PGSIZE) pa flags"
proof -
  note walk = walk_with_spec [OF g wf w]
  then show ext: "pt_ext good owned root s s1" and get: "\<forall>va. pt_get (mem s1) root va = pt_get (mem s) root va"
    by auto
  show "mappable (mem s) root a pa \<longleftrightarrow> (\<exists>pte. r = Some pte \<and>
       (is_valid (read_u64 (mem s1) pte) \<longrightarrow> is_leaf (read_u64 (mem s1) pte) \<and> pte_to_pa (read_u64 (mem s1) pte) = pa))"
    using walk by (auto simp: mappable_def split: if_splits)
  assume r: "r = Some pte" and s2: "s2 = s1\<lparr>mem := write_u64 (mem s1) pte (pa_to_pte pa (flags OR PTE_V))\<rparr>"
  from walk r obtain t where t: "pte = entry_addr t (vpn a ! 0)" "table_at (mem s1) root [vpn a ! 2, vpn a ! 1] = Some t"
    and lt: "a < VA_MAX" by (auto split: if_splits)
  have s1: "good s1" "pt_wf (owned s1) (mem s1) root" using ext by (auto simp: pt_ext_def)
  note leaf = write_leaf_ext [OF s1 t(2) pa_to_pte_bound s2 [unfolded t(1)]]
  have "mapped_range (mem s) (mem s2) root a (a + PGSIZE) pa flags"
    unfolding mapped_range_def
  proof (intro allI impI)
    fix va assume va: "va < VA_MAX" "va mod PGSIZE = 0"
    have "a \<le> va \<and> va < a + PGSIZE \<longleftrightarrow> va = a" using page_less [OF a va(2)] by (auto simp: PGSIZE_def)
    then show "pt_get (mem s2) root va =
        (if a \<le> va \<and> va < a + PGSIZE then pa_to_pte (pa + (va - a)) (flags OR PTE_V) else pt_get (mem s) root va)"
      using leaf(2) get vpn_eq_page [OF lt va(1) a va(2)] by auto
  qed
  then show "pt_ext good owned root s s2 \<and> mapped_range (mem s) (mem s2) root a (a + PGSIZE) pa flags"
    using pt_ext_trans [OF ext leaf(1)] by simp
qed

lemma map_loop_spec:
  assumes "good s" and "pt_wf (owned s) (mem s) root" and "a mod PGSIZE = 0" and "last_pg mod PGSIZE = 0" and "a \<le> last_pg"
    and "map_loop alloc root flags last_pg a pa s = Some (ok, s')"
  shows "\<exists>c. pt_ext good owned root s s' \<and> mapped_range (mem s) (mem s') root a c pa flags \<and> a \<le> c \<and> c mod PGSIZE = 0 \<and>
    (\<forall>b. a \<le> b \<longrightarrow> b < c \<longrightarrow> b mod PGSIZE = 0 \<longrightarrow> mappable (mem s) root b (pa + (b - a))) \<and>
    (if ok then c = last_pg + PGSIZE else c \<le> last_pg \<and> \<not> mappable (mem s) root c (pa + (c - a)))"
  using assms
proof (induction "last_pg - a" arbitrary: a pa s rule: less_induct)
  case less
  note g = less.prems(1) and wf = less.prems(2) and a = less.prems(3)
  obtain r s1 where w: "walk_with alloc root a True s = Some (r, s1)"
    using less.prems(5,6) by (auto simp: map_loop.simps [of alloc root flags last_pg a] bind_Some_prod)
  note page = map_page [OF g wf a w]
  show ?case
  proof (cases "mappable (mem s) root a pa")
    case False
    then have "ok = False" "s' = s1"
      using less.prems(5,6) w page(3) [of pa]
      by (auto simp: map_loop.simps [of alloc root flags last_pg a] Let_def split: option.splits if_splits)
    then show ?thesis
      using page(1,2) less.prems(5) a False by (intro exI [of _ a]) (auto simp: mapped_range_def)
  next
    case True
    then obtain pte where r: "r = Some pte" and ok: "is_valid (read_u64 (mem s1) pte) \<longrightarrow>
        is_leaf (read_u64 (mem s1) pte) \<and> pte_to_pa (read_u64 (mem s1) pte) = pa"
      using page(3) by blast
    define s2 where "s2 = s1\<lparr>mem := write_u64 (mem s1) pte (pa_to_pte pa (flags OR PTE_V))\<rparr>"
    have ext: "pt_ext good owned root s s2" and rng: "mapped_range (mem s) (mem s2) root a (a + PGSIZE) pa flags"
      using page(4) [OF r s2_def] by auto
    have loop: "(if a = last_pg then Some (True, s2) else Option.bind (uadd a PGSIZE) (\<lambda>a'.
        Option.bind (uadd pa PGSIZE) (\<lambda>pa'. map_loop alloc root flags last_pg a' pa' s2))) = Some (ok, s')"
      using less.prems(5,6) w r ok
      by (auto simp: map_loop.simps [of alloc root flags last_pg a] Let_def s2_def)
    show ?thesis
    proof (cases "a = last_pg")
      case True
      then have "ok" "s' = s2" using loop by auto
      moreover have "mappable (mem s) root b (pa + (b - a))" if "a \<le> b" "b < a + PGSIZE" "b mod PGSIZE = 0" for b
        using that page_less [OF a that(3)] \<open>mappable (mem s) root a pa\<close> by (cases "b = a") auto
      ultimately show ?thesis
        using ext rng True a by (intro exI [of _ "a + PGSIZE"]) simp
    next
      case False
      let ?a = "a + PGSIZE" and ?pa = "pa + PGSIZE"
      have rec: "map_loop alloc root flags last_pg ?a ?pa s2 = Some (ok, s')"
        using loop False by (auto simp: bind_Some_prod cadd_Some_iff)
      have le: "?a \<le> last_pg" using False less.prems(5) page_less [OF a less.prems(4)] by auto
      have s2: "good s2" "pt_wf (owned s2) (mem s2) root" using ext by (auto simp: pt_ext_def)
      have al: "?a mod PGSIZE = 0" using a by simp
      have dec: "last_pg - ?a < last_pg - a" using le by (auto simp: PGSIZE_def)
      obtain c where c: "pt_ext good owned root s2 s'" "mapped_range (mem s2) (mem s') root ?a c ?pa flags"
        "?a \<le> c" "c mod PGSIZE = 0"
        "\<forall>b. ?a \<le> b \<longrightarrow> b < c \<longrightarrow> b mod PGSIZE = 0 \<longrightarrow> mappable (mem s2) root b (?pa + (b - ?a))"
        "if ok then c = last_pg + PGSIZE else c \<le> last_pg \<and> \<not> mappable (mem s2) root c (?pa + (c - ?a))"
        using less.hyps [OF dec s2 al less.prems(4) le rec] by (elim exE conjE) (rule that)
      have mp: "mappable (mem s2) root b (?pa + (b - ?a)) = mappable (mem s) root b (pa + (b - a))"
        if "?a \<le> b" "b mod PGSIZE = 0" for b
        using that rng by (auto simp: mappable_def mapped_range_def)
      have "mappable (mem s) root b (pa + (b - a))" if "a \<le> b" "b < c" "b mod PGSIZE = 0" for b
        using that c(5) mp True page_less [OF a that(3)] by (cases "b = a") auto
      moreover have "mapped_range (mem s) (mem s') root a c pa flags"
        by (rule mapped_range_step [OF rng c(2,3) a])
      ultimately show ?thesis
        using pt_ext_trans [OF ext c(1)] c(3,4,6) mp [OF c(3,4)] by (intro exI [of _ c]) auto
    qed
  qed
qed

lemma map_with_spec:
  assumes g: "good s" and wf: "pt_wf (owned s) (mem s) root" and len: "0 < len"
    and e: "align_up (va + len) = Some e" and pa: "pa < 2 ^ 64"
    and m: "map_with alloc root va pa len flags s = Some (ok, s')"
  shows "\<exists>c. pt_ext good owned root s s' \<and> mapped_range (mem s) (mem s') root (align_down va) c (align_down pa) flags \<and>
    align_down va \<le> c \<and> c mod PGSIZE = 0 \<and>
    (\<forall>b. align_down va \<le> b \<longrightarrow> b < c \<longrightarrow> b mod PGSIZE = 0 \<longrightarrow> mappable (mem s) root b (align_down pa + (b - align_down va))) \<and>
    (if ok then c = e else c < e \<and> \<not> mappable (mem s) root c (align_down pa + (c - align_down va)))"
proof -
  have va: "va < 2 ^ 64" using e by (simp add: align_up_Some_iff)
  have e': "e mod PGSIZE = 0" "va + len \<le> e" using align_up_bounds [OF e] by auto
  have a: "align_down va mod PGSIZE = 0" "align_down va \<le> va"
    using align_down_aligned [OF va] align_down_le [OF va] by auto
  then have le: "align_down va + PGSIZE \<le> e" using page_less [OF a(1) e'(1)] e'(2) len by linarith
  then have last_pg: "(e - PGSIZE) mod PGSIZE = 0" "align_down va \<le> e - PGSIZE" "e - PGSIZE + PGSIZE = e"
    using e'(1) by (auto simp: mod_if [of e] )
  have "map_loop alloc root flags (e - PGSIZE) (align_down va) (align_down pa) s = Some (ok, s')"
    using m len e le by (auto simp: map_with_def panic_simps align_up_Some_iff)
  from map_loop_spec [OF g wf a(1) last_pg(1,2) this] show ?thesis
    using last_pg(3) by (auto simp: PGSIZE_def)
qed

end

context bounded_frame_source
begin

lemma walk_levels_succeeds:
  assumes "good s" and "pt_wf (owned s) (mem s) root" and "table_at (mem s) root p = Some t"
    and "p @ map (\<lambda>l. vpn va ! l) ls = [vpn va ! 2, vpn va ! 1]" and "length ls \<le> avail s"
  shows "\<exists>r s'. walk_levels alloc va True ls t s = Some (r, s') \<and> avail s \<le> avail s' + length ls"
  using assms
proof (induction ls arbitrary: s p t)
  case (Cons l ls)
  let ?i = "vpn va ! l"
  have pi: "(p @ [?i]) @ map (\<lambda>l. vpn va ! l) ls = [vpn va ! 2, vpn va ! 1]" using Cons.prems(4) by simp
  have "p @ [?i] \<in> paths 2" by (rule path_prefix [OF vpn_path(1) pi])
  then have p: "p \<in> paths 1" "?i < 512" using paths_butlast by blast+
  show ?case
  proof (cases "is_valid (read_u64 (mem s) (entry_addr t ?i))")
    case True
    then obtain c where c: "child (mem s) (entry_addr t ?i) = Some c"
      using table_child [OF Cons.prems(2) p Cons.prems(3)] by auto
    moreover have "table_at (mem s) root (p @ [?i]) = Some c" using Cons.prems(3) c by (simp add: table_at_snoc)
    then obtain r s' where "walk_levels alloc va True ls c s = Some (r, s')" "avail s \<le> avail s' + length ls"
      using Cons.IH [OF Cons.prems(1,2) _ pi] Cons.prems(5) by auto
    ultimately show ?thesis using True by (auto simp: child_def Let_def split: if_splits)
  next
    case False
    obtain n s1 where al: "alloc s = Some (n, s1)"
      using alloc_succeeds [OF Cons.prems(1)] Cons.prems(5) by fastforce
    define s2 where "s2 = s1\<lparr>mem := write_u64 (write_bytes (mem s1) n 0 PGSIZE) (entry_addr t ?i) (pa_to_pte n PTE_V)\<rparr>"
    note link = alloc_link [OF Cons.prems(1,2) p(1) Cons.prems(3) p(2) False al s2_def]
    have av: "avail s = Suc (avail s2)" using alloc_avail [OF Cons.prems(1) al] by (simp add: s2_def write_avail)
    have "good s2" "pt_wf (owned s2) (mem s2) root" using link(2) by (auto simp: pt_ext_def)
    then obtain r s' where "walk_levels alloc va True ls n s2 = Some (r, s')" "avail s2 \<le> avail s' + length ls"
      using Cons.IH [OF _ _ link(3) pi] Cons.prems(5) av by auto
    then show ?thesis using False al link(1) av by (auto simp: Let_def s2_def)
  qed
qed simp

lemma map_loop_succeeds:
  assumes "good s" and "pt_wf (owned s) (mem s) root" and "a mod PGSIZE = 0" and "last_pg mod PGSIZE = 0" and "a \<le> last_pg"
    and "2 * ((last_pg - a) div PGSIZE + 1) \<le> avail s"
    and "\<forall>b. a \<le> b \<longrightarrow> b \<le> last_pg \<longrightarrow> b mod PGSIZE = 0 \<longrightarrow> mappable (mem s) root b (pa + (b - a))"
    and "pa + (last_pg - a) < 2 ^ 64"
  shows "\<exists>s'. map_loop alloc root flags last_pg a pa s = Some (True, s')"
  using assms
proof (induction "last_pg - a" arbitrary: a pa s rule: less_induct)
  case less
  note g = less.prems(1) and wf = less.prems(2) and a = less.prems(3)
  have ok: "mappable (mem s) root a pa" using less.prems(3,5,7) by fastforce
  then have "a < VA_MAX" by (simp add: mappable_def)
  then obtain r s1 where w: "walk_with alloc root a True s = Some (r, s1)" and av: "avail s \<le> avail s1 + 2"
    using walk_levels_succeeds [OF g wf, of "[]" root a "[2, 1]"] less.prems(6) by (auto simp: walk_with_def)
  note page = map_page [OF g wf a w]
  obtain pte where r: "r = Some pte" and ok': "is_valid (read_u64 (mem s1) pte) \<longrightarrow>
      is_leaf (read_u64 (mem s1) pte) \<and> pte_to_pa (read_u64 (mem s1) pte) = pa"
    using page(3) ok by blast
  define s2 where "s2 = s1\<lparr>mem := write_u64 (mem s1) pte (pa_to_pte pa (flags OR PTE_V))\<rparr>"
  have ext: "pt_ext good owned root s s2" and rng: "mapped_range (mem s) (mem s2) root a (a + PGSIZE) pa flags"
    using page(4) [OF r s2_def] by auto
  have loop: "map_loop alloc root flags last_pg a pa s = (if a = last_pg then Some (True, s2)
      else Option.bind (uadd a PGSIZE) (\<lambda>a'. Option.bind (uadd pa PGSIZE) (\<lambda>pa'. map_loop alloc root flags last_pg a' pa' s2)))"
    using less.prems(5) w r ok' by (auto simp: map_loop.simps [of alloc root flags last_pg a] Let_def s2_def)
  show ?case
  proof (cases "a = last_pg")
    case False
    let ?a = "a + PGSIZE" and ?pa = "pa + PGSIZE"
    have le: "?a \<le> last_pg" using False less.prems(5) page_less [OF a less.prems(4)] by auto
    have s2: "good s2" "pt_wf (owned s2) (mem s2) root" using ext by (auto simp: pt_ext_def)
    have al: "?a mod PGSIZE = 0" using a by simp
    have dec: "last_pg - ?a < last_pg - a" using le by (auto simp: PGSIZE_def)
    have "(last_pg - a) div PGSIZE = Suc ((last_pg - ?a) div PGSIZE)"
      using le_div_geq [of PGSIZE "last_pg - a"] le by (simp add: PGSIZE_def)
    then have cnt: "2 * ((last_pg - ?a) div PGSIZE + 1) \<le> avail s2"
      using less.prems(6) av by (simp add: s2_def write_avail)
    have mp: "\<forall>b. ?a \<le> b \<longrightarrow> b \<le> last_pg \<longrightarrow> b mod PGSIZE = 0 \<longrightarrow> mappable (mem s2) root b (?pa + (b - ?a))"
      using less.prems(7) rng by (auto simp: mappable_def mapped_range_def)
    have top: "?pa + (last_pg - ?a) < 2 ^ 64" "?pa < 2 ^ 64" "?a < 2 ^ 64"
      using less.prems(8) le \<open>a < VA_MAX\<close> by (auto simp: VA_MAX_eq PGSIZE_def)
    show ?thesis
      using less.hyps [OF dec s2 al less.prems(4) le cnt mp top(1)] loop False top(2,3) by (simp add: cadd_def)
  qed (use loop in simp)
qed

end

section \<open>Unmapping\<close>

definition unmapped_range :: "ram \<Rightarrow> ram \<Rightarrow> usize \<Rightarrow> usize \<Rightarrow> usize \<Rightarrow> bool" where
  "unmapped_range m m' root a c \<longleftrightarrow>
     (\<forall>va < VA_MAX. va mod PGSIZE = 0 \<longrightarrow> pt_get m' root va = (if a \<le> va \<and> va < c then 0 else pt_get m root va))"

definition is_mapped :: "ram \<Rightarrow> usize \<Rightarrow> usize \<Rightarrow> bool" where
  "is_mapped m root a \<longleftrightarrow> a < VA_MAX \<and> is_valid (pt_get m root a) \<and> is_leaf (pt_get m root a)"

text \<open>No mapped page is itself a table of this address space.\<close>

definition frames_apart :: "ram \<Rightarrow> usize \<Rightarrow> bool" where
  "frames_apart m root \<longleftrightarrow> (\<forall>va < VA_MAX. va mod PGSIZE = 0 \<longrightarrow> is_mapped m root va \<longrightarrow>
     pte_to_pa (pt_get m root va) \<notin> pt_tables m root)"

definition unmap_inv :: "usize \<Rightarrow> pmem \<Rightarrow> bool" where
  "unmap_inv root s \<longleftrightarrow> pmem_inv s \<and> pt_wf (live s) (mem s) root \<and> frames_apart (mem s) root"

lemma unmapped_range_step:
  assumes "unmapped_range m m1 root a (a + PGSIZE)" and "unmapped_range m1 m' root (a + PGSIZE) c"
    and "a + PGSIZE \<le> c" and "a mod PGSIZE = 0"
  shows "unmapped_range m m' root a c"
  unfolding unmapped_range_def
proof (intro allI impI)
  fix va assume va: "va < VA_MAX" "va mod PGSIZE = 0"
  consider "va < a" | "va = a" | "a + PGSIZE \<le> va" using page_less [OF assms(4) va(2)] by linarith
  then show "pt_get m' root va = (if a \<le> va \<and> va < c then 0 else pt_get m root va)"
    using assms va unfolding unmapped_range_def by cases (auto simp: PGSIZE_def)
qed

lemma pt_wf_own: "pt_wf own m root \<Longrightarrow> pt_tables m root \<subseteq> own' \<Longrightarrow> pt_wf own' m root"
  unfolding pt_wf_def by blast

lemma pt_lookup_get:
  assumes "pt_lookup m root a = Some pte"
  shows "a < VA_MAX" "\<exists>t. pte = entry_addr t (vpn a ! 0) \<and> table_at m root [vpn a ! 2, vpn a ! 1] = Some t"
    "read_u64 m pte = pt_get m root a"
  using assms by (auto simp: pt_lookup_eq pt_get_def simp del: table_at.simps split: if_splits option.splits)

lemma pt_lookup_None: "pt_lookup m root a = None \<Longrightarrow> \<not> is_mapped m root a"
  by (auto simp: pt_lookup_eq is_mapped_def pt_get_def is_valid_eq simp del: table_at.simps split: if_splits option.splits)

text \<open>Releasing a page that is no table leaves the tables alone.\<close>

lemma free_frame:
  assumes inv: "pmem_inv s" and wf: "pt_wf (live s) (mem s) root" and pa: "pa \<notin> pt_tables (mem s) root"
    and f: "pmem_free pa k s = Some s1"
  shows "pmem_inv s1" "pt_wf (live s1) (mem s1) root" "pt_get (mem s1) root va = pt_get (mem s) root va"
    "pt_tables (mem s1) root = pt_tables (mem s) root" "live s1 \<subseteq> live s" "live s - {pa} \<subseteq> live s1"
    "table_at (mem s) root [vpn va ! 2, vpn va ! 1] = table_at (mem s1) root [vpn va ! 2, vpn va ! 1]"
proof -
  have "pa \<in> live s" and post: "free_post pa s s1" using pmem_free_spec [OF inv, of pa k] f by (auto split: if_splits)
  then show "pmem_inv s1" "live s1 \<subseteq> live s" "live s - {pa} \<subseteq> live s1" by (auto simp: free_post_def)
  have tabs: "pt_tables (mem s) root \<subseteq> live s" using wf by (simp add: pt_wf_def)
  have same: "agree_on (pt_tables (mem s) root) (mem s) (mem s1)"
  proof (rule agree_onI)
    fix t x assume t: "t \<in> pt_tables (mem s) root" "t \<le> x" "x < t + PGSIZE"
    then have "t \<noteq> pa" "t \<in> live s" using pa tabs by auto
    then have "x < pa \<or> pa + PGSIZE \<le> x"
      using kernel_frames.owned_apart [OF inv _ \<open>pa \<in> live s\<close>, of t] t by auto
    then show "mem s1 x = mem s x" using post by (auto simp: free_post_def)
  qed
  note cong = pt_cong [OF wf same]
  show "pt_get (mem s1) root va = pt_get (mem s) root va" "pt_tables (mem s1) root = pt_tables (mem s) root"
    by (rule cong)+
  show "pt_wf (live s1) (mem s1) root"
    using cong(1,3) tabs pa \<open>live s - {pa} \<subseteq> live s1\<close> by (intro pt_wf_own [OF cong(1)]) auto
  show "table_at (mem s) root [vpn va ! 2, vpn va ! 1] = table_at (mem s1) root [vpn va ! 2, vpn va ! 1]"
    by (rule table_at_cong [OF wf same vpn_path(1), symmetric])
qed

text \<open>One iteration of \<open>unmap\<close>: the optional release, then the cleared entry.\<close>

definition release :: "bool \<Rightarrow> usize \<Rightarrow> pmem \<Rightarrow> pmem option" where
  "release free pa s = (if free
     then Option.bind (get_region pa s) (\<lambda>r. case r of Some for_kernel \<Rightarrow> pmem_free pa for_kernel s | None \<Rightarrow> None)
     else Some s)"

lemma release_cases:
  assumes "release free pa s = Some s1"
  shows "s1 = s \<and> \<not> free \<or> free \<and> (\<exists>k. pmem_free pa k s = Some s1)"
  using assms by (auto simp: release_def bind_Some_prod split: if_splits option.splits)

lemma release_frame:
  assumes i: "pmem_inv s" "pt_wf (live s) (mem s) root" and pa: "pa \<notin> pt_tables (mem s) root"
    and r: "release free pa s = Some s1"
  shows "pmem_inv s1" "pt_wf (live s1) (mem s1) root" "pt_tables (mem s1) root = pt_tables (mem s) root"
    "pt_get (mem s1) root va = pt_get (mem s) root va" "live s1 \<subseteq> live s" "live s - {pa} \<subseteq> live s1"
    "\<not> free \<Longrightarrow> s1 = s" "table_at (mem s1) root [vpn va ! 2, vpn va ! 1] = table_at (mem s) root [vpn va ! 2, vpn va ! 1]"
proof -
  from release_cases [OF r]
  have "pmem_inv s1 \<and> pt_wf (live s1) (mem s1) root \<and> pt_tables (mem s1) root = pt_tables (mem s) root \<and>
    pt_get (mem s1) root va = pt_get (mem s) root va \<and> live s1 \<subseteq> live s \<and> live s - {pa} \<subseteq> live s1 \<and>
    (\<not> free \<longrightarrow> s1 = s) \<and> table_at (mem s1) root [vpn va ! 2, vpn va ! 1] = table_at (mem s) root [vpn va ! 2, vpn va ! 1]"
  proof (elim disjE conjE exE)
    fix k assume "free" and f: "pmem_free pa k s = Some s1"
    then show ?thesis using free_frame [OF i pa f] by metis
  qed (use i in blast)
  then show "pmem_inv s1" "pt_wf (live s1) (mem s1) root" "pt_tables (mem s1) root = pt_tables (mem s) root"
    "pt_get (mem s1) root va = pt_get (mem s) root va" "live s1 \<subseteq> live s" "live s - {pa} \<subseteq> live s1"
    "\<not> free \<Longrightarrow> s1 = s" "table_at (mem s1) root [vpn va ! 2, vpn va ! 1] = table_at (mem s) root [vpn va ! 2, vpn va ! 1]"
    by blast+
qed

lemma unmap_loop_unfold:
  assumes "a \<le> last_pg" and "pt_lookup (mem s) root a = Some pte" and "is_mapped (mem s) root a"
  shows "unmap_loop root free last_pg a s = Option.bind (release free (pte_to_pa (pt_get (mem s) root a)) s) (\<lambda>s1.
    let s2 = s1\<lparr>mem := write_u64 (mem s1) pte 0\<rparr> in
    if a = last_pg then Some (True, s2) else Option.bind (uadd a PGSIZE) (\<lambda>a'. unmap_loop root free last_pg a' s2))"
  using assms pt_lookup_get [OF assms(2)]
  by (simp add: unmap_loop.simps [of root free last_pg a] release_def is_mapped_def Let_def)

lemma unmap_page:
  assumes inv: "unmap_inv root s" and a: "a mod PGSIZE = 0" and m: "is_mapped (mem s) root a"
    and l: "pt_lookup (mem s) root a = Some pte"
    and r: "release free (pte_to_pa (pt_get (mem s) root a)) s = Some s1" and s2: "s2 = s1\<lparr>mem := write_u64 (mem s1) pte 0\<rparr>"
  shows "unmap_inv root s2" "unmapped_range (mem s) (mem s2) root a (a + PGSIZE)" "pt_tables (mem s2) root = pt_tables (mem s) root"
    "live s2 \<subseteq> live s" "live s - {pte_to_pa (pt_get (mem s) root a)} \<subseteq> live s2" "\<not> free \<Longrightarrow> live s2 = live s"
proof -
  let ?pa = "pte_to_pa (pt_get (mem s) root a)"
  have i: "pmem_inv s" "pt_wf (live s) (mem s) root" and fa: "frames_apart (mem s) root"
    using inv by (auto simp: unmap_inv_def)
  have lt: "a < VA_MAX" using m by (simp add: is_mapped_def)
  have pa: "?pa \<notin> pt_tables (mem s) root" using fa m a lt by (auto simp: frames_apart_def)
  have s1: "pmem_inv s1" "pt_wf (live s1) (mem s1) root" "pt_tables (mem s1) root = pt_tables (mem s) root"
    "\<And>va. pt_get (mem s1) root va = pt_get (mem s) root va" "live s1 \<subseteq> live s" "live s - {?pa} \<subseteq> live s1"
    "\<not> free \<Longrightarrow> s1 = s" "table_at (mem s1) root [vpn a ! 2, vpn a ! 1] = table_at (mem s) root [vpn a ! 2, vpn a ! 1]"
    using release_frame [OF i pa r] by simp_all
  obtain t where t: "pte = entry_addr t (vpn a ! 0)" "table_at (mem s1) root [vpn a ! 2, vpn a ! 1] = Some t"
    using pt_lookup_get(2) [OF l] s1(8) by auto
  note leaf = kernel_frames.write_leaf_ext [OF s1(1,2) t(2) _ s2 [unfolded t(1)]]
  have lv: "live s2 = live s1" by (simp add: s2)
  then show "live s2 \<subseteq> live s" "live s - {?pa} \<subseteq> live s2" "\<not> free \<Longrightarrow> live s2 = live s" using s1 by auto
  have ext: "pt_ext pmem_inv live root s1 s2" using leaf(1) by simp
  show tabs: "pt_tables (mem s2) root = pt_tables (mem s) root"
    using write_leaf(2) [OF s1(2) kernel_frames.owned_aligned [OF s1(1)] t(2), of 0 "mem s2"] s1(3) by (simp add: s2 t(1))
  show rng: "unmapped_range (mem s) (mem s2) root a (a + PGSIZE)"
    unfolding unmapped_range_def
  proof (intro allI impI)
    fix va assume va: "va < VA_MAX" "va mod PGSIZE = 0"
    have "a \<le> va \<and> va < a + PGSIZE \<longleftrightarrow> va = a" using page_less [OF a va(2)] by (auto simp: PGSIZE_def)
    then show "pt_get (mem s2) root va = (if a \<le> va \<and> va < a + PGSIZE then 0 else pt_get (mem s) root va)"
      using leaf(2) s1(4) vpn_eq_page [OF lt va(1) a va(2)] by auto
  qed
  have "frames_apart (mem s2) root"
    using fa rng unfolding frames_apart_def unmapped_range_def tabs is_mapped_def by (auto simp: is_valid_eq)
  then show "unmap_inv root s2" using ext by (simp add: unmap_inv_def pt_ext_def)
qed

lemma unmap_loop_spec:
  assumes "unmap_inv root s" and "a mod PGSIZE = 0" and "last_pg mod PGSIZE = 0" and "a \<le> last_pg"
    and "unmap_loop root free last_pg a s = Some (ok, s')"
  shows "\<exists>c. unmap_inv root s' \<and> unmapped_range (mem s) (mem s') root a c \<and> a \<le> c \<and> c mod PGSIZE = 0 \<and>
    (\<forall>b. a \<le> b \<longrightarrow> b < c \<longrightarrow> b mod PGSIZE = 0 \<longrightarrow> is_mapped (mem s) root b) \<and>
    (if ok then c = last_pg + PGSIZE else c \<le> last_pg \<and> \<not> is_mapped (mem s) root c) \<and>
    (free \<or> live s' = live s)"
  using assms
proof (induction "last_pg - a" arbitrary: a s rule: less_induct)
  case less
  note inv = less.prems(1) and a = less.prems(2)
  show ?case
  proof (cases "is_mapped (mem s) root a")
    case False
    then have "ok = False" "s' = s"
      using less.prems(4,5) pt_lookup_get [of "mem s" root a]
      by (auto simp: unmap_loop.simps [of root free last_pg a] is_mapped_def Let_def split: option.splits if_splits)
    then show ?thesis
      using inv a less.prems(4) False by (intro exI [of _ a]) (auto simp: unmapped_range_def)
  next
    case True
    then obtain pte where l: "pt_lookup (mem s) root a = Some pte" using pt_lookup_None by fastforce
    note un = unmap_loop_unfold [OF less.prems(4) l True, of free]
    obtain s1 where r: "release free (pte_to_pa (pt_get (mem s) root a)) s = Some s1"
      using un less.prems(5) by (cases "release free (pte_to_pa (pt_get (mem s) root a)) s") auto
    define s2 where "s2 = s1\<lparr>mem := write_u64 (mem s1) pte 0\<rparr>"
    note page = unmap_page [OF inv a True l r s2_def]
    have loop: "(if a = last_pg then Some (True, s2) else Option.bind (uadd a PGSIZE) (\<lambda>a'. unmap_loop root free last_pg a' s2)) = Some (ok, s')"
      using un r less.prems(5) by (simp add: Let_def s2_def)
    show ?thesis
    proof (cases "a = last_pg")
      case True
      then have "ok" "s' = s2" using loop by auto
      moreover have "is_mapped (mem s) root b" if "a \<le> b" "b < a + PGSIZE" "b mod PGSIZE = 0" for b
        using that page_less [OF a that(3)] \<open>is_mapped (mem s) root a\<close> by (cases "b = a") auto
      ultimately show ?thesis
        using page True a by (intro exI [of _ "a + PGSIZE"]) auto
    next
      case False
      let ?a = "a + PGSIZE"
      have rec: "unmap_loop root free last_pg ?a s2 = Some (ok, s')"
        using loop False by (auto simp: bind_Some_prod cadd_Some_iff)
      have le: "?a \<le> last_pg" using False less.prems(4) page_less [OF a less.prems(3)] by auto
      have al: "?a mod PGSIZE = 0" using a by simp
      have dec: "last_pg - ?a < last_pg - a" using le by (auto simp: PGSIZE_def)
      obtain c where c: "unmap_inv root s'" "unmapped_range (mem s2) (mem s') root ?a c" "?a \<le> c" "c mod PGSIZE = 0"
        "\<forall>b. ?a \<le> b \<longrightarrow> b < c \<longrightarrow> b mod PGSIZE = 0 \<longrightarrow> is_mapped (mem s2) root b"
        "if ok then c = last_pg + PGSIZE else c \<le> last_pg \<and> \<not> is_mapped (mem s2) root c"
        "free \<or> live s' = live s2"
        using less.hyps [OF dec page(1) al less.prems(3) le rec] by (elim exE conjE) (rule that)
      have mp: "is_mapped (mem s2) root b = is_mapped (mem s) root b" if "?a \<le> b" "b mod PGSIZE = 0" for b
        using that page(2) by (auto simp: is_mapped_def unmapped_range_def)
      have "is_mapped (mem s) root b" if "a \<le> b" "b < c" "b mod PGSIZE = 0" for b
        using that c(5) mp True page_less [OF a that(3)] by (cases "b = a") auto
      moreover have "unmapped_range (mem s) (mem s') root a c"
        by (rule unmapped_range_step [OF page(2) c(2,3) a])
      moreover have "free \<or> live s' = live s" using c(7) page(6) by blast
      ultimately show ?thesis
        using c(1,3,4,6) mp [OF c(3,4)] by (intro exI [of _ c]) auto
    qed
  qed
qed

lemma unmap_loop_total:
  assumes "unmap_inv root s" and "a mod PGSIZE = 0" and "last_pg mod PGSIZE = 0" and "a \<le> last_pg" and "last_pg + PGSIZE < 2 ^ 64"
  shows "unmap_loop root False last_pg a s \<noteq> None"
  using assms
proof (induction "last_pg - a" arbitrary: a s rule: less_induct)
  case less
  show ?case
  proof (cases "is_mapped (mem s) root a")
    case False
    then show ?thesis
      using pt_lookup_get [of "mem s" root a]
      by (auto simp: unmap_loop.simps [of root False last_pg a] is_mapped_def Let_def split: option.splits)
  next
    case True
    then obtain pte where l: "pt_lookup (mem s) root a = Some pte" using pt_lookup_None by fastforce
    have r: "release False (pte_to_pa (pt_get (mem s) root a)) s = Some s" by (simp add: release_def)
    define s2 where "s2 = s\<lparr>mem := write_u64 (mem s) pte 0\<rparr>"
    note page = unmap_page [OF less.prems(1,2) True l r s2_def]
    have "unmap_loop root False last_pg (a + PGSIZE) s2 \<noteq> None" if "a \<noteq> last_pg"
      using that less.prems page_less [OF less.prems(2,3)] by (intro less.hyps page(1)) (auto simp: PGSIZE_def)
    moreover have "uadd a PGSIZE = Some (a + PGSIZE)" using less.prems(4,5) by (simp add: cadd_def)
    ultimately show ?thesis
      using unmap_loop_unfold [OF less.prems(4) l True, of False] r
      by (cases "a = last_pg") (simp_all add: s2_def Let_def)
  qed
qed

lemma align_up_uadd: "align_up (va + len) = Some e \<Longrightarrow> uadd va len = Some (va + len)"
  by (simp add: align_up_Some_iff cadd_def)

lemma unmap_range:
  assumes "0 < len" and "align_up (va + len) = Some e"
  shows "align_down va mod PGSIZE = 0" "(e - PGSIZE) mod PGSIZE = 0" "align_down va \<le> e - PGSIZE" "e - PGSIZE + PGSIZE = e"
    "pt_unmap root va len free s = unmap_loop root free (e - PGSIZE) (align_down va) s"
proof -
  have va: "va < 2 ^ 64" using assms(2) by (simp add: align_up_Some_iff)
  have e: "e mod PGSIZE = 0" "va + len \<le> e" using align_up_bounds [OF assms(2)] by auto
  show a: "align_down va mod PGSIZE = 0" using align_down_aligned [OF va] .
  have le: "align_down va + PGSIZE \<le> e"
    using page_less [OF a e(1)] e(2) align_down_le [OF va] assms(1) by linarith
  then show "(e - PGSIZE) mod PGSIZE = 0" "align_down va \<le> e - PGSIZE" "e - PGSIZE + PGSIZE = e"
    using e(1) by (auto simp: mod_if [of e])
  show "pt_unmap root va len free s = unmap_loop root free (e - PGSIZE) (align_down va) s"
    using assms le align_up_uadd [OF assms(2)] by (simp add: pt_unmap_def csub_def)
qed

section \<open>Properties\<close>

lemma vpn_align: "va < 2 ^ 64 \<Longrightarrow> vpn (align_down va) = vpn va"
proof -
  assume "va < 2 ^ 64"
  then have a: "align_down va = va div 4096 * 4096" by (simp add: align_down_div PGSIZE_def)
  have "va div 4096 * 4096 div 2 ^ (12 + n) = va div 2 ^ (12 + n)" for n :: nat
    by (simp add: power_add div_mult2_eq)
  from this [of 0] this [of 9] this [of 18] show ?thesis by (simp add: vpn_eq a)
qed

text \<open>The tables of a fresh root: one zeroed page.\<close>

lemma empty_root_wf:
  assumes "root \<in> own" and "\<And>x. root \<le> x \<Longrightarrow> x < root + PGSIZE \<Longrightarrow> m x = 0"
  shows "pt_wf own m root" "pt_tables m root = {root}" "pt_get m root va = 0"
proof -
  have z: "read_u64 m (entry_addr root i) = 0" if "i < 512" for i
    using entry_in_page [OF that, of root] assms(2) by (intro read_u64_zero) auto
  have t: "table_at m root q = (if q = [] then Some root else None)" if "q \<in> paths 2" for q
    using that z by (cases q) (auto simp: child_def is_valid_eq paths_def)
  show "pt_tables m root = {root}" using vpn_path(5) by (auto simp: pt_tables_def t split: if_splits)
  show "pt_wf own m root"
  proof (rule pt_wfI)
    fix p i t' assume "p \<in> paths 1" "i < 512" "table_at m root p = Some t'" "is_valid (read_u64 m (entry_addr t' i))"
    then show "child m (entry_addr t' i) \<noteq> None"
      using t [of p] z paths_mono by (auto simp: is_valid_eq split: if_splits)
  qed (use assms(1) t in \<open>auto split: if_splits\<close>)
  show "pt_get m root va = 0" unfolding pt_get_def t [OF vpn_path(1)] by simp
qed

text \<open>Walking without allocation is a lookup: it never panics, changes nothing, and returns the
  same entry as \<open>lookup\<close> for every table and every address.\<close>

theorem walk_is_lookup: "walk root va False s = Some (pt_lookup (mem s) root va, s)"
  by (simp add: walk_def walk_with_def pt_lookup_def walk_levels_no_alloc del: walk_levels.simps lookup_levels.simps)

text \<open>C32. Mapping. From a well-formed state, \<open>map\<close> (when the kernel has pages for the tables) keeps the
  allocator and the tables well formed, writes no live page that is not a table, and returns whether
  the whole range could be mapped. On success exactly the pages of the range get the new entries; on
  failure it stops at the first page that lies beyond the address space or is already mapped to
  another frame, with the pages before it mapped and every other entry unchanged.\<close>

theorem pt_map_correct:
  assumes "pmem_inv s" and "pt_wf (live s) (mem s) root" and "0 < len"
    and "align_up (va + len) = Some e" and "pa < 2 ^ 64"
    and "pt_map root va pa len flags s = Some (ok, s')"
  shows "pmem_inv s' \<and> pt_wf (live s') (mem s') root \<and> live s \<subseteq> live s' \<and>
    agree_on (live s - pt_tables (mem s) root) (mem s) (mem s') \<and>
    (if ok then mapped_range (mem s) (mem s') root (align_down va) e (align_down pa) flags
     else \<exists>c. align_down va \<le> c \<and> c < e \<and> c mod PGSIZE = 0 \<and>
       mapped_range (mem s) (mem s') root (align_down va) c (align_down pa) flags \<and>
       \<not> mappable (mem s) root c (align_down pa + (c - align_down va)))"
  using kernel_frames.map_with_spec [OF assms(1-5) assms(6) [unfolded pt_map_def]]
  by (auto simp: pt_ext_def)

lemma pt_map_total:
  assumes "pmem_inv s" and "pt_wf (live s) (mem s) root" and "0 < len"
    and "align_up (va + len) = Some e" and "align_down pa + (e - align_down va) < 2 ^ 64"
    and "\<forall>b. align_down va \<le> b \<longrightarrow> b < e \<longrightarrow> b mod PGSIZE = 0 \<longrightarrow> mappable (mem s) root b (align_down pa + (b - align_down va))"
    and "2 * ((e - align_down va) div PGSIZE) \<le> card (free_pages True s)"
  shows "\<exists>s'. pt_map root va pa len flags s = Some (True, s')"
proof -
  note r = unmap_range [OF assms(3,4)]
  have "(e - align_down va) div PGSIZE = (e - PGSIZE - align_down va) div PGSIZE + 1"
    using le_div_geq [of PGSIZE "e - align_down va"] r(3,4) by (simp add: PGSIZE_def add.commute)
  then have cnt: "2 * ((e - PGSIZE - align_down va) div PGSIZE + 1) \<le> card (free_pages True s)"
    using assms(7) by simp
  have mp: "\<forall>b. align_down va \<le> b \<longrightarrow> b \<le> e - PGSIZE \<longrightarrow> b mod PGSIZE = 0 \<longrightarrow>
      mappable (mem s) root b (align_down pa + (b - align_down va))"
    using assms(6) r(4) by (auto simp: PGSIZE_def)
  have top: "align_down pa + (e - PGSIZE - align_down va) < 2 ^ 64" using assms(5) by linarith
  obtain s' where "map_loop (pmem_alloc True) root flags (e - PGSIZE) (align_down va) (align_down pa) s = Some (True, s')"
    using kernel_frames.map_loop_succeeds [OF assms(1,2) r(1-3) cnt mp top, of flags] by blast
  then show ?thesis
    using assms(3,4) r(4) align_up_uadd [OF assms(4)] by (auto simp: pt_map_def map_with_def csub_def)
qed

text \<open>C33. Mapping succeeds. When every page of the range is free or already mapped to the same frame and
  the kernel region has two pages for each page of the range (one for each missing table), \<open>map\<close>
  returns true without a panic and the range is mapped.\<close>

theorem pt_map_succeeds:
  assumes "pmem_inv s" and "pt_wf (live s) (mem s) root" and "0 < len"
    and "align_up (va + len) = Some e" and "pa < 2 ^ 64" and "align_down pa + (e - align_down va) < 2 ^ 64"
    and "\<forall>b. align_down va \<le> b \<longrightarrow> b < e \<longrightarrow> b mod PGSIZE = 0 \<longrightarrow> mappable (mem s) root b (align_down pa + (b - align_down va))"
    and "2 * ((e - align_down va) div PGSIZE) \<le> card (free_pages True s)"
  shows "\<exists>s'. pt_map root va pa len flags s = Some (True, s') \<and>
    mapped_range (mem s) (mem s') root (align_down va) e (align_down pa) flags"
proof -
  obtain s' where s': "pt_map root va pa len flags s = Some (True, s')"
    using pt_map_total [OF assms(1-4,6-8)] by blast
  then show ?thesis
    using kernel_frames.map_with_spec [OF assms(1-5) s' [unfolded pt_map_def]] by auto
qed

text \<open>The small machine with one page taken as an empty root table.\<close>

lemma example_root:
  "\<exists>root s. pmem_alloc True pmem_example = Some (root, s) \<and> pmem_inv s \<and> pt_wf (live s) (mem s) root \<and>
    card (free_pages True s) = 3 \<and> (\<forall>va. pt_get (mem s) root va = 0) \<and> pt_tables (mem s) root = {root}"
proof -
  obtain root s where al: "pmem_alloc True pmem_example = Some (root, s)"
    using pmem_alloc_post [OF pmem_example_inv, of True] pmem_example_free by auto
  have "root \<in> live s" using kernel_frames.alloc_owned [OF pmem_example_inv al] by simp
  moreover have "mem s x = 0" if "root \<le> x" "x < root + PGSIZE" for x
    using kernel_frames.alloc_mem [OF pmem_example_inv al] that by (simp add: write_bytes_def)
  ultimately have "pt_wf (live s) (mem s) root" "pt_tables (mem s) root = {root}" "\<forall>va. pt_get (mem s) root va = 0"
    using empty_root_wf [of root "live s" "mem s"] by blast+
  moreover have "card (free_pages True s) = 3"
    using kernel_frames.alloc_avail [OF pmem_example_inv al] by (simp add: pmem_example_free)
  ultimately show ?thesis using al kernel_frames.alloc_good [OF pmem_example_inv al] by blast
qed

lemma example_map:
  assumes "pmem_inv s" "pt_wf (live s) (mem s) root" "card (free_pages True s) = 3" "\<forall>va. pt_get (mem s) root va = 0"
  shows "align_down 0x10000 = 0x10000" "align_down 0x10000000 = 0x10000000" "align_up (0x10000 + 4096) = Some 0x11000"
    "\<forall>b. 0x10000 \<le> b \<longrightarrow> b < 0x11000 \<longrightarrow> b mod PGSIZE = 0 \<longrightarrow> mappable (mem s) root b (0x10000000 + (b - 0x10000))"
    "\<exists>s'. pt_map root 0x10000 0x10000000 4096 0x16 s = Some (True, s')"
proof -
  show a: "align_down 0x10000 = 0x10000" "align_down 0x10000000 = 0x10000000" "align_up (0x10000 + 4096) = Some 0x11000"
    by (simp_all add: align_down_eq align_up_Some_iff PGSIZE_def)
  show m: "\<forall>b. 0x10000 \<le> b \<longrightarrow> b < 0x11000 \<longrightarrow> b mod PGSIZE = 0 \<longrightarrow> mappable (mem s) root b (0x10000000 + (b - 0x10000))"
    using assms(4) by (auto simp: mappable_def is_valid_eq VA_MAX_eq)
  show "\<exists>s'. pt_map root 0x10000 0x10000000 4096 0x16 s = Some (True, s')"
    by (rule pt_map_total [OF assms(1,2) _ a(3)]) (use m assms(3) in \<open>simp_all add: a PGSIZE_def\<close>)
qed

theorem pt_map_succeeds_witness:
  "\<exists>root s s'. pmem_alloc True pmem_example = Some (root, s) \<and> pt_map root 0x10000 0x10000000 4096 0x16 s = Some (True, s') \<and>
    mapped_range (mem s) (mem s') root 0x10000 0x11000 0x10000000 0x16"
proof -
  obtain root s where s: "pmem_alloc True pmem_example = Some (root, s)" "pmem_inv s" "pt_wf (live s) (mem s) root"
    "card (free_pages True s) = 3" "\<forall>va. pt_get (mem s) root va = 0"
    using example_root by blast
  note ex = example_map [OF s(2-5)]
  have "\<exists>s'. pt_map root 0x10000 0x10000000 4096 0x16 s = Some (True, s') \<and>
    mapped_range (mem s) (mem s') root (align_down 0x10000) 0x11000 (align_down 0x10000000) 0x16"
    by (rule pt_map_succeeds [OF s(2,3) _ ex(3)]) (use ex(4) s(4) in \<open>simp_all add: ex(1,2) PGSIZE_def\<close>)
  then show ?thesis using s(1) by (auto simp: ex(1,2))
qed

theorem pt_map_correct_witness:
  "\<exists>root s s'. pmem_alloc True pmem_example = Some (root, s) \<and> pt_map root 0x10000 0x10000000 4096 0x16 s = Some (True, s') \<and>
    pmem_inv s' \<and> pt_wf (live s') (mem s') root"
proof -
  obtain root s where s: "pmem_alloc True pmem_example = Some (root, s)" "pmem_inv s" "pt_wf (live s) (mem s) root"
    "card (free_pages True s) = 3" "\<forall>va. pt_get (mem s) root va = 0"
    using example_root by blast
  note ex = example_map [OF s(2-5)]
  then obtain s' where s': "pt_map root 0x10000 0x10000000 4096 0x16 s = Some (True, s')" by blast
  then show ?thesis using pt_map_correct [OF s(2,3) _ ex(3) _ s'] s(1) by auto
qed

lemma leaf_flags: "2 \<le> flags mod 16 \<Longrightarrow> is_valid (pa_to_pte pa (flags OR PTE_V)) \<and> is_leaf (pa_to_pte pa (flags OR PTE_V))"
proof -
  assume f: "2 \<le> flags mod 16"
  have "2 \<le> (flags + 1) mod 16" if "even flags"
  proof -
    have "even (flags mod 16)" using that by (simp add: dvd_mod_iff)
    then have "flags mod 16 \<noteq> 15" by auto
    then show ?thesis using f by (simp add: mod_Suc)
  qed
  with f show ?thesis by (auto simp: is_valid_pa_to_pte is_leaf_pa_to_pte flags_or_V)
qed

text \<open>C34. Unmapping. From a well-formed state in which no mapped frame is one of the tables, \<open>unmap\<close>
  clears exactly the entries of the range and keeps everything else and the state well formed; it
  returns false at the first page that is not mapped, with the pages before it cleared. Without
  \<open>free\<close> the live pages do not change.\<close>

theorem pt_unmap_correct:
  assumes "unmap_inv root s" and "0 < len" and "align_up (va + len) = Some e"
    and "pt_unmap root va len free s = Some (ok, s')"
  shows "unmap_inv root s' \<and> (free \<or> live s' = live s) \<and>
    (if ok then unmapped_range (mem s) (mem s') root (align_down va) e
     else \<exists>c. align_down va \<le> c \<and> c < e \<and> c mod PGSIZE = 0 \<and>
       unmapped_range (mem s) (mem s') root (align_down va) c \<and> \<not> is_mapped (mem s) root c)"
proof -
  note r = unmap_range [OF assms(2,3)]
  obtain c where c: "unmap_inv root s'" "unmapped_range (mem s) (mem s') root (align_down va) c" "align_down va \<le> c" "c mod PGSIZE = 0"
    "if ok then c = e - PGSIZE + PGSIZE else c \<le> e - PGSIZE \<and> \<not> is_mapped (mem s) root c" "free \<or> live s' = live s"
    using unmap_loop_spec [OF assms(1) r(1-3) assms(4) [unfolded r(5)]] by (elim exE conjE) (rule that)
  have "c < e" if "\<not> ok" using that c(5) r(3,4) by (auto simp: PGSIZE_def)
  then show ?thesis using c r(4) by (cases ok) auto
qed

theorem pt_unmap_correct_witness:
  "\<exists>root s s'. pmem_alloc True pmem_example = Some (root, s) \<and> pt_unmap root 0x10000 4096 False s = Some (False, s') \<and>
    unmap_inv root s' \<and> live s' = live s"
proof -
  obtain root s where s: "pmem_alloc True pmem_example = Some (root, s)" "unmap_inv root s"
    and z: "\<forall>va. pt_get (mem s) root va = 0"
    using example_root by (auto simp: unmap_inv_def frames_apart_def is_mapped_def is_valid_eq)
  have e: "align_up (0x10000 + 4096) = Some 0x11000" by (simp add: align_up_Some_iff PGSIZE_def)
  note r = unmap_range [OF _ e]
  have "pt_unmap root 0x10000 4096 False s = Some (False, s)"
    using pt_lookup_get(3) [of "mem s" root "0x10000"] z
    by (simp add: r(5) unmap_loop.simps [of root False] align_down_eq PGSIZE_def Let_def is_valid_eq split: option.splits)
  then show ?thesis using pt_unmap_correct [OF s(2) _ e, of False] s(1) by fastforce
qed

text \<open>Map then unmap. Mapping a range that was empty with a readable, writable or executable flag
  and unmapping it again succeeds and restores every entry of the address space.\<close>

theorem map_unmap_roundtrip:
  assumes "pmem_inv s" and "pt_wf (live s) (mem s) root" and "0 < len" and "align_up (va + len) = Some e"
    and "pa < 2 ^ 64" and "e \<le> VA_MAX" and "2 \<le> flags mod 16"
    and "\<forall>b. align_down va \<le> b \<longrightarrow> b < e \<longrightarrow> b mod PGSIZE = 0 \<longrightarrow> pt_get (mem s) root b = 0"
    and "pt_map root va pa len flags s = Some (True, s1)" and "frames_apart (mem s1) root"
  shows "\<exists>s2. pt_unmap root va len False s1 = Some (True, s2) \<and> live s2 = live s1 \<and>
    (\<forall>b < VA_MAX. b mod PGSIZE = 0 \<longrightarrow> pt_get (mem s2) root b = pt_get (mem s) root b)"
proof -
  note r = unmap_range [OF assms(3,4)]
  from kernel_frames.map_with_spec [OF assms(1-5) assms(9) [unfolded pt_map_def]]
  have inv: "unmap_inv root s1" and rng: "mapped_range (mem s) (mem s1) root (align_down va) e (align_down pa) flags"
    using assms(10) by (auto simp: pt_ext_def unmap_inv_def)
  have mapped: "is_mapped (mem s1) root b" if "align_down va \<le> b" "b < e" "b mod PGSIZE = 0" for b
    using that rng assms(6) leaf_flags [OF assms(7)] by (auto simp: mapped_range_def is_mapped_def)
  have "e - PGSIZE + PGSIZE < 2 ^ 64" using r(4) assms(6) by (simp add: VA_MAX_eq)
  then obtain ok s2 where s2: "unmap_loop root False (e - PGSIZE) (align_down va) s1 = Some (ok, s2)"
    using unmap_loop_total [OF inv r(1-3)] by auto
  obtain c where c: "unmapped_range (mem s1) (mem s2) root (align_down va) c" "align_down va \<le> c" "c mod PGSIZE = 0"
    "if ok then c = e - PGSIZE + PGSIZE else c \<le> e - PGSIZE \<and> \<not> is_mapped (mem s1) root c" "False \<or> live s2 = live s1"
    using unmap_loop_spec [OF inv r(1-3) s2] by (elim exE conjE) (rule that)
  have ok: "ok"
  proof (rule ccontr)
    assume "\<not> ok"
    then have "c < e" "\<not> is_mapped (mem s1) root c" using c(4) r(3,4) by (auto simp: PGSIZE_def)
    then show False using mapped [OF c(2) _ c(3)] by simp
  qed
  then have ce: "c = e" using c(4) r(4) by simp
  have "pt_get (mem s2) root b = pt_get (mem s) root b" if "b < VA_MAX" "b mod PGSIZE = 0" for b
    using that c(1) rng assms(8) unfolding ce unmapped_range_def mapped_range_def by simp
  then show ?thesis using s2 c(5) r(5) ok by simp
qed

theorem map_unmap_roundtrip_witness:
  "\<exists>root s s1 s2. pmem_alloc True pmem_example = Some (root, s) \<and> pt_map root 0x10000 0x10000000 4096 0x16 s = Some (True, s1) \<and>
    pt_unmap root 0x10000 4096 False s1 = Some (True, s2) \<and> pt_get (mem s2) root 0x10000 = 0"
proof -
  obtain root s where s: "pmem_alloc True pmem_example = Some (root, s)" "pmem_inv s" "pt_wf (live s) (mem s) root"
    "card (free_pages True s) = 3" "\<forall>va. pt_get (mem s) root va = 0"
    using example_root by blast
  note ex = example_map [OF s(2-5)]
  then obtain s1 where s1: "pt_map root 0x10000 0x10000000 4096 0x16 s = Some (True, s1)" by blast
  from kernel_frames.map_with_spec [OF s(2,3) _ ex(3) _ s1 [unfolded pt_map_def]]
  have inv: "pmem_inv s1" "pt_wf (live s1) (mem s1) root"
    and rng: "mapped_range (mem s) (mem s1) root 0x10000 0x11000 0x10000000 0x16"
    by (auto simp: pt_ext_def ex(1,2))
  have "frames_apart (mem s1) root"
    unfolding frames_apart_def
  proof (intro allI impI)
    fix va assume va: "va < VA_MAX" "va mod PGSIZE = 0" "is_mapped (mem s1) root va"
    then have in_range: "0x10000 \<le> va \<and> va < 0x11000" and pte: "pt_get (mem s1) root va = pa_to_pte (0x10000000 + (va - 0x10000)) (0x16 OR PTE_V)"
      using rng s(5) by (auto simp: mapped_range_def is_mapped_def is_valid_eq split: if_splits)
    have "pte_to_pa (pt_get (mem s1) root va) \<le> 0x10000000 + (va - 0x10000)"
      unfolding pte using in_range by (subst pte_to_pa_pa_to_pte) auto
    then have "pte_to_pa (pt_get (mem s1) root va) \<notin> live s1"
      using in_range live_page(1) [OF inv(1)] by fastforce
    then show "pte_to_pa (pt_get (mem s1) root va) \<notin> pt_tables (mem s1) root"
      using inv(2) by (auto simp: pt_wf_def)
  qed
  then show ?thesis
    using map_unmap_roundtrip [OF s(2,3) _ ex(3) _ _ _ _ s1] s(1,5) s1 by (auto simp: VA_MAX_eq PGSIZE_def)
qed

end
