(* ===== verification/Ucopy.thy ===== *)
theory Ucopy
  imports Pagetable
begin

text \<open>
  Copying between the kernel and a user address space (\<^verbatim>\<open>mem/uvm.rs\<close>: \<open>copyin\<close>, \<open>copyout\<close>,
  \<open>copyin_str\<close>). A kernel buffer is a list of bytes, returned with what was written to it even when the
  copy fails. \<open>user_pte\<close> is the sequence of checks the three functions share: lookup of the page, valid
  leaf, some access right, user bit and the wanted right.

  The lemmas show the loops against a byte-wise reading: byte \<open>i\<close> of a copy is the byte at the physical
  address that \<open>user_byte\<close> gives for the \<open>i\<close>-th virtual address, and the error is the one of the
  first byte that may not be accessed.
\<close>

section \<open>Operations\<close>

datatype copy_error = NotMapped | NoPerm | Fault | TooLong

definition user_pte :: "ram \<Rightarrow> usize \<Rightarrow> nat \<Rightarrow> usize \<Rightarrow> copy_error + usize" where
  "user_pte m root perm va =
     (case pt_lookup m root (align_down va) of
        None \<Rightarrow> Inl NotMapped
      | Some pte_ptr \<Rightarrow>
          let pte = read_u64 m pte_ptr in
          if \<not> is_valid pte \<or> \<not> is_leaf pte then Inl NotMapped
          else let flags = get_flags pte in
            if flags AND 0xE = 0 then Inl NotMapped
            else if flags AND PTE_U = 0 \<or> flags AND perm = 0 then Inl NoPerm
            else Inr (pte_to_pa pte))"

text \<open>\<open>copy_nonoverlapping\<close> into a kernel buffer at an index.\<close>

definition write_at :: "u8 list \<Rightarrow> nat \<Rightarrow> u8 list \<Rightarrow> u8 list" where
  "write_at dst i bs = take i dst @ bs @ drop (i + length bs) dst"

lemma length_write_at [simp]: "i + length bs \<le> length dst \<Longrightarrow> length (write_at dst i bs) = length dst"
  by (simp add: write_at_def)

lemma page_offset_less: "page_offset va < PGSIZE"
  by (simp add: page_offset_eq PGSIZE_def)

function copyin_loop :: "ram \<Rightarrow> usize \<Rightarrow> u8 list \<Rightarrow> nat \<Rightarrow> usize \<Rightarrow> ((copy_error + unit) \<times> u8 list) option" where
  "copyin_loop m root dst copied src_va =
     (if length dst \<le> copied then Some (Inr (), dst)
      else case user_pte m root PTE_R src_va of
             Inl e \<Rightarrow> Some (Inl e, dst)
           | Inr pa \<Rightarrow>
               let off = page_offset src_va;
                   n = min (PGSIZE - off) (length dst - copied)
               in case uadd src_va n of
                    None \<Rightarrow> None
                  | Some va' \<Rightarrow> copyin_loop m root (write_at dst copied (load m (pa + off) n)) (copied + n) va')"
  by pat_completeness auto
termination
proof (relation "measure (\<lambda>(_, _, dst, copied, _). length dst - copied)")
  fix m :: ram and dst :: "u8 list" and root copied src_va pa x xa va'
  assume "\<not> length dst \<le> copied" and x: "x = page_offset src_va" and xa: "xa = min (PGSIZE - x) (length dst - copied)"
  moreover have "0 < xa" using page_offset_less [of src_va] calculation by simp
  moreover have "length (write_at dst copied (load m (pa + x) xa)) = length dst" using calculation by simp
  ultimately show "((m, root, write_at dst copied (load m (pa + x) xa), copied + xa, va'), m, root, dst, copied, src_va)
      \<in> measure (\<lambda>(_, _, dst, copied, _). length dst - copied)"
    by simp
qed simp

declare copyin_loop.simps [simp del]

definition copyin :: "ram \<Rightarrow> usize \<Rightarrow> u8 list \<Rightarrow> usize \<Rightarrow> ((copy_error + unit) \<times> u8 list) option" where
  "copyin m root dst src_va = copyin_loop m root dst 0 src_va"

function copyout_loop :: "usize \<Rightarrow> u8 list \<Rightarrow> ram \<Rightarrow> nat \<Rightarrow> usize \<Rightarrow> ((copy_error + unit) \<times> ram) option" where
  "copyout_loop root src m copied dst_va =
     (if length src \<le> copied then Some (Inr (), m)
      else case user_pte m root PTE_W dst_va of
             Inl e \<Rightarrow> Some (Inl e, m)
           | Inr pa \<Rightarrow>
               let off = page_offset dst_va;
                   n = min (PGSIZE - off) (length src - copied)
               in case uadd dst_va n of
                    None \<Rightarrow> None
                  | Some va' \<Rightarrow> copyout_loop root src (store m (pa + off) (take n (drop copied src))) (copied + n) va')"
  by pat_completeness auto
termination
proof (relation "measure (\<lambda>(_, src, _, copied, _). length src - copied)")
  fix src :: "u8 list" and root copied dst_va pa x xa va' and m :: ram
  assume "\<not> length src \<le> copied" and x: "x = page_offset dst_va" and xa: "xa = min (PGSIZE - x) (length src - copied)"
  moreover have "0 < xa" using page_offset_less [of dst_va] calculation by simp
  ultimately show "((root, src, store m (pa + x) (take xa (drop copied src)), copied + xa, va'), root, src, m, copied, dst_va)
      \<in> measure (\<lambda>(_, src, _, copied, _). length src - copied)"
    by simp
qed simp

declare copyout_loop.simps [simp del]

definition copyout :: "ram \<Rightarrow> usize \<Rightarrow> usize \<Rightarrow> u8 list \<Rightarrow> ((copy_error + unit) \<times> ram) option" where
  "copyout m root dst_va src = copyout_loop root src m 0 dst_va"

text \<open>The inner loop of \<open>copyin_str\<close>: bytes of one page until a zero byte, the page or the buffer ends.\<close>

function str_page :: "ram \<Rightarrow> usize \<Rightarrow> u8 list \<Rightarrow> nat \<Rightarrow> nat \<Rightarrow> bool \<times> u8 list \<times> nat" where
  "str_page m pa dst copied off =
     (if off < PGSIZE \<and> copied < length dst then
        let byte = m (pa + off);
            dst = dst[copied := byte]
        in if byte = 0 then (True, dst, copied + 1) else str_page m pa dst (copied + 1) (off + 1)
      else (False, dst, copied))"
  by pat_completeness auto
termination
  by (relation "measure (\<lambda>(_, _, dst, copied, _). length dst - copied)") auto

declare str_page.simps [simp del]

lemma str_page_step:
  "str_page m pa dst copied off = (r, dst', c) \<Longrightarrow> length dst' = length dst \<and> copied \<le> c"
proof (induction m pa dst copied off rule: str_page.induct)
  case (1 m pa dst copied off)
  show ?case
    using 1(2) 1(1) [OF _ refl refl] unfolding str_page.simps [of m pa dst copied off]
    by (fastforce simp: Let_def split: if_splits)
qed

lemma str_page_progress:
  assumes "str_page m pa dst copied off = (r, dst', c)" and "copied < length dst" and "off < PGSIZE"
  shows "copied < c \<and> length dst' = length dst"
proof (cases "m (pa + off) = 0")
  case False
  then have "str_page m pa (dst[copied := m (pa + off)]) (copied + 1) (off + 1) = (r, dst', c)"
    using assms by (subst (asm) str_page.simps) (simp add: Let_def)
  from str_page_step [OF this] show ?thesis by simp
qed (use assms in \<open>auto simp: str_page.simps [of m pa dst copied off] Let_def\<close>)

function copyin_str_loop :: "ram \<Rightarrow> usize \<Rightarrow> u8 list \<Rightarrow> nat \<Rightarrow> usize \<Rightarrow> ((copy_error + usize) \<times> u8 list) option" where
  "copyin_str_loop m root dst copied src_va =
     (if length dst \<le> copied then Some (Inl TooLong, dst)
      else let page_base = align_down src_va in
        case user_pte m root PTE_R src_va of
          Inl e \<Rightarrow> Some (Inl e, dst)
        | Inr pa \<Rightarrow>
            (case str_page m pa dst copied (page_offset src_va) of
               (fin, dst', copied') \<Rightarrow>
                 if fin then Some (Inr copied', dst')
                 else case uadd page_base PGSIZE of
                        None \<Rightarrow> None
                      | Some va' \<Rightarrow> copyin_str_loop m root dst' copied' va'))"
  by pat_completeness auto
termination
  by (relation "measure (\<lambda>(_, _, dst, copied, _). length dst - copied)")
    (auto dest!: str_page_progress [OF sym _ page_offset_less])

declare copyin_str_loop.simps [simp del]

definition copyin_str :: "ram \<Rightarrow> usize \<Rightarrow> u8 list \<Rightarrow> usize \<Rightarrow> ((copy_error + usize) \<times> u8 list) option" where
  "copyin_str m root dst src_va = copyin_str_loop m root dst 0 src_va"

section \<open>Byte-wise reading\<close>

definition user_byte :: "ram \<Rightarrow> usize \<Rightarrow> nat \<Rightarrow> usize \<Rightarrow> copy_error + usize" where
  "user_byte m root perm va = (case user_pte m root perm va of Inl e \<Rightarrow> Inl e | Inr pa \<Rightarrow> Inr (pa + va mod PGSIZE))"

definition pte_access :: "nat \<Rightarrow> nat \<Rightarrow> copy_error + usize" where
  "pte_access perm pte =
     (if \<not> is_valid pte \<or> \<not> is_leaf pte \<or> get_flags pte AND 0xE = 0 then Inl NotMapped
      else if get_flags pte AND PTE_U = 0 \<or> get_flags pte AND perm = 0 then Inl NoPerm
      else Inr (pte_to_pa pte))"

lemma pt_get_align: "va < 2 ^ 64 \<Longrightarrow> pt_get m root (align_down va) = pt_get m root va"
  by (simp only: pt_get_def vpn_align)

lemma align_down_VA_MAX: "va < 2 ^ 64 \<Longrightarrow> VA_MAX \<le> align_down va \<longleftrightarrow> VA_MAX \<le> va"
proof -
  assume va: "va < 2 ^ 64"
  have "VA_MAX mod PGSIZE = 0" by (simp add: VA_MAX_eq PGSIZE_def)
  then have "align_down va < VA_MAX \<longleftrightarrow> align_down va + PGSIZE \<le> VA_MAX"
    using align_down_aligned [OF va] by (rule page_less [rotated])
  moreover have "va < align_down va + PGSIZE" "align_down va \<le> va"
    using align_down_eq [OF va] mod_less_divisor [of PGSIZE va] by (auto simp: PGSIZE_def)
  ultimately show ?thesis by linarith
qed

text \<open>The checks depend on the last-level entry only.\<close>

lemma user_pte_eq:
  "va < 2 ^ 64 \<Longrightarrow> user_pte m root perm va = pte_access perm (if va < VA_MAX then pt_get m root va else 0)"
proof -
  assume va: "va < 2 ^ 64"
  show ?thesis
  proof (cases "pt_lookup m root (align_down va)")
    case None
    then have "va < VA_MAX \<Longrightarrow> pt_get m root va = 0"
      using align_down_VA_MAX [OF va]
      by (auto simp: pt_lookup_eq pt_get_def vpn_align [OF va] simp del: table_at.simps split: if_splits)
    then show ?thesis using None by (simp add: user_pte_def pte_access_def is_valid_eq)
  next
    case (Some p)
    then have "va < VA_MAX" "read_u64 m p = pt_get m root va"
      using pt_lookup_get(1,3) [OF Some] align_down_VA_MAX [OF va] pt_get_align [OF va] by auto
    then show ?thesis using Some by (simp add: user_pte_def pte_access_def Let_def)
  qed
qed

lemma same_page:
  assumes "va < 2 ^ 64" "va mod PGSIZE + j < PGSIZE" "va + j < 2 ^ 64"
  shows "user_pte m root perm (va + j) = user_pte m root perm va" "(va + j) mod PGSIZE = va mod PGSIZE + j"
proof -
  have "(va mod PGSIZE + j) div PGSIZE = 0" using assms(2) by simp
  then have d: "(va + j) div PGSIZE = va div PGSIZE"
    by (metis add_0_right div_mult_mod_eq div_mult_self3 add.assoc PGSIZE_def zero_neq_numeral)
  show "(va + j) mod PGSIZE = va mod PGSIZE + j" using assms(2) by (metis mod_add_left_eq mod_less)
  have "align_down (va + j) = align_down va" using assms d by (simp add: align_down_div)
  then show "user_pte m root perm (va + j) = user_pte m root perm va" by (simp add: user_pte_def)
qed

text \<open>
  The outcome of copying \<open>n\<close> bytes of which byte \<open>i\<close> lives at \<open>f i\<close>: success when all may be accessed,
  otherwise the error of the first that may not; \<open>P\<close> holds of the bytes before it.
\<close>

definition copied_prefix :: "(nat \<Rightarrow> copy_error + usize) \<Rightarrow> (nat \<Rightarrow> usize \<Rightarrow> bool) \<Rightarrow> nat \<Rightarrow> copy_error + unit \<Rightarrow> bool" where
  "copied_prefix f P n r \<longleftrightarrow> (case r of
     Inr _ \<Rightarrow> \<forall>i < n. \<exists>pa. f i = Inr pa \<and> P i pa
   | Inl e \<Rightarrow> \<exists>k < n. f k = Inl e \<and> (\<forall>i < k. \<exists>pa. f i = Inr pa \<and> P i pa))"

lemma copied_prefix_fail: "0 < n \<Longrightarrow> f 0 = Inl e \<Longrightarrow> copied_prefix f P n (Inl e)"
  by (auto simp: copied_prefix_def)

lemma copied_prefix_step:
  assumes "c \<le> n" and head: "\<And>i. i < c \<Longrightarrow> \<exists>pa. f i = Inr pa \<and> P i pa"
    and tail: "copied_prefix (\<lambda>i. f (c + i)) (\<lambda>i. P (c + i)) (n - c) r"
  shows "copied_prefix f P n r"
proof -
  have split: "\<exists>pa. f i = Inr pa \<and> P i pa"
    if "\<forall>j < k. \<exists>pa. f (c + j) = Inr pa \<and> P (c + j) pa" "i < c + k" for i k
    using that head [of i] by (cases "i < c") (auto dest!: spec [of _ "i - c"])
  show ?thesis
  proof (cases r)
    case (Inl e)
    then obtain k where k: "k < n - c" "f (c + k) = Inl e" "\<forall>i < k. \<exists>pa. f (c + i) = Inr pa \<and> P (c + i) pa"
      using tail by (auto simp: copied_prefix_def)
    moreover have "c + k < n" using k(1) by simp
    ultimately show ?thesis using split [OF k(3)] Inl unfolding copied_prefix_def by auto
  next
    case (Inr u)
    then show ?thesis using tail split [of "n - c"] assms(1) by (simp add: copied_prefix_def)
  qed
qed

lemma user_byte_page:
  assumes "va < 2 ^ 64" "va mod PGSIZE + j < PGSIZE" "va + j < 2 ^ 64" "user_pte m root perm va = Inr pa"
  shows "user_byte m root perm (va + j) = Inr (pa + va mod PGSIZE + j)"
  using same_page [OF assms(1-3)] assms(4) by (simp add: user_byte_def)

lemma nth_write_at:
  assumes "i + length bs \<le> length dst" "k < length dst"
  shows "write_at dst i bs ! k = (if k < i then dst ! k else if k < i + length bs then bs ! (k - i) else dst ! k)"
  using assms by (auto simp: write_at_def nth_append min_def)

lemma copyin_loop_spec:
  assumes "copied \<le> length dst" and "va + (length dst - copied) < 2 ^ 64"
  shows "\<exists>r dst'. copyin_loop m root dst copied va = Some (r, dst') \<and> length dst' = length dst \<and>
    (\<forall>i < copied. dst' ! i = dst ! i) \<and>
    copied_prefix (\<lambda>i. user_byte m root PTE_R (va + i)) (\<lambda>i pa. dst' ! (copied + i) = m pa) (length dst - copied) r"
  using assms
proof (induction "length dst - copied" arbitrary: dst copied va rule: less_induct)
  case less
  show ?case
  proof (cases "copied = length dst")
    case True
    then show ?thesis by (simp add: copyin_loop.simps [of m root dst] copied_prefix_def)
  next
    case False
    then have lt: "copied < length dst" using less.prems(1) by simp
    show ?thesis
    proof (cases "user_pte m root PTE_R va")
      case (Inl e)
      then show ?thesis using lt
        by (auto simp: copyin_loop.simps [of m root dst] user_byte_def intro!: copied_prefix_fail)
    next
      case (Inr pa)
      define off n where "off = page_offset va" and "n = min (PGSIZE - off) (length dst - copied)"
      define d where "d = write_at dst copied (load m (pa + off) n)"
      have off: "off = va mod PGSIZE" "off < PGSIZE" using page_offset_less [of va] by (simp_all add: off_def page_offset_eq)
      have n: "0 < n" "n \<le> length dst - copied" "off + n \<le> PGSIZE" using lt off by (auto simp: n_def)
      have ld: "length d = length dst" using n by (simp add: d_def)
      have "uadd va n = Some (va + n)" using n less.prems(2) by (simp add: cadd_def)
      then have "copyin_loop m root dst copied va = copyin_loop m root d (copied + n) (va + n)"
        using lt Inr by (simp add: copyin_loop.simps [of m root dst] d_def Let_def flip: off_def n_def)
      moreover have "length d - (copied + n) < length dst - copied" "copied + n \<le> length d"
        "va + n + (length d - (copied + n)) < 2 ^ 64" using n lt less.prems(2) by (auto simp: ld)
      from less.hyps [OF this] obtain r dst' where
        r: "copyin_loop m root d (copied + n) (va + n) = Some (r, dst')" "length dst' = length d"
        "\<forall>i < copied + n. dst' ! i = d ! i"
        "copied_prefix (\<lambda>i. user_byte m root PTE_R (va + n + i)) (\<lambda>i pa. dst' ! (copied + n + i) = m pa) (length d - (copied + n)) r"
        by blast
      moreover have "dst' ! i = dst ! i" if "i < copied" for i
        using that r(3) n by (simp add: d_def nth_write_at)
      moreover have "copied_prefix (\<lambda>i. user_byte m root PTE_R (va + i)) (\<lambda>i pa. dst' ! (copied + i) = m pa) (length dst - copied) r"
      proof (rule copied_prefix_step [OF n(2)])
        fix i assume i: "i < n"
        have "user_byte m root PTE_R (va + i) = Inr (pa + off + i)"
          using user_byte_page [of va i m root PTE_R pa] i n less.prems(2) Inr off by simp
        moreover have "dst' ! (copied + i) = m (pa + off + i)"
          using r(3) i n by (simp add: d_def nth_write_at)
        ultimately show "\<exists>pa. user_byte m root PTE_R (va + i) = Inr pa \<and> dst' ! (copied + i) = m pa" by blast
      qed (use r(4) ld in \<open>simp add: add.assoc\<close>)
      ultimately show ?thesis using ld by auto
    qed
  qed
qed

section \<open>Copying out\<close>

text \<open>
  What a copy to user space relies on: the tables are well formed, no frame the user may write is one
  of the tables, and different user pages have different frames.
\<close>

definition user_space_ok :: "usize set \<Rightarrow> ram \<Rightarrow> usize \<Rightarrow> bool" where
  "user_space_ok own m root \<longleftrightarrow> pt_wf own m root \<and> (\<forall>t \<in> own. t mod PGSIZE = 0) \<and>
     (\<forall>va pa. va < 2 ^ 64 \<longrightarrow> user_pte m root PTE_W va = Inr pa \<longrightarrow> pa \<notin> pt_tables m root) \<and>
     (\<forall>va va' pa. va < 2 ^ 64 \<longrightarrow> va' < 2 ^ 64 \<longrightarrow> user_pte m root PTE_W va = Inr pa \<longrightarrow>
        user_pte m root PTE_W va' = Inr pa \<longrightarrow> va div PGSIZE = va' div PGSIZE)"

lemma user_pte_aligned: "va < 2 ^ 64 \<Longrightarrow> user_pte m root perm va = Inr pa \<Longrightarrow> pa mod PGSIZE = 0"
  by (auto simp: user_pte_eq pte_access_def pte_to_pa_aligned split: if_splits)

lemma store_user_page:
  assumes ok: "user_space_ok own m root" and va: "va < 2 ^ 64" and pte: "user_pte m root PTE_W va = Inr pa"
    and n: "off + length bs \<le> PGSIZE" and m1: "m1 = store m (pa + off) bs"
  shows "user_space_ok own m1 root" "va' < 2 ^ 64 \<Longrightarrow> user_pte m1 root perm va' = user_pte m root perm va'"
    "pt_tables m1 root = pt_tables m root"
proof -
  have wf: "pt_wf own m root" and al: "\<forall>t \<in> own. t mod PGSIZE = 0" and apart: "pa \<notin> pt_tables m root"
    using ok va pte by (auto simp: user_space_ok_def)
  have same: "agree_on (pt_tables m root) m m1"
  proof (rule agree_onI)
    fix t x assume t: "t \<in> pt_tables m root" "t \<le> x" "x < t + PGSIZE"
    then have "t mod PGSIZE = 0" "t \<noteq> pa" using wf al apart by (auto simp: pt_wf_def)
    then have "t + PGSIZE \<le> pa \<or> pa + PGSIZE \<le> t" by (intro pages_apart user_pte_aligned [OF va pte])
    then show "m1 x = m x" unfolding m1 using t n by (intro store_outside) auto
  qed
  note cong = pt_cong [OF wf same]
  show tabs: "pt_tables m1 root = pt_tables m root" by (rule cong(3))
  have up: "user_pte m1 root perm va' = user_pte m root perm va'" if "va' < 2 ^ 64" for perm va'
    using that cong(2) by (simp add: user_pte_eq)
  then show "va' < 2 ^ 64 \<Longrightarrow> user_pte m1 root perm va' = user_pte m root perm va'" .
  show "user_space_ok own m1 root"
    unfolding user_space_ok_def tabs
  proof (intro conjI allI impI)
    show "pt_wf own m1 root" "\<forall>t \<in> own. t mod PGSIZE = 0" by (fact cong(1), fact al)
    fix va pa assume "va < 2 ^ 64" "user_pte m1 root PTE_W va = Inr pa"
    then show "pa \<notin> pt_tables m root" using ok up [of va] by (auto simp: user_space_ok_def)
  next
    fix va va' pa assume "va < 2 ^ 64" "va' < 2 ^ 64" "user_pte m1 root PTE_W va = Inr pa" "user_pte m1 root PTE_W va' = Inr pa"
    then show "va div PGSIZE = va' div PGSIZE" using ok up [of va] up [of va'] unfolding user_space_ok_def by metis
  qed
qed

lemma user_byte_cong:
  "user_pte m1 root perm va = user_pte m root perm va \<Longrightarrow> user_byte m1 root perm va = user_byte m root perm va"
  by (simp add: user_byte_def)

lemma user_byte_inj:
  assumes ok: "user_space_ok own m root" and va: "va < 2 ^ 64" "va' < 2 ^ 64"
    and b: "user_byte m root PTE_W va = Inr x" "user_byte m root PTE_W va' = Inr x"
  shows "va = va'"
proof -
  obtain pa pa' where p: "user_pte m root PTE_W va = Inr pa" "user_pte m root PTE_W va' = Inr pa'"
    "x = pa + va mod PGSIZE" "x = pa' + va' mod PGSIZE"
    using b by (auto simp: user_byte_def split: sum.splits)
  have al: "pa mod PGSIZE = 0" "pa' mod PGSIZE = 0"
    by (rule user_pte_aligned [OF va(1) p(1)], rule user_pte_aligned [OF va(2) p(2)])
  have lt: "va mod PGSIZE < PGSIZE" "va' mod PGSIZE < PGSIZE" by (simp_all add: PGSIZE_def)
  have "pa = pa'" using pages_apart [OF al] p(3,4) lt by linarith
  then have "va div PGSIZE = va' div PGSIZE" using ok va p(1,2) unfolding user_space_ok_def by metis
  moreover have "va mod PGSIZE = va' mod PGSIZE" using p(3,4) \<open>pa = pa'\<close> by simp
  ultimately show ?thesis by (metis div_mult_mod_eq)
qed

lemma copyout_loop_spec:
  assumes "user_space_ok own m root" and "copied \<le> length src" and "va + (length src - copied) < 2 ^ 64"
  shows "\<exists>r m'. copyout_loop root src m copied va = Some (r, m') \<and> user_space_ok own m' root \<and>
    (\<forall>va' < 2 ^ 64. \<forall>perm. user_pte m' root perm va' = user_pte m root perm va') \<and>
    (\<forall>x. (\<forall>i < length src - copied. user_byte m root PTE_W (va + i) \<noteq> Inr x) \<longrightarrow> m' x = m x) \<and>
    copied_prefix (\<lambda>i. user_byte m root PTE_W (va + i)) (\<lambda>i pa. m' pa = src ! (copied + i)) (length src - copied) r"
  using assms
proof (induction "length src - copied" arbitrary: m copied va rule: less_induct)
  case less
  note ok = less.prems(1)
  show ?case
  proof (cases "copied = length src")
    case True
    then show ?thesis using ok by (simp add: copyout_loop.simps [of root src] copied_prefix_def)
  next
    case False
    then have lt: "copied < length src" using less.prems(2) by simp
    have va: "va < 2 ^ 64" using less.prems(3) by simp
    show ?thesis
    proof (cases "user_pte m root PTE_W va")
      case (Inl e)
      then show ?thesis using lt ok
        by (auto simp: copyout_loop.simps [of root src] user_byte_def intro!: copied_prefix_fail)
    next
      case (Inr pa)
      define off n where "off = page_offset va" and "n = min (PGSIZE - off) (length src - copied)"
      define bs where "bs = take n (drop copied src)"
      define m1 where "m1 = store m (pa + off) bs"
      have off: "off = va mod PGSIZE" "off < PGSIZE" using page_offset_less [of va] by (simp_all add: off_def page_offset_eq)
      have n: "0 < n" "n \<le> length src - copied" "off + n \<le> PGSIZE" using lt off by (auto simp: n_def)
      have bs: "length bs = n" "\<And>i. i < n \<Longrightarrow> bs ! i = src ! (copied + i)" using n by (auto simp: bs_def)
      have "uadd va n = Some (va + n)" using n less.prems(3) by (simp add: cadd_def)
      then have step: "copyout_loop root src m copied va = copyout_loop root src m1 (copied + n) (va + n)"
        using lt Inr by (simp add: copyout_loop.simps [of root src m] m1_def bs_def Let_def flip: off_def n_def)
      have "off + length bs \<le> PGSIZE" using n bs by simp
      note st = store_user_page [OF ok va Inr this m1_def]
      have ub: "user_byte m1 root PTE_W (va + n + i) = user_byte m root PTE_W (va + n + i)"
        if "i < length src - (copied + n)" for i
        using that n less.prems(3) by (intro user_byte_cong st(2)) simp
      have "length src - (copied + n) < length src - copied" "copied + n \<le> length src"
        "va + n + (length src - (copied + n)) < 2 ^ 64" using n lt less.prems(3) by auto
      from less.hyps [OF this(1) st(1) this(2,3)] obtain r m' where
        r: "copyout_loop root src m1 (copied + n) (va + n) = Some (r, m')" "user_space_ok own m' root"
        "\<forall>va' < 2 ^ 64. \<forall>perm. user_pte m' root perm va' = user_pte m1 root perm va'"
        "\<forall>x. (\<forall>i < length src - (copied + n). user_byte m1 root PTE_W (va + n + i) \<noteq> Inr x) \<longrightarrow> m' x = m1 x"
        "copied_prefix (\<lambda>i. user_byte m1 root PTE_W (va + n + i)) (\<lambda>i pa. m' pa = src ! (copied + n + i)) (length src - (copied + n)) r"
        by blast
      have here: "user_byte m root PTE_W (va + i) = Inr (pa + off + i)" if "i < n" for i
        using user_byte_page [of va i m root PTE_W pa] that n less.prems(3) Inr off by simp
      have later: "user_byte m root PTE_W (va + n + j) \<noteq> Inr (pa + off + i)"
        if "i < n" "j < length src - (copied + n)" for i j
      proof -
        have "va + n + j < 2 ^ 64" "va + i < 2 ^ 64" using that n lt less.prems(3) by arith+
        then show ?thesis using user_byte_inj [OF ok _ _ here [OF that(1)], of "va + n + j"] that(1) by auto
      qed
      have frame: "m' x = m x" if "\<forall>i < length src - copied. user_byte m root PTE_W (va + i) \<noteq> Inr x" for x
      proof -
        have "user_byte m1 root PTE_W (va + n + i) \<noteq> Inr x" if "i < length src - (copied + n)" for i
          using \<open>\<forall>i < length src - copied. _ i\<close> [rule_format, of "n + i"] that n ub [OF that] by (simp add: add.assoc)
        then have "m' x = m1 x" using r(4) by blast
        moreover have "x < pa + off \<or> pa + off + n \<le> x"
        proof (rule ccontr)
          assume "\<not> ?thesis"
          then obtain k where k: "x = pa + off + k" "k < n"
            by (metis add_less_cancel_left le_add_diff_inverse linorder_not_le)
          then show False using here [OF k(2)] that [rule_format, of k] n by simp
        qed
        ultimately show ?thesis by (auto simp: m1_def bs(1))
      qed
      have "copied_prefix (\<lambda>i. user_byte m root PTE_W (va + i)) (\<lambda>i pa. m' pa = src ! (copied + i)) (length src - copied) r"
      proof (rule copied_prefix_step [OF n(2)])
        fix i assume i: "i < n"
        have "m' (pa + off + i) = m1 (pa + off + i)" using r(4) later [OF i] ub by simp
        also have "\<dots> = src ! (copied + i)" using i bs by (simp add: m1_def store_def)
        finally show "\<exists>pa. user_byte m root PTE_W (va + i) = Inr pa \<and> m' pa = src ! (copied + i)"
          using here [OF i] by blast
      qed (use r(5) ub in \<open>simp add: add.assoc copied_prefix_def cong: conj_cong split: sum.splits\<close>)
      then show ?thesis using step r(1-3) st(2) frame by auto
    qed
  qed
qed

section \<open>Copying a string\<close>

lemma str_page_spec:
  assumes "str_page m pa dst copied off = (fin, dst', c)" and "copied \<le> length dst" and "off \<le> PGSIZE"
  shows "copied \<le> c \<and> c \<le> length dst \<and> off + (c - copied) \<le> PGSIZE \<and> length dst' = length dst \<and>
    (\<forall>i < copied. dst' ! i = dst ! i) \<and> (\<forall>i < c - copied. dst' ! (copied + i) = m (pa + off + i)) \<and>
    (if fin then \<exists>k. c = copied + k + 1 \<and> m (pa + off + k) = 0 \<and> (\<forall>i < k. m (pa + off + i) \<noteq> 0)
     else (\<forall>i < c - copied. m (pa + off + i) \<noteq> 0) \<and> (off + (c - copied) = PGSIZE \<or> c = length dst))"
  using assms
proof (induction m pa dst copied off rule: str_page.induct)
  case (1 m pa dst copied off)
  note eq = 1(2) [unfolded str_page.simps [of m pa dst copied off]]
  show ?case
  proof (cases "off < PGSIZE \<and> copied < length dst")
    case False
    then show ?thesis using eq 1(3,4) by auto
  next
    case True
    let ?b = "m (pa + off)" and ?d = "dst[copied := m (pa + off)]"
    show ?thesis
    proof (cases "?b = 0")
      case zero: True
      then have "fin" "dst' = ?d" "c = copied + 1" using eq True by auto
      then show ?thesis using zero True by auto
    next
      case False
      then have rec: "str_page m pa ?d (copied + 1) (off + 1) = (fin, dst', c)" using eq True by (simp add: Let_def)
      have ih: "copied + 1 \<le> c" "c \<le> length dst" "off + 1 + (c - (copied + 1)) \<le> PGSIZE" "length dst' = length dst"
        "\<forall>i < copied + 1. dst' ! i = ?d ! i" "\<forall>i < c - (copied + 1). dst' ! (copied + 1 + i) = m (pa + (off + 1) + i)"
        "if fin then \<exists>k. c = copied + 1 + k + 1 \<and> m (pa + (off + 1) + k) = 0 \<and> (\<forall>i < k. m (pa + (off + 1) + i) \<noteq> 0)
         else (\<forall>i < c - (copied + 1). m (pa + (off + 1) + i) \<noteq> 0) \<and> (off + 1 + (c - (copied + 1)) = PGSIZE \<or> c = length dst)"
        using 1(1) [OF True refl refl False rec] True by auto
      have bytes: "dst' ! (copied + i) = m (pa + off + i)" if "i < c - copied" for i
        using that ih(1,5,6) True by (cases i) auto
      have nz: "m (pa + off + i) \<noteq> 0" if "\<forall>j < k. m (pa + (off + 1) + j) \<noteq> 0" "i < k + 1" for i k
        using that False by (cases i) auto
      have "if fin then \<exists>k. c = copied + k + 1 \<and> m (pa + off + k) = 0 \<and> (\<forall>i < k. m (pa + off + i) \<noteq> 0)
        else (\<forall>i < c - copied. m (pa + off + i) \<noteq> 0) \<and> (off + (c - copied) = PGSIZE \<or> c = length dst)"
      proof (cases fin)
        case True
        then obtain k where "c = copied + 1 + k + 1" "m (pa + (off + 1) + k) = 0" "\<forall>i < k. m (pa + (off + 1) + i) \<noteq> 0"
          using ih(7) by auto
        then show ?thesis using nz [of k] True by (auto intro!: exI [of _ "k + 1"])
      next
        case False
        then show ?thesis using ih(1,7) nz [of "c - (copied + 1)"] by auto
      qed
      moreover have "\<forall>i < copied. dst' ! i = dst ! i" using ih(5) by simp
      ultimately show ?thesis using ih(1-4) bytes by auto
    qed
  qed
qed

text \<open>
  The outcome of reading a string of at most \<open>n\<close> bytes: success with its length and the terminator,
  the error of the first byte that may not be read, or \<open>TooLong\<close> when no terminator is among them.
\<close>

definition string_result :: "(nat \<Rightarrow> copy_error + usize) \<Rightarrow> ram \<Rightarrow> (nat \<Rightarrow> u8) \<Rightarrow> nat \<Rightarrow> copy_error + nat \<Rightarrow> bool" where
  "string_result f m d n r \<longleftrightarrow> (case r of
     Inr c \<Rightarrow> \<exists>k < n. c = k + 1 \<and> d k = 0 \<and> (\<exists>pa. f k = Inr pa \<and> d k = m pa) \<and> (\<forall>i < k. \<exists>pa. f i = Inr pa \<and> d i = m pa \<and> d i \<noteq> 0)
   | Inl e \<Rightarrow> (\<exists>k < n. f k = Inl e \<and> (\<forall>i < k. \<exists>pa. f i = Inr pa \<and> d i = m pa \<and> d i \<noteq> 0)) \<or>
       e = TooLong \<and> (\<forall>i < n. \<exists>pa. f i = Inr pa \<and> d i = m pa \<and> d i \<noteq> 0))"

lemma string_result_fail: "0 < n \<Longrightarrow> f 0 = Inl e \<Longrightarrow> string_result f m d n (Inl e)"
  by (auto simp: string_result_def)

lemma string_result_step:
  assumes "c \<le> n" and head: "\<And>i. i < c \<Longrightarrow> \<exists>pa. f i = Inr pa \<and> d i = m pa \<and> d i \<noteq> 0"
    and tail: "string_result (\<lambda>i. f (c + i)) m (\<lambda>i. d (c + i)) (n - c) r"
  shows "string_result f m d n (map_sum id (\<lambda>k. c + k) r)"
proof -
  have split: "\<exists>pa. f i = Inr pa \<and> d i = m pa \<and> d i \<noteq> 0"
    if "\<forall>j < k. \<exists>pa. f (c + j) = Inr pa \<and> d (c + j) = m pa \<and> d (c + j) \<noteq> 0" "i < c + k" for i k
    using that head [of i] by (cases "i < c") (auto dest!: spec [of _ "i - c"])
  show ?thesis
  proof (cases r)
    case (Inr l)
    then obtain k where k: "k < n - c" "l = k + 1" "d (c + k) = 0" "\<exists>pa. f (c + k) = Inr pa \<and> d (c + k) = m pa"
      "\<forall>i < k. \<exists>pa. f (c + i) = Inr pa \<and> d (c + i) = m pa \<and> d (c + i) \<noteq> 0"
      using tail unfolding string_result_def by auto
    then show ?thesis using split [OF k(5)] Inr unfolding string_result_def by (auto intro!: exI [of _ "c + k"])
  next
    case (Inl e)
    then consider k where "k < n - c" "f (c + k) = Inl e" "\<forall>i < k. \<exists>pa. f (c + i) = Inr pa \<and> d (c + i) = m pa \<and> d (c + i) \<noteq> 0"
      | "e = TooLong" "\<forall>i < n - c. \<exists>pa. f (c + i) = Inr pa \<and> d (c + i) = m pa \<and> d (c + i) \<noteq> 0"
      using tail unfolding string_result_def by auto
    then show ?thesis
    proof cases
      case (1 k)
      then have "c + k < n" by simp
      then show ?thesis using split [OF 1(3)] 1(2) Inl unfolding string_result_def by auto
    next
      case 2
      then show ?thesis using split [OF 2(2)] Inl assms(1) unfolding string_result_def by auto
    qed
  qed
qed

lemma copyin_str_loop_spec:
  assumes "copied \<le> length dst" and "va + (length dst - copied) + PGSIZE < 2 ^ 64"
  shows "\<exists>r dst'. copyin_str_loop m root dst copied va = Some (map_sum id (\<lambda>k. copied + k) r, dst') \<and> length dst' = length dst \<and>
    (\<forall>i < copied. dst' ! i = dst ! i) \<and>
    string_result (\<lambda>i. user_byte m root PTE_R (va + i)) m (\<lambda>i. dst' ! (copied + i)) (length dst - copied) r"
  using assms
proof (induction "length dst - copied" arbitrary: dst copied va rule: less_induct)
  case less
  show ?case
  proof (cases "copied = length dst")
    case True
    then show ?thesis by (auto simp: copyin_str_loop.simps [of m root dst] string_result_def intro!: exI [of _ "Inl TooLong"])
  next
    case False
    then have lt: "copied < length dst" using less.prems(1) by simp
    have va: "va < 2 ^ 64" using less.prems(2) by simp
    show ?thesis
    proof (cases "user_pte m root PTE_R va")
      case (Inl e)
      then show ?thesis using lt
        by (auto simp: copyin_str_loop.simps [of m root dst] user_byte_def Let_def
          intro!: exI [of _ "Inl e"] string_result_fail)
    next
      case (Inr pa)
      let ?off = "page_offset va"
      have off: "?off = va mod PGSIZE" "?off < PGSIZE" using page_offset_less [of va] by (simp_all add: page_offset_eq)
      obtain fin d c where pg: "str_page m pa dst copied ?off = (fin, d, c)" by (metis prod_cases3)
      define k where "k = c - copied"
      note sp = str_page_spec [OF pg less.prems(1) less_imp_le [OF off(2)]]
      have c: "c = copied + k" "c \<le> length dst" "?off + k \<le> PGSIZE" "length d = length dst" "\<forall>i < copied. d ! i = dst ! i"
        "\<forall>i < k. d ! (copied + i) = m (pa + ?off + i)"
        using sp by (auto simp: k_def)
      have "copied < c" using str_page_progress [OF pg lt off(2)] by simp
      have ub: "user_byte m root PTE_R (va + i) = Inr (pa + ?off + i)" if "i < k" for i
        using user_byte_page [OF va _ _ Inr, of i] that c(1-3) less.prems(2) off by simp
      have add: "uadd (align_down va) PGSIZE = Some (align_down va + PGSIZE)"
        using align_down_le [OF va] less.prems(2) by (simp add: cadd_def)
      note un = copyin_str_loop.simps [of m root dst copied va]
      show ?thesis
      proof (cases fin)
        case True
        then obtain j where j: "k = j + 1" "m (pa + ?off + j) = 0" "\<forall>i < j. m (pa + ?off + i) \<noteq> 0"
          using sp c(1) by auto
        then have "string_result (\<lambda>i. user_byte m root PTE_R (va + i)) m (\<lambda>i. d ! (copied + i)) (length dst - copied) (Inr k)"
          using c ub unfolding string_result_def by (auto intro!: exI [of _ j])
        moreover have "copyin_str_loop m root dst copied va = Some (Inr c, d)"
          using un lt Inr pg True by (simp add: Let_def)
        ultimately show ?thesis using c(1,4,5) by (intro exI [of _ "Inr k"] exI [of _ d]) simp
      next
        case False
        then have nz: "\<forall>i < k. m (pa + ?off + i) \<noteq> 0" "?off + k = PGSIZE \<or> c = length dst"
          using sp by (auto simp: k_def)
        have head: "\<exists>pa. user_byte m root PTE_R (va + i) = Inr pa \<and> d' ! (copied + i) = m pa \<and> d' ! (copied + i) \<noteq> 0"
          if "i < k" "\<forall>i < c. d' ! i = d ! i" for i d'
          using that ub c(1,6) nz(1) by simp
        have step: "copyin_str_loop m root dst copied va = copyin_str_loop m root d c (align_down va + PGSIZE)"
          using un lt Inr pg False add by (simp add: Let_def)
        show ?thesis
        proof (cases "c = length dst")
          case True
          then have "copyin_str_loop m root dst copied va = Some (Inl TooLong, d)"
            using step c(4) by (simp add: copyin_str_loop.simps [of m root d])
          moreover have "string_result (\<lambda>i. user_byte m root PTE_R (va + i)) m (\<lambda>i. d ! (copied + i)) (length dst - copied) (Inl TooLong)"
            using head [of _ d] True c(1) unfolding string_result_def by auto
          ultimately show ?thesis using c(4,5) by (intro exI [of _ "Inl TooLong"] exI [of _ d]) simp
        next
          case False
          then have "align_down va + PGSIZE = va + k"
            using nz(2) align_down_eq [OF va] off(1) mod_less_eq_dividend [of va PGSIZE] by linarith
          moreover have "length d - c < length dst - copied" "c \<le> length d" "va + k + (length d - c) + PGSIZE < 2 ^ 64"
            using \<open>copied < c\<close> lt c(1,2,4) less.prems(2) by auto
          from less.hyps [OF this] obtain r d' where
            r: "copyin_str_loop m root d c (va + k) = Some (map_sum id (\<lambda>k. c + k) r, d')" "length d' = length d"
            "\<forall>i < c. d' ! i = d ! i"
            "string_result (\<lambda>i. user_byte m root PTE_R (va + k + i)) m (\<lambda>i. d' ! (c + i)) (length d - c) r"
            by blast
          ultimately have "copyin_str_loop m root dst copied va = Some (map_sum id (\<lambda>k. copied + k) (map_sum id (\<lambda>j. k + j) r), d')"
            using step c(1) by (simp add: sum.map_comp o_def id_def add.assoc)
          moreover have "string_result (\<lambda>i. user_byte m root PTE_R (va + i)) m (\<lambda>i. d' ! (copied + i)) (length dst - copied) (map_sum id (\<lambda>j. k + j) r)"
            using head [OF _ r(3)] r(4) c by (intro string_result_step) (auto simp: add.assoc)
          ultimately show ?thesis using r(2,3) c(1,4,5) by (intro exI [of _ "map_sum id (\<lambda>j. k + j) r"] exI [of _ d']) simp
        qed
      qed
    qed
  qed
qed

section \<open>Properties\<close>

text \<open>C30. Copying in. For a buffer whose source range does not wrap, \<open>copyin\<close> returns: with success
  exactly when every byte of the range is readable by the user, and then the buffer holds those bytes;
  otherwise with the error of the first unreadable byte, the buffer holding the bytes before it.\<close>

theorem copyin_correct:
  assumes "va + length dst < 2 ^ 64"
  shows "\<exists>r dst'. copyin m root dst va = Some (r, dst') \<and> length dst' = length dst \<and>
    copied_prefix (\<lambda>i. user_byte m root PTE_R (va + i)) (\<lambda>i pa. dst' ! i = m pa) (length dst) r"
  using copyin_loop_spec [of 0 dst va m root] assms by (simp add: copyin_def)

theorem copyin_correct_witness:
  "\<exists>r dst'. copyin (\<lambda>_. 0) 0x80001000 [1, 2, 3] 0x10000 = Some (r, dst') \<and> length dst' = 3"
  using copyin_correct [of "0x10000" "[1, 2, 3]" "\<lambda>_. 0" "0x80001000"] by auto

text \<open>C29. Copying out. In a well-formed user space \<open>copyout\<close> returns: with success exactly when every
  byte of the range is writable by the user, and then memory holds the source bytes there; otherwise
  with the error of the first byte that is not. No byte outside the range changes, the page tables are
  untouched and the user space stays well formed.\<close>

theorem copyout_correct:
  assumes "user_space_ok own m root" and "va + length src < 2 ^ 64"
  shows "\<exists>r m'. copyout m root va src = Some (r, m') \<and> user_space_ok own m' root \<and>
    (\<forall>va' < 2 ^ 64. \<forall>perm. user_pte m' root perm va' = user_pte m root perm va') \<and>
    (\<forall>x. (\<forall>i < length src. user_byte m root PTE_W (va + i) \<noteq> Inr x) \<longrightarrow> m' x = m x) \<and>
    copied_prefix (\<lambda>i. user_byte m root PTE_W (va + i)) (\<lambda>i pa. m' pa = src ! i) (length src) r"
  using copyout_loop_spec [of own m root 0 src va] assms by (simp add: copyout_def)

text \<open>A user space with one read-write page at \<open>0x10000\<close>, backed by the frame \<open>0x10000000\<close>.\<close>

lemma example_user_space:
  "\<exists>root s. user_space_ok (live s) (mem s) root \<and>
    (\<forall>i < 4096. user_pte (mem s) root PTE_R (0x10000 + i) = Inr 0x10000000 \<and> user_pte (mem s) root PTE_W (0x10000 + i) = Inr 0x10000000)"
proof -
  obtain root s0 where s0: "pmem_inv s0" "pt_wf (live s0) (mem s0) root"
    "card (free_pages True s0) = 3" "\<forall>va. pt_get (mem s0) root va = 0"
    using example_root by blast
  note ex = example_map [OF s0]
  then obtain s where s: "pt_map root 0x10000 0x10000000 4096 0x16 s0 = Some (True, s)" by blast
  from kernel_frames.map_with_spec [OF s0(1,2) _ ex(3) _ s [unfolded pt_map_def]]
  have inv: "pmem_inv s" "pt_wf (live s) (mem s) root"
    and rng: "mapped_range (mem s0) (mem s) root 0x10000 0x11000 0x10000000 0x16"
    by (auto simp: pt_ext_def ex(1,2))
  have get: "pt_get (mem s) root va = (if align_down va = 0x10000 then pa_to_pte 0x10000000 (0x16 OR PTE_V) else 0)"
    if "va < VA_MAX" for va
  proof -
    have va: "va < 2 ^ 64" using that by (simp add: VA_MAX_eq)
    let ?a = "align_down va"
    have "?a mod PGSIZE = 0" "?a < VA_MAX" using align_down_aligned [OF va] align_down_le [OF va] that by auto
    moreover have "0x10000 \<le> ?a \<and> ?a < 0x11000 \<longleftrightarrow> ?a = 0x10000"
      using page_less [of "0x10000" ?a] calculation(1) by (auto simp: PGSIZE_def)
    ultimately have "pt_get (mem s) root ?a = (if ?a = 0x10000 then pa_to_pte 0x10000000 (0x16 OR PTE_V) else 0)"
      using rng s0(4) unfolding mapped_range_def by auto
    then show ?thesis using pt_get_align [OF va] by simp
  qed
  have acc: "pte_access PTE_R (pa_to_pte 0x10000000 (0x16 OR PTE_V)) = Inr 0x10000000"
    "pte_access PTE_W (pa_to_pte 0x10000000 (0x16 OR PTE_V)) = Inr 0x10000000" "pte_access PTE_W 0 = Inl NotMapped"
    using leaf_flags [of "0x16" "0x10000000"] pte_to_pa_pa_to_pte [of "0x10000000" "0x16 OR PTE_V"]
    by (simp_all add: pte_access_def get_flags_pa_to_pte PTE_defs is_valid_eq PGSIZE_def)
  have pte: "user_pte (mem s) root PTE_W va = (if va < VA_MAX \<and> align_down va = 0x10000 then Inr 0x10000000 else Inl NotMapped)"
    if "va < 2 ^ 64" for va
    using that get acc by (simp add: user_pte_eq)
  have "user_space_ok (live s) (mem s) root"
    unfolding user_space_ok_def
  proof (intro conjI allI impI ballI)
    fix t assume "t \<in> live s" then show "t mod PGSIZE = 0" by (rule live_page(3) [OF inv(1)])
  next
    fix va pa assume "va < 2 ^ 64" "user_pte (mem s) root PTE_W va = Inr pa"
    then have "pa = 0x10000000" using pte by (auto split: if_splits)
    then have "pa \<notin> live s" using live_page(1) [OF inv(1), of pa] by auto
    then show "pa \<notin> pt_tables (mem s) root" using inv(2) by (auto simp: pt_wf_def)
  next
    fix va va' pa assume v: "va < 2 ^ 64" "va' < 2 ^ 64" "user_pte (mem s) root PTE_W va = Inr pa" "user_pte (mem s) root PTE_W va' = Inr pa"
    then have "align_down va = align_down va'" using pte by (auto split: if_splits)
    then show "va div PGSIZE = va' div PGSIZE" using v(1,2) by (simp add: align_down_div PGSIZE_def)
  qed (rule inv(2))
  moreover have "user_pte (mem s) root PTE_R (0x10000 + i) = Inr 0x10000000 \<and> user_pte (mem s) root PTE_W (0x10000 + i) = Inr 0x10000000"
    if "i < 4096" for i
  proof -
    have "align_down (0x10000 + i) = 0x10000" "0x10000 + i < VA_MAX" using that by (simp_all add: align_down_div VA_MAX_eq PGSIZE_def)
    then show ?thesis using get [of "0x10000 + i"] acc by (simp add: user_pte_eq VA_MAX_eq)
  qed
  ultimately show ?thesis by blast
qed

lemma example_copyout:
  assumes "user_space_ok own m root" "\<forall>i < 4096. user_pte m root PTE_R (0x10000 + i) = Inr 0x10000000 \<and> user_pte m root PTE_W (0x10000 + i) = Inr 0x10000000"
  shows "\<exists>m'. copyout m root 0x10ABC [1, 2, 3] = Some (Inr (), m') \<and> m' 0x10000ABD = 2"
proof -
  have pte: "user_pte m root PTE_W (0x10ABC + i) = Inr 0x10000000" if "i < 3" for i
    using assms(2) [rule_format, of "0xABC + i"] that by simp
  obtain r m' where r: "copyout m root 0x10ABC [1, 2, 3] = Some (r, m')"
    "copied_prefix (\<lambda>i. user_byte m root PTE_W (0x10ABC + i)) (\<lambda>i pa. m' pa = [1, 2, 3] ! i) 3 r"
    using copyout_loop_spec [OF assms(1), of 0 "[1, 2, 3]" "0x10ABC"] by (auto simp: copyout_def numeral_3_eq_3)
  have ub: "user_byte m root PTE_W (0x10ABC + i) = Inr (0x10000ABC + i)" if "i < 3" for i
    using pte [OF that] that mod_mult_self1 [of "0xABC + i" 16 4096] by (simp add: user_byte_def PGSIZE_def)
  have "\<And>e. r \<noteq> Inl e" using r(2) ub by (force simp: copied_prefix_def)
  then have r': "r = Inr ()" by (cases r) auto
  then have "\<forall>i < 3. \<exists>pa. user_byte m root PTE_W (0x10ABC + i) = Inr pa \<and> m' pa = [1, 2, 3] ! i"
    using r(2) by (simp add: copied_prefix_def)
  from this [rule_format, of 1] have "m' 0x10000ABD = 2" using ub [of 1] by simp
  then show ?thesis using r(1) r' by blast
qed

theorem copyout_correct_witness:
  "\<exists>root m own m'. copyout m root 0x10ABC [1, 2, 3] = Some (Inr (), m') \<and> user_space_ok own m' root \<and> m' 0x10000ABD = 2"
proof -
  obtain root s where s: "user_space_ok (live s) (mem s) root"
    "\<forall>i < 4096. user_pte (mem s) root PTE_R (0x10000 + i) = Inr 0x10000000 \<and> user_pte (mem s) root PTE_W (0x10000 + i) = Inr 0x10000000"
    using example_user_space by blast
  have "(0x10ABC :: nat) + length [1, 2, 3 :: u8] < 2 ^ 64" by simp
  from copyout_correct [OF s(1) this] example_copyout [OF s] show ?thesis by fastforce
qed

text \<open>Copy out, then copy in. After a successful \<open>copyout\<close> to a range the user may also read,
  \<open>copyin\<close> from the same address gives the same bytes back.\<close>

theorem copyout_copyin:
  assumes ok: "user_space_ok own m root" and len: "va + length src < 2 ^ 64"
    and out: "copyout m root va src = Some (Inr (), m')"
    and readable: "\<forall>i < length src. user_pte m root PTE_R (va + i) = user_pte m root PTE_W (va + i)"
    and dst: "length dst = length src"
  shows "copyin m' root dst va = Some (Inr (), src)"
proof -
  obtain r m'' where c: "copyout_loop root src m 0 va = Some (r, m'')"
    "\<forall>va' < 2 ^ 64. \<forall>perm. user_pte m'' root perm va' = user_pte m root perm va'"
    "copied_prefix (\<lambda>i. user_byte m root PTE_W (va + i)) (\<lambda>i pa. m'' pa = src ! i) (length src) r"
    using copyout_loop_spec [OF ok, of 0 src va] len by auto
  have "r = Inr ()" "m'' = m'" using c(1) out by (auto simp: copyout_def)
  with c have w: "\<forall>i < length src. \<exists>pa. user_byte m root PTE_W (va + i) = Inr pa \<and> m' pa = src ! i"
    and pte: "\<forall>va' < 2 ^ 64. \<forall>perm. user_pte m' root perm va' = user_pte m root perm va'"
    by (auto simp: copied_prefix_def)
  have rd: "\<exists>pa. user_byte m' root PTE_R (va + i) = Inr pa \<and> m' pa = src ! i" if "i < length src" for i
  proof -
    have "user_byte m' root PTE_R (va + i) = user_byte m root PTE_W (va + i)"
      using that readable pte len by (simp add: user_byte_def)
    then show ?thesis using w that by simp
  qed
  obtain r2 d where d: "copyin_loop m' root dst 0 va = Some (r2, d)" "length d = length dst"
    "copied_prefix (\<lambda>i. user_byte m' root PTE_R (va + i)) (\<lambda>i pa. d ! i = m' pa) (length dst) r2"
    using copyin_loop_spec [of 0 dst va m' root] len dst by auto
  have "\<And>e. r2 \<noteq> Inl e" using d(3) rd dst by (force simp: copied_prefix_def)
  then have "r2 = Inr ()" by (cases r2) auto
  moreover have "d = src"
    using d(2,3) rd dst calculation by (intro nth_equalityI) (force simp: copied_prefix_def)+
  ultimately show ?thesis using d(1) by (simp add: copyin_def)
qed

theorem copyout_copyin_witness:
  "\<exists>root m m'. copyout m root 0x10ABC [1, 2, 3] = Some (Inr (), m') \<and> copyin m' root [0, 0, 0] 0x10ABC = Some (Inr (), [1, 2, 3])"
proof -
  obtain root s where s: "user_space_ok (live s) (mem s) root"
    "\<forall>i < 4096. user_pte (mem s) root PTE_R (0x10000 + i) = Inr 0x10000000 \<and> user_pte (mem s) root PTE_W (0x10000 + i) = Inr 0x10000000"
    using example_user_space by blast
  obtain m' where m': "copyout (mem s) root 0x10ABC [1, 2, 3] = Some (Inr (), m')" using example_copyout [OF s] by blast
  have rd: "\<forall>i < length [1, 2, 3 :: u8]. user_pte (mem s) root PTE_R (0x10ABC + i) = user_pte (mem s) root PTE_W (0x10ABC + i)"
  proof (intro allI impI)
    fix i assume "i < length [1, 2, 3 :: u8]"
    then show "user_pte (mem s) root PTE_R (0x10ABC + i) = user_pte (mem s) root PTE_W (0x10ABC + i)"
      using s(2) [rule_format, of "0xABC + i"] by simp
  qed
  have "copyin m' root [0, 0, 0] 0x10ABC = Some (Inr (), [1, 2, 3])"
    by (rule copyout_copyin [OF s(1) _ m' rd]) simp_all
  then show ?thesis using m' by blast
qed

text \<open>C31. Copying a string. \<open>copyin_str\<close> returns the length, terminator included, when a zero byte is
  among the readable bytes that fit the buffer; the error of the first unreadable byte when that comes
  first; and \<open>TooLong\<close> when the whole buffer is filled without a terminator. The buffer holds the
  bytes read.\<close>

theorem copyin_str_correct:
  assumes "va + length dst + PGSIZE < 2 ^ 64"
  shows "\<exists>r dst'. copyin_str m root dst va = Some (r, dst') \<and> length dst' = length dst \<and>
    string_result (\<lambda>i. user_byte m root PTE_R (va + i)) m (\<lambda>i. dst' ! i) (length dst) r"
proof -
  obtain r dst' where "copyin_str_loop m root dst 0 va = Some (map_sum id (\<lambda>k. 0 + k) r, dst')" "length dst' = length dst"
    "string_result (\<lambda>i. user_byte m root PTE_R (va + i)) m (\<lambda>i. dst' ! (0 + i)) (length dst - 0) r"
    using copyin_str_loop_spec [of 0 dst va m root] assms by auto
  moreover have "map_sum id (\<lambda>k. 0 + k) r = r" by (cases r) auto
  ultimately show ?thesis by (simp add: copyin_str_def)
qed

theorem copyin_str_correct_witness:
  "\<exists>r dst'. copyin_str (\<lambda>_. 0) 0x80001000 [1, 2, 3] 0x10000 = Some (r, dst') \<and> length dst' = 3"
  using copyin_str_correct [of "0x10000" "[1, 2, 3]" "\<lambda>_. 0" "0x80001000"] by (auto simp: PGSIZE_def)

end
