(* ===== verification/Chain.thy ===== *)
theory Chain
  imports Prelude
begin

text \<open>
  Singly linked lists. The kernel threads lists through arrays of nodes; \<open>chain nx h xs\<close> says that
  following the links \<open>nx\<close> from \<open>h\<close> visits exactly the nodes \<open>xs\<close> and then ends. The lemmas are the
  effect of the pointer updates the code performs: pushing, popping, inserting after a node and
  unlinking one.
\<close>

primrec chain :: "('p \<Rightarrow> 'p option) \<Rightarrow> 'p option \<Rightarrow> 'p list \<Rightarrow> bool" where
  "chain nx h [] \<longleftrightarrow> h = None"
| "chain nx h (p # ps) \<longleftrightarrow> h = Some p \<and> chain nx (nx p) ps"

lemma chain_cong: "(\<And>p. p \<in> set xs \<Longrightarrow> nx p = nx' p) \<Longrightarrow> chain nx h xs = chain nx' h xs"
  by (induction xs arbitrary: h) auto

lemma chain_upd [simp]: "p \<notin> set xs \<Longrightarrow> chain (nx(p := q)) h xs = chain nx h xs"
  by (rule chain_cong) auto

lemma chain_None [simp]: "chain nx None xs \<longleftrightarrow> xs = []"
  by (cases xs) auto

lemma chain_Some: "chain nx (Some p) xs \<longleftrightarrow> (\<exists>ys. xs = p # ys \<and> chain nx (nx p) ys)"
  by (cases xs) auto

lemma chain_unique: "chain nx h xs \<Longrightarrow> chain nx h ys \<Longrightarrow> xs = ys"
  by (induction xs arbitrary: h ys) (auto simp: chain_Some)

text \<open>The part of a list from some node on.\<close>

lemma chain_suffix: "chain nx h (xs @ p # ys) \<Longrightarrow> chain nx (Some p) (p # ys)"
  by (induction xs arbitrary: h) auto

lemma chain_distinct: "chain nx h xs \<Longrightarrow> distinct xs"
proof (induction xs arbitrary: h)
  case (Cons p ps)
  have "p \<notin> set ps"
  proof
    assume "p \<in> set ps"
    then obtain us vs where ps: "ps = us @ p # vs" by (meson split_list)
    then have "chain nx (Some p) (p # vs)" using Cons.prems chain_suffix [of nx h "p # us" p vs] by simp
    moreover have "chain nx (Some p) (p # ps)" using Cons.prems by simp
    ultimately have "ps = vs" using chain_unique by fastforce
    then show False using ps by simp
  qed
  then show ?case using Cons by auto
qed simp

lemma chain_push: "chain nx h xs \<Longrightarrow> p \<notin> set xs \<Longrightarrow> chain (nx(p := h)) (Some p) (p # xs)"
  by simp

text \<open>Replacing the tail behind a node \<open>p\<close>: insertion after \<open>p\<close> and unlinking of its successor.\<close>

lemma chain_tail:
  "chain nx h (xs @ p # ys) \<Longrightarrow> p \<notin> set xs \<Longrightarrow> p \<notin> set zs \<Longrightarrow> chain nx q zs \<Longrightarrow>
    chain (nx(p := q)) h (xs @ p # zs)"
  by (induction xs arbitrary: h) auto

lemma chain_insert:
  assumes c: "chain nx h (xs @ p # ys)" and q: "q \<notin> set (xs @ p # ys)"
  shows "chain (nx(q := nx p, p := Some q)) h (xs @ p # q # ys)"
proof -
  have d: "p \<notin> set xs" "p \<notin> set ys" using chain_distinct [OF c] by auto
  have "chain nx (nx p) ys" using chain_suffix [OF c] by simp
  then have "chain (nx(q := nx p)) (Some q) (q # ys)" using q by simp
  moreover have "chain (nx(q := nx p)) h (xs @ p # ys)" using c q by simp
  ultimately show ?thesis using chain_tail [of "nx(q := nx p)" h xs p ys "q # ys" "Some q"] d q by auto
qed

lemma chain_unlink:
  assumes c: "chain nx h (xs @ p # q # ys)"
  shows "chain (nx(p := nx q)) h (xs @ p # ys)"
proof -
  have "p \<notin> set xs" "p \<notin> set ys" using chain_distinct [OF c] by auto
  moreover have "chain nx (nx q) ys" using chain_suffix [of nx h "xs @ [p]" q ys] c by simp
  ultimately show ?thesis using chain_tail [OF c] by blast
qed

lemma chain_next: "chain nx h (xs @ p # ys) \<Longrightarrow> nx p = (case ys of [] \<Rightarrow> None | q # _ \<Rightarrow> Some q)"
  using chain_suffix [of nx h xs p ys] by (cases ys) auto

text \<open>The first and the last node of a list, as the pointers the code keeps.\<close>

primrec hd_opt :: "'a list \<Rightarrow> 'a option" where
  "hd_opt [] = None"
| "hd_opt (a # as) = Some a"

lemma hd_opt_alt: "hd_opt xs = (if xs = [] then None else Some (hd xs))"
  by (cases xs) simp_all

lemma chain_hd: "chain nx h xs \<Longrightarrow> h = hd_opt xs"
  by (cases xs) auto

lemma snoc_split: "us \<noteq> [] \<Longrightarrow> us @ vs = butlast us @ last us # vs"
  by (metis append.assoc append_Cons append_Nil append_butlast_last_id)

lemma chain_last_next: "chain nx h (us @ vs) \<Longrightarrow> us \<noteq> [] \<Longrightarrow> nx (last us) = hd_opt vs"
  using chain_next [of nx h "butlast us" "last us" vs] by (simp add: snoc_split [of us vs]) (cases vs, simp_all)

end
