(* ===== verification/Mmap.thy ===== *)
theory Mmap
  imports Chain
begin

text \<open>
  The warehouse of mmap regions (\<^verbatim>\<open>mem/mmap.rs\<close>): a static array of 256 nodes, the free ones linked
  through their second \<open>next\<close> field, each handed out as a pointer to its embedded region. A pointer to
  a node or to its region is the node's index. The debug printers are left out.
\<close>

section \<open>State\<close>

definition N_MMAP :: usize where "N_MMAP = 256"

record mmap_region =
  mr_begin :: usize
  mr_npages :: u32
  mr_next :: "nat option"

definition region_zero :: mmap_region where
  "region_zero = \<lparr>mr_begin = 0, mr_npages = 0, mr_next = None\<rparr>"

record warehouse =
  wh_init :: bool
  wh_head :: "nat option"
  wh_mmap :: "nat \<Rightarrow> mmap_region"
  wh_next :: "nat \<Rightarrow> nat option"

definition warehouse_new :: warehouse where
  "warehouse_new = \<lparr>wh_init = False, wh_head = None, wh_mmap = (\<lambda>_. region_zero), wh_next = (\<lambda>_. None)\<rparr>"

section \<open>Operations\<close>

definition mmap_init :: "warehouse \<Rightarrow> warehouse" where
  "mmap_init w =
     (if wh_init w then w
      else w\<lparr>wh_init := True,
             wh_mmap := (\<lambda>i. if i < N_MMAP then region_zero else wh_mmap w i),
             wh_next := (\<lambda>i. if i < N_MMAP then (if i + 1 < N_MMAP then Some (i + 1) else None) else wh_next w i),
             wh_head := Some 0\<rparr>)"

definition region_alloc :: "warehouse \<Rightarrow> nat option \<times> warehouse" where
  "region_alloc w0 = (
     let w = mmap_init w0 in
     case wh_head w of
       None \<Rightarrow> (None, w)
     | Some first \<Rightarrow>
         (Some first, w\<lparr>wh_head := wh_next w first, wh_next := (wh_next w)(first := None),
                        wh_mmap := (wh_mmap w)(first := region_zero)\<rparr>))"

definition region_free :: "nat option \<Rightarrow> warehouse \<Rightarrow> warehouse" where
  "region_free region w =
     (case region of
        None \<Rightarrow> w
      | Some i \<Rightarrow> w\<lparr>wh_mmap := (wh_mmap w)(i := region_zero), wh_next := (wh_next w)(i := wh_head w), wh_head := Some i\<rparr>)"

section \<open>The pool of nodes\<close>

definition wh_free :: "warehouse \<Rightarrow> nat set" where
  "wh_free w = (if wh_init w then {i. \<exists>xs. chain (wh_next w) (wh_head w) xs \<and> i \<in> set xs} else {..<N_MMAP})"

definition wh_inv :: "warehouse \<Rightarrow> bool" where
  "wh_inv w \<longleftrightarrow> wh_init w \<longrightarrow> (\<exists>xs. chain (wh_next w) (wh_head w) xs \<and> set xs \<subseteq> {..<N_MMAP})"

lemma wh_free_chain: "wh_init w \<Longrightarrow> chain (wh_next w) (wh_head w) xs \<Longrightarrow> wh_free w = set xs"
  by (auto simp: wh_free_def dest: chain_unique)

lemma init_chain: "k \<le> N_MMAP \<Longrightarrow> (\<And>i. i < N_MMAP \<Longrightarrow> nx i = (if i + 1 < N_MMAP then Some (i + 1) else None)) \<Longrightarrow>
    chain nx (if k < N_MMAP then Some k else None) [k..<N_MMAP]"
proof (induction "N_MMAP - k" arbitrary: k)
  case (Suc n)
  then have k: "k < N_MMAP" by simp
  have "chain nx (if Suc k < N_MMAP then Some (Suc k) else None) [Suc k..<N_MMAP]"
    using Suc(2) k by (intro Suc(1) Suc(4)) auto
  moreover have "[k..<N_MMAP] = k # [Suc k..<N_MMAP]" using k by (rule upt_conv_Cons)
  ultimately show ?case using k Suc(4) [OF k] by (simp split: if_splits)
qed simp

lemma mmap_init_inv: "wh_inv w \<Longrightarrow> wh_inv (mmap_init w) \<and> wh_init (mmap_init w) \<and> wh_free (mmap_init w) = wh_free w"
proof (cases "wh_init w")
  case False
  have "chain (wh_next (mmap_init w)) (wh_head (mmap_init w)) [0..<N_MMAP]"
    using init_chain [of 0 "wh_next (mmap_init w)"] False by (simp add: mmap_init_def N_MMAP_def)
  moreover have "wh_init (mmap_init w)" using False by (simp add: mmap_init_def)
  ultimately show ?thesis using False wh_free_chain [of "mmap_init w"] by (auto simp: wh_inv_def wh_free_def)
qed (simp add: mmap_init_def)

text \<open>Taking \<open>n\<close> nodes one after the other.\<close>

fun take_nodes :: "('w \<Rightarrow> nat option \<times> 'w) \<Rightarrow> nat \<Rightarrow> 'w \<Rightarrow> nat option list \<times> 'w" where
  "take_nodes take_node 0 w = ([], w)"
| "take_nodes take_node (Suc n) w =
     (let (r, w1) = take_node w; (rs, w2) = take_nodes take_node n w1 in (r # rs, w2))"

text \<open>What a pool of nodes promises to the address spaces that link them into their region lists.\<close>

locale node_pool =
  fixes take_node :: "'w \<Rightarrow> nat option \<times> 'w"
    and give_node :: "nat option \<Rightarrow> 'w \<Rightarrow> 'w"
    and good :: "'w \<Rightarrow> bool"
    and avail :: "'w \<Rightarrow> nat set"
    and node :: "'w \<Rightarrow> nat \<Rightarrow> mmap_region"
  assumes take_None: "good w \<Longrightarrow> avail w = {} \<Longrightarrow> fst (take_node w) = None \<and> good (snd (take_node w)) \<and> avail (snd (take_node w)) = {}"
    and take_Some: "good w \<Longrightarrow> avail w \<noteq> {} \<Longrightarrow> \<exists>i w'. take_node w = (Some i, w') \<and> i \<in> avail w \<and> good w' \<and>
        avail w' = avail w - {i} \<and> node w' i = region_zero"
    and give: "good w \<Longrightarrow> i < N_MMAP \<Longrightarrow> i \<notin> avail w \<Longrightarrow> avail w \<subset> {..<N_MMAP} \<Longrightarrow>
        good (give_node (Some i) w) \<and> avail (give_node (Some i) w) = insert i (avail w)"
    and avail_bound: "good w \<Longrightarrow> avail w \<subseteq> {..<N_MMAP}"
begin

lemma take_nodes_distinct:
  assumes "good w" and "n \<le> card (avail w)"
  shows "\<exists>ns w'. take_nodes take_node n w = (map Some ns, w') \<and> length ns = n \<and> distinct ns \<and> set ns \<subseteq> avail w \<and>
    good w' \<and> avail w' = avail w - set ns"
  using assms
proof (induction n arbitrary: w)
  case (Suc n)
  have fin: "finite (avail w)" using avail_bound [OF Suc.prems(1)] finite_subset by blast
  have "avail w \<noteq> {}" using Suc.prems(2) by auto
  then obtain i w1 where i: "take_node w = (Some i, w1)" "i \<in> avail w" "good w1" "avail w1 = avail w - {i}"
    using take_Some [OF Suc.prems(1)] by blast
  then have "n \<le> card (avail w1)" using Suc.prems(2) fin by simp
  then obtain ns w2 where r: "take_nodes take_node n w1 = (map Some ns, w2)" "length ns = n" "distinct ns" "set ns \<subseteq> avail w1"
    "good w2" "avail w2 = avail w1 - set ns"
    using Suc.IH [OF i(3)] by blast
  then show ?case using i by (intro exI [of _ "i # ns"] exI [of _ w2]) auto
qed simp

end

lemma region_alloc_init: "region_alloc (mmap_init w) = region_alloc w"
  by (simp add: region_alloc_def mmap_init_def Let_def)

interpretation warehouse_pool: node_pool region_alloc region_free wh_inv wh_free wh_mmap
proof
  fix w assume inv: "wh_inv w" and e: "wh_free w = {}"
  define v where "v = mmap_init w"
  have v: "wh_inv v" "wh_init v" "wh_free v = {}" using mmap_init_inv [OF inv] e by (auto simp: v_def)
  then obtain xs where xs: "chain (wh_next v) (wh_head v) xs" by (auto simp: wh_inv_def)
  then have "xs = []" using wh_free_chain [OF v(2) xs] v(3) by simp
  then have "wh_head v = None" using xs by simp
  then have "region_alloc w = (None, v)" by (simp add: region_alloc_def flip: v_def)
  then show "fst (region_alloc w) = None \<and> wh_inv (snd (region_alloc w)) \<and> wh_free (snd (region_alloc w)) = {}"
    using v by simp
next
  fix w assume inv: "wh_inv w" and e: "wh_free w \<noteq> {}"
  define v where "v = mmap_init w"
  have v: "wh_inv v" "wh_init v" "wh_free v = wh_free w" using mmap_init_inv [OF inv] by (auto simp: v_def)
  then obtain xs where xs: "chain (wh_next v) (wh_head v) xs" "set xs \<subseteq> {..<N_MMAP}" by (auto simp: wh_inv_def)
  moreover have "xs \<noteq> []" using wh_free_chain [OF v(2) xs(1)] v(3) e by auto
  ultimately obtain i ys where i: "xs = i # ys" "wh_head v = Some i" "chain (wh_next v) (wh_next v i) ys" by (cases xs) auto
  then have d: "i \<notin> set ys" using chain_distinct [OF xs(1)] by auto
  define w' where "w' = v\<lparr>wh_head := wh_next v i, wh_next := (wh_next v)(i := None), wh_mmap := (wh_mmap v)(i := region_zero)\<rparr>"
  have ch: "chain (wh_next w') (wh_head w') ys" using i d by (simp add: w'_def)
  moreover have "wh_init w'" using v by (simp add: w'_def)
  ultimately have "wh_inv w'" "wh_free w' = set ys" using xs(2) i(1) wh_free_chain by (auto simp: wh_inv_def)
  moreover have "wh_free w = insert i (set ys)" using wh_free_chain [OF v(2) xs(1)] v(3) i(1) by simp
  moreover have "region_alloc w = (Some i, w')" using i(2) by (simp add: region_alloc_def w'_def flip: v_def)
  ultimately show "\<exists>i w'. region_alloc w = (Some i, w') \<and> i \<in> wh_free w \<and> wh_inv w' \<and> wh_free w' = wh_free w - {i} \<and> wh_mmap w' i = region_zero"
    using d by (intro exI [of _ i] exI [of _ w']) (auto simp: w'_def)
next
  fix w i assume inv: "wh_inv w" and i: "i < N_MMAP" "i \<notin> wh_free w" and "wh_free w \<subset> {..<N_MMAP}"
  then have init: "wh_init w" by (auto simp: wh_free_def split: if_splits)
  then obtain xs where xs: "chain (wh_next w) (wh_head w) xs" "set xs \<subseteq> {..<N_MMAP}" using inv by (auto simp: wh_inv_def)
  have fr: "wh_free w = set xs" by (rule wh_free_chain [OF init xs(1)])
  let ?w = "region_free (Some i) w"
  have ch: "chain (wh_next ?w) (wh_head ?w) (i # xs)" using xs(1) i(2) fr by (simp add: region_free_def)
  moreover have "wh_init ?w" using init by (simp add: region_free_def)
  ultimately show "wh_inv ?w \<and> wh_free ?w = insert i (wh_free w)"
    using wh_free_chain [of ?w "i # xs"] xs(2) i(1) fr unfolding wh_inv_def
    by (intro conjI impI exI [of _ "i # xs"]) simp_all
next
  fix w assume "wh_inv w"
  then show "wh_free w \<subseteq> {..<N_MMAP}"
    using wh_free_chain [of w] by (cases "wh_init w") (auto simp: wh_inv_def wh_free_def)
qed

section \<open>Properties\<close>

lemma warehouse_new_inv: "wh_inv warehouse_new" "wh_free warehouse_new = {..<N_MMAP}"
  by (simp_all add: wh_inv_def wh_free_def warehouse_new_def)

text \<open>The warehouse holds exactly 256 nodes: from the initial state 256 allocations return 256
  different nodes, and the next one returns null.\<close>

theorem warehouse_capacity:
  "\<exists>ns w. take_nodes region_alloc N_MMAP warehouse_new = (map Some ns, w) \<and> distinct ns \<and>
    set ns = {..<N_MMAP} \<and> fst (region_alloc w) = None"
proof -
  obtain ns w where r: "take_nodes region_alloc N_MMAP warehouse_new = (map Some ns, w)" "length ns = N_MMAP" "distinct ns"
    "set ns \<subseteq> {..<N_MMAP}" "wh_inv w" "wh_free w = {..<N_MMAP} - set ns"
    using warehouse_pool.take_nodes_distinct [of warehouse_new N_MMAP] by (auto simp: warehouse_new_inv)
  have "set ns = {..<N_MMAP}"
    using r(2-4) by (intro card_subset_eq) (auto simp: distinct_card)
  then show ?thesis using r warehouse_pool.take_None [OF r(5)] by auto
qed

text \<open>A node that is given back is the next one handed out, zeroed, and the pool is as it was before
  it was given back.\<close>

theorem region_free_alloc:
  assumes "wh_inv w" and "wh_init w" and "i < N_MMAP" and "i \<notin> wh_free w"
  shows "\<exists>w'. region_alloc (region_free (Some i) w) = (Some i, w') \<and> wh_free w' = wh_free w \<and> wh_mmap w' i = region_zero"
proof -
  obtain xs where xs: "chain (wh_next w) (wh_head w) xs" "set xs \<subseteq> {..<N_MMAP}" using assms(1,2) by (auto simp: wh_inv_def)
  have fr: "wh_free w = set xs" by (rule wh_free_chain [OF assms(2) xs(1)])
  let ?w = "w\<lparr>wh_mmap := (wh_mmap w)(i := region_zero), wh_next := (wh_next w)(i := None)\<rparr>"
  have "region_alloc (region_free (Some i) w) = (Some i, ?w)"
    using assms(2) by (simp add: region_alloc_def region_free_def mmap_init_def)
  moreover have "wh_free ?w = set xs"
    using xs(1) assms(2,4) fr by (intro wh_free_chain) auto
  ultimately show ?thesis using fr by auto
qed

theorem region_free_alloc_witness:
  "\<exists>w'. region_alloc (region_free (Some 0) (snd (region_alloc warehouse_new))) = (Some 0, w') \<and> wh_mmap w' 0 = region_zero"
proof -
  let ?w = "snd (region_alloc warehouse_new)"
  have fst0: "region_alloc warehouse_new = (Some 0, ?w)" "wh_init ?w"
    by (simp_all add: region_alloc_def mmap_init_def warehouse_new_def)
  have "wh_free warehouse_new \<noteq> {}" by (simp add: warehouse_new_inv N_MMAP_def lessThan_empty_iff)
  then obtain i w' where "region_alloc warehouse_new = (Some i, w')" "wh_inv w'" "wh_free w' = wh_free warehouse_new - {i}"
    using warehouse_pool.take_Some [OF warehouse_new_inv(1)] by blast
  then have "wh_inv ?w" "0 \<notin> wh_free ?w" using fst0(1) by auto
  then show ?thesis using region_free_alloc [of ?w 0] fst0(2) by (auto simp: N_MMAP_def)
qed

end
