(* ===== verification/Uvm.thy ===== *)
theory Uvm
  imports Ucopy Mmap
begin

text \<open>
  User address spaces (\<^verbatim>\<open>mem/uvm.rs\<close>: heap, stack, mmap regions) and the system calls that reach them
  (\<^verbatim>\<open>syscall/brk.rs\<close>, \<^verbatim>\<open>syscall/mmap.rs\<close>, \<^verbatim>\<open>syscall/copy.rs\<close>). The operations run on the page allocator
  with memory and, for the regions, on the warehouse; a process contributes its root table, heap bounds
  and the head of its region list. The walks over a region list follow pointers, so they are partial
  functions: \<open>None\<close> is a panic or a list that never ends.
\<close>

section \<open>Heap and stack\<close>

definition user_rw :: nat where
  "user_rw = PTE_U OR PTE_R OR PTE_W OR PTE_A OR PTE_D"

text \<open>The loop of \<open>heap_grow\<close> and of \<open>map_pages\<close>: allocate a user page and map it, page by page.\<close>

function grow_loop :: "usize \<Rightarrow> usize \<Rightarrow> usize \<Rightarrow> pmem \<Rightarrow> ((uvm_error + unit) \<times> pmem) option" where
  "grow_loop root last_pg a s =
     (if last_pg \<le> a then Some (Inr (), s)
      else case pmem_alloc False s of
             None \<Rightarrow> None
           | Some (pa, s) \<Rightarrow>
               if pa = 0 then Some (Inl NoMem, s)
               else case pt_map root a pa PGSIZE user_rw s of
                      None \<Rightarrow> None
                    | Some (ok, s) \<Rightarrow>
                        if \<not> ok then Some (Inl MapFailed, s)
                        else case uadd a PGSIZE of
                               None \<Rightarrow> None
                             | Some a' \<Rightarrow> grow_loop root last_pg a' s)"
  by pat_completeness auto
termination
  by (relation "measure (\<lambda>(_, last_pg, a, _). last_pg - a)") (auto simp: cadd_Some_iff PGSIZE_def)

declare grow_loop.simps [simp del]

definition heap_grow :: "usize \<Rightarrow> usize \<Rightarrow> usize \<Rightarrow> pmem \<Rightarrow> ((uvm_error + unit) \<times> pmem) option" where
  "heap_grow root old_top new_top s =
     (if MMAP_BEGIN < new_top then Some (Inl OutOfRange, s)
      else do {
        a \<leftarrow> align_up old_top;
        last_pg \<leftarrow> align_up new_top;
        grow_loop root last_pg a s
      })"

definition heap_ungrow :: "usize \<Rightarrow> usize \<Rightarrow> usize \<Rightarrow> pmem \<Rightarrow> ((uvm_error + unit) \<times> pmem) option" where
  "heap_ungrow root old_top new_top s =
     (if old_top < new_top then Some (Inr (), s)
      else do {
        start \<leftarrow> align_up new_top;
        t \<leftarrow> align_up old_top;
        let sz = saturating_sub t start;
        (if sz = 0 then Some (Inr (), s)
         else do {
           (ok, s) \<leftarrow> pt_unmap root start sz True s;
           Some (if ok then Inr () else Inl MapFailed, s)
         })
      })"

definition STACK_BASE :: usize where "STACK_BASE = 0x20000"
definition STACK_SIZE :: usize where "STACK_SIZE = 24576"
definition STACK_TOP :: usize where "STACK_TOP = STACK_BASE + STACK_SIZE"

function stack_loop :: "usize \<Rightarrow> usize \<Rightarrow> usize \<Rightarrow> pmem \<Rightarrow> ((uvm_error + unit) \<times> pmem) option" where
  "stack_loop root needed_base a s =
     (if a \<le> needed_base then Some (Inr (), s)
      else case csub a PGSIZE of
             None \<Rightarrow> None
           | Some a' \<Rightarrow>
               if (case pt_lookup (mem s) root a' of None \<Rightarrow> False | Some pte \<Rightarrow> is_valid (read_u64 (mem s) pte))
               then stack_loop root needed_base a' s
               else case pmem_alloc False s of
                      None \<Rightarrow> None
                    | Some (pa, s) \<Rightarrow>
                        if pa = 0 then Some (Inl NoMem, s)
                        else case pt_map root a' pa PGSIZE user_rw s of
                               None \<Rightarrow> None
                             | Some (ok, s) \<Rightarrow>
                                 if \<not> ok then Some (Inl MapFailed, s)
                                 else stack_loop root needed_base a' s)"
  by pat_completeness auto
termination
  by (relation "measure (\<lambda>(_, needed_base, a, _). a)") (auto simp: csub_Some_iff PGSIZE_def)

declare stack_loop.simps [simp del]

definition ustack_grow :: "usize \<Rightarrow> usize \<Rightarrow> pmem \<Rightarrow> ((uvm_error + unit) \<times> pmem) option" where
  "ustack_grow root fault_va s =
     (if STACK_BASE \<le> fault_va \<and> fault_va < STACK_TOP
      then stack_loop root (align_down fault_va) STACK_TOP s
      else Some (Inl OutOfRange, s))"

definition pages_of_len :: "usize \<Rightarrow> usize option" where
  "pages_of_len len = do {
     t \<leftarrow> align_up len;
     Some (max (t div PGSIZE) 0)
   }"

definition map_pages :: "usize \<Rightarrow> usize \<Rightarrow> usize \<Rightarrow> pmem \<Rightarrow> ((uvm_error + unit) \<times> pmem) option" where
  "map_pages root va npages s = do {
     let a = align_down va;
     sz \<leftarrow> umul npages PGSIZE;
     last_pg \<leftarrow> uadd a sz;
     grow_loop root last_pg a s
   }"

section \<open>Regions\<close>

text \<open>\<open>as u32\<close> keeps the low 32 bits.\<close>

definition as_u32 :: "nat \<Rightarrow> u32" where
  "as_u32 x = x mod 2 ^ 32"

definition region_end :: "mmap_region \<Rightarrow> usize option" where
  "region_end r = do {
     sz \<leftarrow> umul (mr_npages r) PGSIZE;
     uadd (mr_begin r) sz
   }"

text \<open>The search for a gap when no address is given: the chosen begin (0 for none) and the cursor.\<close>

partial_function (option) mmap_gap :: "(nat \<Rightarrow> mmap_region) \<Rightarrow> usize \<Rightarrow> nat option \<Rightarrow> usize \<Rightarrow> (usize \<times> usize) option" where
  "mmap_gap nodes npages cur cursor =
     (case cur of
        None \<Rightarrow> Some (0, cursor)
      | Some i \<Rightarrow>
          if cursor \<le> mr_begin (nodes i) then
            Option.bind (umul npages PGSIZE) (\<lambda>need.
              if need \<le> saturating_sub (mr_begin (nodes i)) cursor then Some (cursor, cursor)
              else Option.bind (region_end (nodes i)) (\<lambda>cursor'. mmap_gap nodes npages (mr_next (nodes i)) cursor'))
          else mmap_gap nodes npages (mr_next (nodes i)) cursor)"

text \<open>The insertion point: the last region that begins before \<open>begin\<close> and the one after it.\<close>

partial_function (option) mmap_scan :: "(nat \<Rightarrow> mmap_region) \<Rightarrow> usize \<Rightarrow> nat option \<Rightarrow> nat option \<Rightarrow> (nat option \<times> nat option) option" where
  "mmap_scan nodes bgn prev cur =
     (case cur of
        None \<Rightarrow> Some (prev, None)
      | Some i \<Rightarrow> if mr_begin (nodes i) < bgn then mmap_scan nodes bgn cur (mr_next (nodes i)) else Some (prev, cur))"

type_synonym mmap_result = "(uvm_error + usize) \<times> nat option \<times> warehouse \<times> pmem"

definition set_node :: "nat \<Rightarrow> mmap_region \<Rightarrow> warehouse \<Rightarrow> warehouse" where
  "set_node i r w = w\<lparr>wh_mmap := (wh_mmap w)(i := r)\<rparr>"

text \<open>The end of the region at an optional pointer, if it is not null.\<close>

definition opt_end :: "warehouse \<Rightarrow> nat option \<Rightarrow> usize option option" where
  "opt_end w p = (case p of None \<Rightarrow> Some None | Some i \<Rightarrow> map_option Some (region_end (wh_mmap w i)))"

text \<open>Extending the previous region, and swallowing the next one when the gap is closed.\<close>

definition mmap_extend_prev :: "usize \<Rightarrow> nat option \<Rightarrow> nat \<Rightarrow> nat option \<Rightarrow> bool \<Rightarrow> usize \<Rightarrow> usize \<Rightarrow> usize \<Rightarrow> warehouse \<Rightarrow> pmem \<Rightarrow> mmap_result option" where
  "mmap_extend_prev root head p cur consume_next merged_begin merged_end end' w s = do {
     prev_end \<leftarrow> region_end (wh_mmap w p);
     (r, s) \<leftarrow> (if prev_end < end' then map_pages root prev_end ((end' - prev_end) div PGSIZE) s else Some (Inr (), s));
     (case r of
        Inl e \<Rightarrow> Some (Inl e, head, w, s)
      | Inr _ \<Rightarrow> do {
          d \<leftarrow> csub merged_end merged_begin;
          let w = set_node p ((wh_mmap w p)\<lparr>mr_npages := as_u32 (d div PGSIZE)\<rparr>) w;
          w \<leftarrow> (case (consume_next, cur) of
                 (True, Some nxt) \<Rightarrow> do {
                   next_end \<leftarrow> region_end (wh_mmap w nxt);
                   d \<leftarrow> csub next_end (mr_begin (wh_mmap w p));
                   let w = set_node p ((wh_mmap w p)\<lparr>mr_npages := as_u32 (d div PGSIZE), mr_next := mr_next (wh_mmap w nxt)\<rparr>) w;
                   Some (region_free (Some nxt) w)
                 }
               | _ \<Rightarrow> Some w);
          Some (Inr (mr_begin (wh_mmap w p)), head, w, s)
        })
   }"

text \<open>Extending the next region downwards.\<close>

definition mmap_extend_next :: "usize \<Rightarrow> nat option \<Rightarrow> nat option \<Rightarrow> nat \<Rightarrow> usize \<Rightarrow> usize \<Rightarrow> usize \<Rightarrow> usize \<Rightarrow> warehouse \<Rightarrow> pmem \<Rightarrow> mmap_result option" where
  "mmap_extend_next root head prev nxt bgn end' merged_begin merged_end w s = do {
     (r, s) \<leftarrow> map_pages root bgn ((end' - bgn) div PGSIZE) s;
     (case r of
        Inl e \<Rightarrow> Some (Inl e, head, w, s)
      | Inr _ \<Rightarrow> do {
          d \<leftarrow> csub merged_end merged_begin;
          let w = set_node nxt ((wh_mmap w nxt)\<lparr>mr_begin := merged_begin, mr_npages := as_u32 (d div PGSIZE)\<rparr>) w;
          (case prev of
             None \<Rightarrow> Some (Inr (mr_begin (wh_mmap w nxt)), Some nxt, w, s)
           | Some p \<Rightarrow>
               let w = set_node p ((wh_mmap w p)\<lparr>mr_next := Some nxt\<rparr>) w in
               Some (Inr (mr_begin (wh_mmap w nxt)), head, w, s))
        })
   }"

text \<open>A region of its own, linked between \<open>prev\<close> and \<open>cur\<close>.\<close>

definition mmap_new_region :: "usize \<Rightarrow> nat option \<Rightarrow> nat option \<Rightarrow> nat option \<Rightarrow> usize \<Rightarrow> usize \<Rightarrow> warehouse \<Rightarrow> pmem \<Rightarrow> mmap_result option" where
  "mmap_new_region root head prev cur bgn npages w s = do {
     (r, s) \<leftarrow> map_pages root bgn npages s;
     (case r of
        Inl e \<Rightarrow> Some (Inl e, head, w, s)
      | Inr _ \<Rightarrow>
          (case region_alloc w of
             (None, w) \<Rightarrow> Some (Inl NoMem, head, w, s)
           | (Some node, w) \<Rightarrow>
               let w = set_node node \<lparr>mr_begin = bgn, mr_npages = as_u32 npages, mr_next = cur\<rparr> w in
               (case prev of
                  None \<Rightarrow> Some (Inr bgn, Some node, w, s)
                | Some p \<Rightarrow> Some (Inr bgn, head, set_node p ((wh_mmap w p)\<lparr>mr_next := Some node\<rparr>) w, s))))
   }"

definition mmap_place :: "usize \<Rightarrow> nat option \<Rightarrow> usize \<Rightarrow> usize \<Rightarrow> warehouse \<Rightarrow> pmem \<Rightarrow> mmap_result option" where
  "mmap_place root head bgn npages w s = do {
     sz \<leftarrow> umul npages PGSIZE;
     end' \<leftarrow> uadd bgn sz;
     (prev, cur) \<leftarrow> mmap_scan (wh_mmap w) bgn None head;
     prev_end \<leftarrow> opt_end w prev;
     (if (case prev_end of None \<Rightarrow> False | Some e \<Rightarrow> bgn < e) then Some (Inl OutOfRange, head, w, s)
      else if (case cur of None \<Rightarrow> False | Some c \<Rightarrow> mr_begin (wh_mmap w c) < end') then Some (Inl OutOfRange, head, w, s)
      else do {
        let use_prev = (prev_end = Some bgn);
        let merged_begin = (case prev of Some p \<Rightarrow> if use_prev then mr_begin (wh_mmap w p) else bgn | None \<Rightarrow> bgn);
        let consume_next = (case cur of None \<Rightarrow> False | Some c \<Rightarrow> end' = mr_begin (wh_mmap w c));
        cur_end \<leftarrow> (if consume_next then opt_end w cur else Some None);
        let merged_end = (case cur_end of None \<Rightarrow> end' | Some e \<Rightarrow> e);
        (case (use_prev, prev) of
           (True, Some p) \<Rightarrow> mmap_extend_prev root head p cur consume_next merged_begin merged_end end' w s
         | _ \<Rightarrow>
            (case (consume_next, cur) of
               (True, Some nxt) \<Rightarrow> mmap_extend_next root head prev nxt bgn end' merged_begin merged_end w s
             | _ \<Rightarrow> mmap_new_region root head prev cur bgn npages w s))
      })
   }"

definition mmap :: "usize \<Rightarrow> nat option \<Rightarrow> usize \<Rightarrow> usize \<Rightarrow> usize \<Rightarrow> usize \<Rightarrow> warehouse \<Rightarrow> pmem \<Rightarrow> mmap_result option" where
  "mmap root head bgn0 len mmap_begin mmap_end w s =
     (if len = 0 then Some (Inl OutOfRange, head, w, s)
      else do {
        t \<leftarrow> align_up len;
        let npages = t div PGSIZE;
        (if npages = 0 then Some (Inl OutOfRange, head, w, s)
         else do {
           sz \<leftarrow> umul npages PGSIZE;
           choice \<leftarrow> (if bgn0 = 0 then do {
                        (b, cursor) \<leftarrow> mmap_gap (wh_mmap w) npages head mmap_begin;
                        Some (if b = 0 then (if sz \<le> saturating_sub mmap_end cursor then Some cursor else None) else Some b)
                      } else Some (Some bgn0));
           (case choice of
              None \<Rightarrow> Some (Inl OutOfRange, head, w, s)
            | Some bgn \<Rightarrow>
                if bgn < mmap_begin then Some (Inl OutOfRange, head, w, s)
                else do {
                  e \<leftarrow> uadd bgn sz;
                  (if mmap_end < e \<or> bgn AND (PGSIZE - 1) \<noteq> 0 then Some (Inl OutOfRange, head, w, s)
                   else mmap_place root head bgn npages w s)
                })
         })
      })"

text \<open>The regions that end at or before \<open>start\<close> are skipped.\<close>

partial_function (option) munmap_skip :: "(nat \<Rightarrow> mmap_region) \<Rightarrow> usize \<Rightarrow> nat option \<Rightarrow> nat option \<Rightarrow> (nat option \<times> nat option) option" where
  "munmap_skip nodes start prev cur =
     (case cur of
        None \<Rightarrow> Some (prev, None)
      | Some i \<Rightarrow> Option.bind (region_end (nodes i)) (\<lambda>e.
          if e \<le> start then munmap_skip nodes start cur (mr_next (nodes i)) else Some (prev, cur)))"

text \<open>What is left of a region after its part \<open>[s, e)\<close> is unmapped: nothing, its back, its front, or
  both with a new node for the back. The result is an error or the new \<open>prev\<close> and \<open>cur\<close>.\<close>

definition munmap_trim :: "nat option \<Rightarrow> nat option \<Rightarrow> nat \<Rightarrow> usize \<Rightarrow> usize \<Rightarrow> usize \<Rightarrow> usize \<Rightarrow> warehouse \<Rightarrow>
    (uvm_error + nat option \<times> nat option) \<times> nat option \<times> warehouse" where
  "munmap_trim head prev i cur_begin cur_end s e w = (
     let r = wh_mmap w i in
     if s = cur_begin \<and> e = cur_end then
       (let nxt = mr_next r in
        case prev of
          None \<Rightarrow> (Inr (prev, nxt), nxt, region_free (Some i) w)
        | Some p \<Rightarrow> (Inr (prev, nxt), head, region_free (Some i) (set_node p ((wh_mmap w p)\<lparr>mr_next := nxt\<rparr>) w)))
     else if s = cur_begin then
       (Inr (Some i, mr_next r), head, set_node i (r\<lparr>mr_begin := e, mr_npages := as_u32 ((cur_end - e) div PGSIZE)\<rparr>) w)
     else if e = cur_end then
       (Inr (Some i, mr_next r), head, set_node i (r\<lparr>mr_npages := as_u32 ((s - cur_begin) div PGSIZE)\<rparr>) w)
     else
       (case region_alloc w of
          (None, w) \<Rightarrow> (Inl NoMem, head, w)
        | (Some right, w) \<Rightarrow>
            let w = set_node right \<lparr>mr_begin = e, mr_npages = as_u32 ((cur_end - e) div PGSIZE), mr_next = mr_next (wh_mmap w i)\<rparr> w;
                w = set_node i ((wh_mmap w i)\<lparr>mr_npages := as_u32 ((s - cur_begin) div PGSIZE), mr_next := Some right\<rparr>) w
            in (Inr (Some i, mr_next (wh_mmap w right)), head, w)))"

text \<open>One round of the loop on the region \<open>i\<close>: the part of it in the range is unmapped and cut off.\<close>

definition munmap_cut :: "usize \<Rightarrow> nat option \<Rightarrow> nat option \<Rightarrow> nat \<Rightarrow> usize \<Rightarrow> usize \<Rightarrow> warehouse \<Rightarrow> pmem \<Rightarrow>
    ((uvm_error + nat option \<times> nat option) \<times> nat option \<times> warehouse \<times> pmem) option" where
  "munmap_cut root head prev i s e w st = do {
     let cur_begin = mr_begin (wh_mmap w i);
     cur_end \<leftarrow> region_end (wh_mmap w i);
     (if s < e then do {
        (ok, st) \<leftarrow> pt_unmap root s (e - s) True st;
        (if \<not> ok then Some (Inl MapFailed, head, w, st)
         else let (r, head, w) = munmap_trim head prev i cur_begin cur_end s e w in Some (r, head, w, st))
      }
      else Some (Inr (Some i, mr_next (wh_mmap w i)), head, w, st))
   }"

partial_function (option) munmap_loop :: "usize \<Rightarrow> usize \<Rightarrow> nat option \<Rightarrow> nat option \<Rightarrow> nat option \<Rightarrow> usize \<Rightarrow> warehouse \<Rightarrow> pmem \<Rightarrow>
    ((uvm_error + unit) \<times> nat option \<times> warehouse \<times> pmem) option" where
  "munmap_loop root end' head prev cur unmap_start w st =
     (case cur of
        None \<Rightarrow> Some (Inr (), head, w, st)
      | Some i \<Rightarrow>
          if end' \<le> unmap_start then Some (Inr (), head, w, st)
          else Option.bind (region_end (wh_mmap w i)) (\<lambda>cur_end.
            if end' \<le> mr_begin (wh_mmap w i) then Some (Inr (), head, w, st)
            else Option.bind (munmap_cut root head prev i (max unmap_start (mr_begin (wh_mmap w i))) (min end' cur_end) w st)
              (\<lambda>x. case fst x of
                 Inl err \<Rightarrow> Some (Inl err, snd x)
               | Inr pc \<Rightarrow>
                   Option.bind (csub (min end' cur_end) (max unmap_start (mr_begin (wh_mmap w i)))) (\<lambda>d.
                   Option.bind (uadd (max unmap_start (mr_begin (wh_mmap w i))) d) (\<lambda>unmap_start'.
                     munmap_loop root end' (fst (snd x)) (fst pc) (snd pc) unmap_start' (fst (snd (snd x))) (snd (snd (snd x))))))))"

definition munmap :: "usize \<Rightarrow> nat option \<Rightarrow> usize \<Rightarrow> usize \<Rightarrow> warehouse \<Rightarrow> pmem \<Rightarrow>
    ((uvm_error + unit) \<times> nat option \<times> warehouse \<times> pmem) option" where
  "munmap root head bgn len w st =
     (if len = 0 then Some (Inr (), head, w, st)
      else do {
        let start = align_down bgn;
        t \<leftarrow> uadd bgn len;
        end' \<leftarrow> align_up t;
        (if end' \<le> start then Some (Inr (), head, w, st)
         else do {
           (prev, cur) \<leftarrow> munmap_skip (wh_mmap w) start None head;
           munmap_loop root end' head prev cur start w st
         })
      })"

section \<open>System calls\<close>

text \<open>The part of the current process these calls use; \<open>usize::MAX\<close> is the error result.\<close>

definition usize_MAX :: usize where "usize_MAX = 2 ^ 64 - 1"

record uproc =
  root_pt_pa :: usize
  heap_base :: usize
  heap_top :: usize
  mmap_head :: "nat option"

definition sys_brk :: "usize \<Rightarrow> uproc \<Rightarrow> pmem \<Rightarrow> (usize \<times> uproc \<times> pmem) option" where
  "sys_brk new_top p s = (
     let old_top = heap_top p in
     if new_top = 0 then Some (old_top, p, s)
     else if MMAP_BEGIN < new_top then Some (usize_MAX, p, s)
     else if new_top < heap_base p then Some (usize_MAX, p, s)
     else do {
       new_heap_top \<leftarrow> align_up new_top;
       (res, s) \<leftarrow> (if old_top < new_heap_top then heap_grow (root_pt_pa p) old_top new_heap_top s
                    else if new_heap_top < old_top then heap_ungrow (root_pt_pa p) old_top new_heap_top s
                    else Some (Inr (), s));
       (case res of
          Inr _ \<Rightarrow> Some (new_heap_top, p\<lparr>heap_top := new_heap_top\<rparr>, s)
        | Inl _ \<Rightarrow> Some (usize_MAX, p, s))
     })"

definition sys_mmap :: "usize \<Rightarrow> usize \<Rightarrow> uproc \<Rightarrow> warehouse \<Rightarrow> pmem \<Rightarrow> (usize \<times> uproc \<times> warehouse \<times> pmem) option" where
  "sys_mmap bgn len p w s = do {
     (r, head, w, s) \<leftarrow> mmap (root_pt_pa p) (mmap_head p) bgn len MMAP_BEGIN MMAP_END w s;
     Some (case r of Inr va \<Rightarrow> va | Inl _ \<Rightarrow> usize_MAX, p\<lparr>mmap_head := head\<rparr>, w, s)
   }"

definition sys_munmap :: "usize \<Rightarrow> usize \<Rightarrow> uproc \<Rightarrow> warehouse \<Rightarrow> pmem \<Rightarrow> (usize \<times> uproc \<times> warehouse \<times> pmem) option" where
  "sys_munmap bgn len p w s = do {
     (r, head, w, s) \<leftarrow> munmap (root_pt_pa p) (mmap_head p) bgn len w s;
     Some (case r of Inr _ \<Rightarrow> 0 | Inl _ \<Rightarrow> usize_MAX, p\<lparr>mmap_head := head\<rparr>, w, s)
   }"

text \<open>The five little-endian words \<open>1..5\<close> that \<open>sys_copyout\<close> writes.\<close>

definition copyout_bytes :: "u8 list" where
  "copyout_bytes = [1,0,0,0, 2,0,0,0, 3,0,0,0, 4,0,0,0, 5,0,0,0]"

definition sys_copyout :: "usize \<Rightarrow> uproc \<Rightarrow> pmem \<Rightarrow> (usize \<times> pmem) option" where
  "sys_copyout u_dst p s = do {
     (r, m) \<leftarrow> copyout (mem s) (root_pt_pa p) u_dst copyout_bytes;
     Some (case r of Inr _ \<Rightarrow> 0 | Inl _ \<Rightarrow> usize_MAX, s\<lparr>mem := m\<rparr>)
   }"

text \<open>The calls that only print what they read: their result and the bytes read; the message itself
  is left out.\<close>

definition sys_copyin :: "usize \<Rightarrow> usize \<Rightarrow> uproc \<Rightarrow> pmem \<Rightarrow> (usize \<times> u8 list) option" where
  "sys_copyin u_src n p s = do {
     let count = min n 32;
     (r, bytes) \<leftarrow> copyin (mem s) (root_pt_pa p) (replicate (count * 4) 0) u_src;
     Some (case r of Inr _ \<Rightarrow> (0, bytes) | Inl _ \<Rightarrow> (usize_MAX, []))
   }"

definition sys_copyinstr :: "usize \<Rightarrow> uproc \<Rightarrow> pmem \<Rightarrow> (usize \<times> u8 list) option" where
  "sys_copyinstr u_src p s = do {
     (r, buf) \<leftarrow> copyin_str (mem s) (root_pt_pa p) (replicate 256 0) u_src;
     (case r of
        Inr len \<Rightarrow> if saturating_sub len 1 \<le> length buf then Some (0, take (saturating_sub len 1) buf) else None
      | Inl _ \<Rightarrow> Some (usize_MAX, []))
   }"

section \<open>Growing by fresh pages\<close>

text \<open>The pages of \<open>[a, c)\<close> are mapped for the user to zeroed pages that were not live before, each to
  its own; every other entry is as it was.\<close>

definition page_at :: "usize \<Rightarrow> usize \<Rightarrow> usize \<Rightarrow> bool" where
  "page_at a c va \<longleftrightarrow> a \<le> va \<and> va < c \<and> va < VA_MAX \<and> va mod PGSIZE = 0"

definition fresh_frame :: "usize \<Rightarrow> pmem \<Rightarrow> pmem \<Rightarrow> usize \<Rightarrow> bool" where
  "fresh_frame root s s' pa \<longleftrightarrow> pa \<in> live s' \<and> pa \<notin> live s \<and> pa \<notin> pt_tables (mem s') root \<and>
     (\<forall>x. pa \<le> x \<and> x < pa + PGSIZE \<longrightarrow> mem s' x = 0)"

definition grown :: "usize \<Rightarrow> usize \<Rightarrow> usize \<Rightarrow> pmem \<Rightarrow> pmem \<Rightarrow> bool" where
  "grown root a c s s' \<longleftrightarrow> (\<exists>fr. inj_on fr {va. page_at a c va} \<and>
     (\<forall>va. page_at a c va \<longrightarrow> fresh_frame root s s' (fr va) \<and> pt_get (mem s') root va = pa_to_pte (fr va) (user_rw OR PTE_V)) \<and>
     (\<forall>va < VA_MAX. va mod PGSIZE = 0 \<longrightarrow> \<not> page_at a c va \<longrightarrow> pt_get (mem s') root va = pt_get (mem s) root va))"

abbreviation uvm_ext :: "usize \<Rightarrow> pmem \<Rightarrow> pmem \<Rightarrow> bool" where
  "uvm_ext \<equiv> pt_ext pmem_inv live"

lemma uvm_extD:
  assumes "uvm_ext root s s'"
  shows "pmem_inv s'" "pt_wf (live s') (mem s') root" "live s \<subseteq> live s'"
    "pt_tables (mem s') root \<subseteq> pt_tables (mem s) root \<union> (live s' - live s)"
    "agree_on (live s - pt_tables (mem s) root) (mem s) (mem s')"
  using assms by (auto simp: pt_ext_def)

text \<open>A page taken from the allocator leaves every table alone.\<close>

lemma user_alloc_ext:
  assumes inv: "pmem_inv s" and wf: "pt_wf (live s) (mem s) root" and al: "pmem_alloc False s = Some (pa, s1)"
  shows "uvm_ext root s s1" "pt_get (mem s1) root va = pt_get (mem s) root va" "pt_tables (mem s1) root = pt_tables (mem s) root"
    "pa \<notin> live s" "live s1 = insert pa (live s)" "\<And>x. pa \<le> x \<Longrightarrow> x < pa + PGSIZE \<Longrightarrow> mem s1 x = 0"
    "0 < pa" "pa mod PGSIZE = 0" "pa < 2 ^ 56"
proof -
  note al' = inv al
  note o1 = user_frames.alloc_owned [OF al'] and g1 = user_frames.alloc_good [OF al'] and m1 = user_frames.alloc_mem [OF al']
  show fr: "pa \<notin> live s" using user_frames.alloc_fresh [OF al'] .
  show "live s1 = insert pa (live s)" by (rule o1)
  show "mem s1 x = 0" if "pa \<le> x" "x < pa + PGSIZE" for x using that m1 by (simp add: write_bytes_def)
  show pa: "0 < pa" "pa mod PGSIZE = 0" "pa < 2 ^ 56" using user_frames.owned_page [OF g1, of pa] o1 by (auto simp: PGSIZE_def)
  have ag: "agree_on (live s) (mem s) (mem s1)"
  proof (rule agree_onI)
    fix t x assume t: "t \<in> live s" "t \<le> x" "x < t + PGSIZE"
    have "t \<noteq> pa" using t(1) fr by blast
    then have "t + PGSIZE \<le> pa \<or> pa + PGSIZE \<le> t"
      using user_frames.owned_apart [OF g1, of t pa] t(1) o1 by auto
    then show "mem s1 x = mem s x" using t m1 by (auto simp: write_bytes_def)
  qed
  have tab: "pt_tables (mem s) root \<subseteq> live s" using wf by (simp add: pt_wf_def)
  have same: "agree_on (pt_tables (mem s) root) (mem s) (mem s1)" using agree_on_mono [OF ag tab] .
  note c = pt_cong [OF wf same]
  show "pt_get (mem s1) root va = pt_get (mem s) root va" "pt_tables (mem s1) root = pt_tables (mem s) root" by (rule c)+
  have "pt_wf (live s1) (mem s1) root" using pt_wf_own [OF c(1)] c(3) tab o1 by auto
  then show "uvm_ext root s s1" using g1 o1 c(3) agree_on_mono [OF ag] by (auto simp: pt_ext_def)
qed

lemma align_up_next: "a mod PGSIZE = 0 \<Longrightarrow> a + PGSIZE < 2 ^ 63 \<Longrightarrow> align_up (a + PGSIZE) = Some (a + PGSIZE)"
  by (intro align_up_id) (auto simp: PGSIZE_def)

lemma grow_step:
  assumes inv: "pmem_inv s" and wf: "pt_wf (live s) (mem s) root" and a: "a mod PGSIZE = 0" "a + PGSIZE < 2 ^ 63"
    and al: "pmem_alloc False s = Some (pa, s1)" and mp: "pt_map root a pa PGSIZE user_rw s1 = Some (ok, s2)"
  shows "uvm_ext root s s2" "fresh_frame root s s2 pa"
    "if ok then mapped_range (mem s) (mem s2) root a (a + PGSIZE) pa user_rw
     else (\<forall>va < VA_MAX. va mod PGSIZE = 0 \<longrightarrow> pt_get (mem s2) root va = pt_get (mem s) root va) \<and>
       (a < VA_MAX \<longrightarrow> is_valid (pt_get (mem s) root a))"
proof -
  note u = user_alloc_ext [OF inv wf al]
  note x1 = uvm_extD [OF u(1)]
  have down: "align_down a = a" "align_down pa = pa" using a u(8,9) by (auto intro!: align_down_id)
  have pos: "0 < PGSIZE" by (simp add: PGSIZE_def)
  have big: "pa < 2 ^ 64" using u(9) by simp
  obtain c where c: "uvm_ext root s1 s2" "mapped_range (mem s1) (mem s2) root a c pa user_rw" "a \<le> c" "c mod PGSIZE = 0"
    "if ok then c = a + PGSIZE else c < a + PGSIZE \<and> \<not> mappable (mem s1) root c (pa + (c - a))"
    using kernel_frames.map_with_spec [OF x1(1,2) _ align_up_next [OF a] _ mp [unfolded pt_map_def], unfolded down, OF pos big]
    by (elim exE conjE) (rule that)
  show "uvm_ext root s s2" using pt_ext_trans [OF u(1) c(1)] .
  note x2 = uvm_extD [OF c(1)]
  have nt: "pa \<notin> pt_tables (mem s1) root" using u(3,4) wf by (auto simp: pt_wf_def)
  then have "pa \<notin> pt_tables (mem s2) root" using x2(4) u(5) by auto
  moreover have "mem s2 x = 0" if "pa \<le> x" "x < pa + PGSIZE" for x
    using agree_onD [OF x2(5), of pa x] that nt u(5,6) by auto
  ultimately show "fresh_frame root s s2 pa" using u(4,5) x2(3) by (auto simp: fresh_frame_def)
  show "if ok then mapped_range (mem s) (mem s2) root a (a + PGSIZE) pa user_rw
     else (\<forall>va < VA_MAX. va mod PGSIZE = 0 \<longrightarrow> pt_get (mem s2) root va = pt_get (mem s) root va) \<and>
       (a < VA_MAX \<longrightarrow> is_valid (pt_get (mem s) root a))"
  proof (cases ok)
    case False
    then have "c = a" using c(3-5) page_less [OF a(1) c(4)] by auto
    then show ?thesis using False c(2,5) u(2) by (auto simp: mapped_range_def mappable_def)
  qed (use c(2,5) u(2) in \<open>auto simp: mapped_range_def\<close>)
qed

lemma fresh_frame_ext:
  assumes "uvm_ext root s s1" and f: "fresh_frame root s s1 pa" and x: "uvm_ext root s1 s2"
  shows "fresh_frame root s s2 pa"
proof -
  note x2 = uvm_extD [OF x]
  have "pa \<in> live s1 - pt_tables (mem s1) root" using f by (auto simp: fresh_frame_def)
  then have "mem s2 y = mem s1 y" if "pa \<le> y" "y < pa + PGSIZE" for y using agree_onD [OF x2(5) _ that] by blast
  then show ?thesis using f x2(3,4) by (auto simp: fresh_frame_def)
qed

lemma no_page_at: "\<not> page_at a a va"
  by (simp add: page_at_def)

lemma grown_same: "(\<And>va. va < VA_MAX \<Longrightarrow> va mod PGSIZE = 0 \<Longrightarrow> pt_get (mem s') root va = pt_get (mem s) root va) \<Longrightarrow> grown root a a s s'"
  unfolding grown_def by (rule exI [of _ id]) (simp add: no_page_at)

lemma fresh_frame_back: "uvm_ext root s s1 \<Longrightarrow> fresh_frame root s1 s2 pa \<Longrightarrow> fresh_frame root s s2 pa"
  by (auto simp: fresh_frame_def dest: uvm_extD(3))

lemma grown_step:
  assumes x: "uvm_ext root s s1" "uvm_ext root s1 s2" and a: "a mod PGSIZE = 0" "a + PGSIZE \<le> c"
    and f: "fresh_frame root s s1 pa" and mr: "mapped_range (mem s) (mem s1) root a (a + PGSIZE) pa user_rw"
    and g: "grown root (a + PGSIZE) c s1 s2"
  shows "grown root a c s s2"
proof -
  obtain fr where fr: "inj_on fr {va. page_at (a + PGSIZE) c va}"
    "\<And>va. page_at (a + PGSIZE) c va \<Longrightarrow> fresh_frame root s1 s2 (fr va) \<and> pt_get (mem s2) root va = pa_to_pte (fr va) (user_rw OR PTE_V)"
    "\<And>va. va < VA_MAX \<Longrightarrow> va mod PGSIZE = 0 \<Longrightarrow> \<not> page_at (a + PGSIZE) c va \<Longrightarrow> pt_get (mem s2) root va = pt_get (mem s1) root va"
    using g unfolding grown_def by blast
  have split: "page_at a c va \<longleftrightarrow> va = a \<and> a < VA_MAX \<or> page_at (a + PGSIZE) c va" for va
    using page_less [OF a(1), of va] a by (auto simp: page_at_def PGSIZE_def)
  have na: "\<not> page_at (a + PGSIZE) c a" by (simp add: page_at_def PGSIZE_def)
  have old: "pa \<in> live s1" using f by (simp add: fresh_frame_def)
  have "fr va \<noteq> pa" if "page_at (a + PGSIZE) c va" for va using fr(2) [OF that] old by (auto simp: fresh_frame_def)
  then have "inj_on (fr(a := pa)) {va. page_at a c va}"
    using fr(1) na by (auto simp: inj_on_def split)
  moreover have "fresh_frame root s s2 ((fr(a := pa)) va) \<and> pt_get (mem s2) root va = pa_to_pte ((fr(a := pa)) va) (user_rw OR PTE_V)"
    if v: "page_at a c va" for va
  proof (cases "va = a")
    case True
    have "pt_get (mem s2) root a = pt_get (mem s1) root a" using fr(3) [OF _ a(1) na] v True by (auto simp: page_at_def)
    then show ?thesis using True fresh_frame_ext [OF x(1) f x(2)] mr v a(1) by (auto simp: mapped_range_def page_at_def PGSIZE_def)
  next
    case False
    then have "page_at (a + PGSIZE) c va" using v split by blast
    then show ?thesis using False fr(2) fresh_frame_back [OF x(1)] by simp
  qed
  moreover have "pt_get (mem s2) root va = pt_get (mem s) root va" if "va < VA_MAX" "va mod PGSIZE = 0" "\<not> page_at a c va" for va
  proof -
    have n: "\<not> page_at (a + PGSIZE) c va" "va \<noteq> a" using that split by auto
    have "va < a \<or> a + PGSIZE \<le> va" using page_less [OF a(1) that(2)] n(2) by linarith
    then have "pt_get (mem s1) root va = pt_get (mem s) root va" using mr that(1,2) by (auto simp: mapped_range_def)
    then show ?thesis using fr(3) [OF that(1,2) n(1)] by simp
  qed
  ultimately show ?thesis unfolding grown_def by blast
qed

lemma grow_loop_spec:
  assumes "pmem_inv s" and "pt_wf (live s) (mem s) root" and "a mod PGSIZE = 0" and "last_pg mod PGSIZE = 0" and "a \<le> last_pg"
    and "last_pg < 2 ^ 63" and "grow_loop root last_pg a s = Some (r, s')"
  shows "uvm_ext root s s' \<and> (case r of
      Inr _ \<Rightarrow> grown root a last_pg s s'
    | Inl e \<Rightarrow> e = MapFailed \<and> (\<exists>c. a \<le> c \<and> c < last_pg \<and> c mod PGSIZE = 0 \<and> grown root a c s s' \<and>
        (c < VA_MAX \<longrightarrow> is_valid (pt_get (mem s) root c))))"
  using assms
proof (induction "last_pg - a" arbitrary: a s rule: less_induct)
  case less
  note run = less.prems(7) [unfolded grow_loop.simps [of root last_pg a s]]
  show ?case
  proof (cases "last_pg \<le> a")
    case True
    then have "r = Inr ()" "s' = s" "a = last_pg" using run less.prems(5) by auto
    then show ?thesis using pt_ext_refl [of pmem_inv s live root] less.prems(1,2) grown_same [of s root s] by simp
  next
    case False
    then have le: "a + PGSIZE \<le> last_pg" using page_less [OF less.prems(3,4)] by simp
    then have a: "a + PGSIZE < 2 ^ 63" using less.prems(6) by simp
    obtain pa s1 where al: "pmem_alloc False s = Some (pa, s1)" using run False by (auto split: option.splits)
    then have "pa \<noteq> 0" using user_alloc_ext(7) [OF less.prems(1,2)] by simp
    then obtain ok s2 where mp: "pt_map root a pa PGSIZE user_rw s1 = Some (ok, s2)" using run False al by (auto split: option.splits)
    note st = grow_step [OF less.prems(1-3) a al mp]
    note x = uvm_extD [OF st(1)]
    show ?thesis
    proof (cases ok)
      case bad: False
      then have "r = Inl MapFailed" "s' = s2" using run False al mp \<open>pa \<noteq> 0\<close> by auto
      moreover have "grown root a a s s2" using st(3) bad by (intro grown_same) auto
      ultimately show ?thesis using st(1,3) bad False less.prems(3) by auto
    next
      case True
      have "uadd a PGSIZE = Some (a + PGSIZE)" using a by (simp add: cadd_def)
      then have run': "grow_loop root last_pg (a + PGSIZE) s2 = Some (r, s')" using run False al mp \<open>pa \<noteq> 0\<close> True by simp
      have al2: "(a + PGSIZE) mod PGSIZE = 0" using less.prems(3) by simp
      have "last_pg - (a + PGSIZE) < last_pg - a" using False by (simp add: PGSIZE_def)
      from less.hyps [OF this x(1,2) al2 less.prems(4) le less.prems(6) run']
      have IH: "uvm_ext root s2 s'" "case r of Inr _ \<Rightarrow> grown root (a + PGSIZE) last_pg s2 s'
        | Inl e \<Rightarrow> e = MapFailed \<and> (\<exists>c. a + PGSIZE \<le> c \<and> c < last_pg \<and> c mod PGSIZE = 0 \<and> grown root (a + PGSIZE) c s2 s' \<and>
            (c < VA_MAX \<longrightarrow> is_valid (pt_get (mem s2) root c)))" by auto
      have mr: "mapped_range (mem s) (mem s2) root a (a + PGSIZE) pa user_rw" using st(3) True by simp
      note step = grown_step [OF st(1) IH(1) less.prems(3) _ st(2) mr]
      have keep: "pt_get (mem s2) root c = pt_get (mem s) root c" if "a + PGSIZE \<le> c" "c < VA_MAX" "c mod PGSIZE = 0" for c
        using mr that by (simp add: mapped_range_def)
      show ?thesis
      proof (cases r)
        case (Inr u)
        then show ?thesis using pt_ext_trans [OF st(1) IH(1)] step [OF le] IH(2) by simp
      next
        case (Inl e)
        then obtain c where c: "e = MapFailed" "a + PGSIZE \<le> c" "c < last_pg" "c mod PGSIZE = 0" "grown root (a + PGSIZE) c s2 s'"
          "c < VA_MAX \<longrightarrow> is_valid (pt_get (mem s2) root c)" using IH(2) by auto
        have "grown root a c s s'" using step [OF c(2,5)] .
        moreover have "c < VA_MAX \<longrightarrow> is_valid (pt_get (mem s) root c)" using c(6) keep [OF c(2) _ c(4)] by auto
        moreover have "a \<le> c" using c(2) by simp
        ultimately show ?thesis using Inl c(1,3,4) pt_ext_trans [OF st(1) IH(1)] by auto
      qed
    qed
  qed
qed

section \<open>Heap\<close>

lemma MMAP_BEGIN_page: "MMAP_BEGIN mod PGSIZE = 0" "MMAP_BEGIN < VA_MAX" "MMAP_BEGIN < 2 ^ 38"
  by (simp_all add: MMAP_BEGIN_def MMAP_END_def VA_MAX_eq PGSIZE_def)

lemma align_up_MMAP_BEGIN:
  assumes "align_up t = Some e" and "t \<le> MMAP_BEGIN"
  shows "e \<le> MMAP_BEGIN"
proof (rule ccontr)
  assume "\<not> e \<le> MMAP_BEGIN"
  then have "MMAP_BEGIN + PGSIZE \<le> e" using page_less [OF MMAP_BEGIN_page(1) align_up_bounds(3) [OF assms(1)]] by simp
  then show False using align_up_bounds(2) [OF assms(1)] assms(2) by (simp add: PGSIZE_def)
qed

lemma align_up_mono: "align_up x = Some a \<Longrightarrow> align_up y = Some b \<Longrightarrow> x \<le> y \<Longrightarrow> a \<le> b"
  by (auto simp: align_up_Some_iff intro!: mult_le_mono1 div_le_mono)

text \<open>C25. Growing the heap. From a well-formed state, \<open>heap_grow\<close> keeps the allocator and the tables
  well formed and writes no live page but tables. When it succeeds, exactly the pages between the two
  aligned tops are mapped for the user, read-write, each to its own zeroed page that was not in use, and
  every other entry is kept. It fails with \<open>OutOfRange\<close> exactly above \<open>MMAP_BEGIN\<close>, changing nothing, or
  with \<open>MapFailed\<close> at the first page that is already mapped, with the pages before it mapped; it
  never returns \<open>NoMem\<close>, because the allocator panics instead.\<close>

theorem heap_grow_correct:
  assumes "pmem_inv s" and "pt_wf (live s) (mem s) root" and "old_top \<le> new_top"
    and "align_up old_top = Some a" and "align_up new_top = Some e"
    and "heap_grow root old_top new_top s = Some (r, s')"
  shows "uvm_ext root s s' \<and> (r = Inl OutOfRange \<longleftrightarrow> MMAP_BEGIN < new_top) \<and> (case r of
      Inr _ \<Rightarrow> grown root a e s s'
    | Inl OutOfRange \<Rightarrow> s' = s
    | Inl NoMem \<Rightarrow> False
    | Inl MapFailed \<Rightarrow> \<exists>c. a \<le> c \<and> c < e \<and> c mod PGSIZE = 0 \<and> grown root a c s s' \<and> is_valid (pt_get (mem s) root c))"
proof (cases "MMAP_BEGIN < new_top")
  case True
  then have "r = Inl OutOfRange" "s' = s" using assms(6) by (auto simp: heap_grow_def)
  then show ?thesis using True pt_ext_refl [of pmem_inv s live root] assms(1,2) by simp
next
  case False
  have run: "grow_loop root e a s = Some (r, s')" using assms(4-6) False by (simp add: heap_grow_def)
  have e: "e < VA_MAX" using align_up_MMAP_BEGIN [OF assms(5)] False MMAP_BEGIN_page(2) by simp
  then have "e < 2 ^ 63" by (simp add: VA_MAX_eq)
  note spec = grow_loop_spec [OF assms(1,2) align_up_bounds(3) [OF assms(4)] align_up_bounds(3) [OF assms(5)]
    align_up_mono [OF assms(4,5,3)] this run]
  show ?thesis
  proof (cases r)
    case (Inl err)
    then show ?thesis using spec False e by (auto split: uvm_error.splits)
  qed (use spec False in auto)
qed

text \<open>A machine with two user pages and four kernel pages.\<close>

definition uvm_example :: pmem where
  "uvm_example = pmem_example\<lparr>user_region := \<lparr>reg_bounds = Some \<lparr>rb_begin = 0x80005000, rb_end = 0x80007000\<rparr>,
       reg_head = Some 0x80006000, reg_allocable = 2\<rparr>,
     mem := write_next (mem pmem_example) 0x80006000 (Some 0x80005000)\<rparr>"

lemma page_in_uvm_example:
  "page_in \<lparr>rb_begin = 0x80005000, rb_end = 0x80007000\<rparr> p \<longleftrightarrow> p \<in> {0x80006000, 0x80005000}"
  by (auto simp: page_in_def PGSIZE_def elim!: dvdE simp flip: dvd_eq_mod_eq_0)

lemma uvm_example_inv: "pmem_inv uvm_example"
proof -
  have "region_inv True uvm_example [0x80004000, 0x80003000, 0x80002000, 0x80001000]"
    using read_write_next [of "Some 0x80001000"] read_write_next [of "Some 0x80002000"] read_write_next [of "Some 0x80003000"]
    by (simp add: region_inv_def region_of_def uvm_example_def pmem_example_def read_write_next_other read_next_zero
      page_in_example bounds_ok_def PHY_MEM_START_def TOTAL_PAGES_def PGSIZE_def)
  moreover have "region_inv False uvm_example [0x80006000, 0x80005000]"
    using read_write_next [of "Some 0x80005000"]
    by (simp add: region_inv_def region_of_def uvm_example_def pmem_example_def read_write_next_other read_next_zero
      page_in_uvm_example bounds_ok_def PHY_MEM_START_def TOTAL_PAGES_def PGSIZE_def)
  ultimately have "\<exists>xs. region_inv k uvm_example xs" for k by (cases k) auto
  moreover have "\<not> (has_page True uvm_example p \<and> has_page False uvm_example p)" for p
    by (auto simp: has_page_def region_of_def uvm_example_def pmem_example_def page_in_def)
  ultimately show ?thesis by (auto simp: pmem_inv_def)
qed

lemma uvm_example_free: "free_pages True uvm_example = {0x80001000, 0x80002000, 0x80003000, 0x80004000}"
    "free_pages False uvm_example = {0x80005000, 0x80006000}"
  by (auto simp: free_pages_def has_page_def region_of_def uvm_example_def pmem_example_def page_in_example page_in_uvm_example)

lemma free_pages_other:
  assumes "pmem_inv s" and "pmem_alloc k s = Some (p, s')" and "k' \<noteq> k"
  shows "free_pages k' s' = free_pages k' s"
proof -
  have post: "alloc_post k s p s'" using pmem_alloc_post [OF assms(1), of k] assms(2) by auto
  have hp: "has_page k' s' q = has_page k' s q" for q using post by (simp add: has_page_def alloc_post_def)
  have "has_page k s p" using post by (simp add: alloc_post_def free_pages_def)
  then have "pg_idx q \<noteq> pg_idx p" if "has_page k' s q" for q
    using inv_idx_eq [OF assms(1) that] inv_disjoint [OF assms(1) that] assms(3) by metis
  then show ?thesis using post hp by (auto simp: free_pages_def alloc_post_def)
qed

lemma uvm_example_root:
  "\<exists>root s. pmem_alloc True uvm_example = Some (root, s) \<and> pmem_inv s \<and> pt_wf (live s) (mem s) root \<and>
    card (free_pages True s) = 3 \<and> free_pages False s \<noteq> {} \<and> (\<forall>va. pt_get (mem s) root va = 0)"
proof -
  obtain root s where al: "pmem_alloc True uvm_example = Some (root, s)"
    using pmem_alloc_post [OF uvm_example_inv, of True] uvm_example_free by auto
  have "root \<in> live s" using kernel_frames.alloc_owned [OF uvm_example_inv al] by simp
  moreover have "mem s x = 0" if "root \<le> x" "x < root + PGSIZE" for x
    using kernel_frames.alloc_mem [OF uvm_example_inv al] that by (simp add: write_bytes_def)
  ultimately have "pt_wf (live s) (mem s) root" "\<forall>va. pt_get (mem s) root va = 0"
    using empty_root_wf [of root "live s" "mem s"] by blast+
  moreover have "card (free_pages True s) = 3"
    using kernel_frames.alloc_avail [OF uvm_example_inv al] by (simp add: uvm_example_free)
  moreover have "free_pages False s \<noteq> {}" using free_pages_other [OF uvm_example_inv al, of False] by (simp add: uvm_example_free)
  ultimately show ?thesis using al kernel_frames.alloc_good [OF uvm_example_inv al] by blast
qed

text \<open>One page grows when the user region has a page, the kernel region two, and the page is not mapped.\<close>

lemma grow_page_succeeds:
  assumes inv: "pmem_inv s" and wf: "pt_wf (live s) (mem s) root" and a: "a mod PGSIZE = 0" "a < VA_MAX"
    and free: "free_pages False s \<noteq> {}" "2 \<le> card (free_pages True s)" "\<not> is_valid (pt_get (mem s) root a)"
  shows "\<exists>s'. grow_loop root (a + PGSIZE) a s = Some (Inr (), s')"
proof -
  have a': "a + PGSIZE < 2 ^ 63" using a(2) by (simp add: VA_MAX_eq PGSIZE_def)
  obtain pa s1 where al: "pmem_alloc False s = Some (pa, s1)" using pmem_alloc_post [OF inv, of False] free(1) by auto
  note u = user_alloc_ext [OF inv wf al]
  note x = uvm_extD [OF u(1)]
  have down: "align_down a = a" "align_down pa = pa" using a a' u(8,9) by (auto intro!: align_down_id)
  have mp: "\<forall>b. align_down a \<le> b \<longrightarrow> b < a + PGSIZE \<longrightarrow> b mod PGSIZE = 0 \<longrightarrow> mappable (mem s1) root b (align_down pa + (b - align_down a))"
  proof (intro allI impI)
    fix b assume "align_down a \<le> b" "b < a + PGSIZE" "b mod PGSIZE = 0"
    then have "b = a" using page_less [OF a(1), of b] down by auto
    then show "mappable (mem s1) root b (align_down pa + (b - align_down a))" using free(3) u(2) a(2) by (simp add: mappable_def)
  qed
  have cnt: "2 * ((a + PGSIZE - align_down a) div PGSIZE) \<le> card (free_pages True s1)"
    using free(2) free_pages_other [OF inv al, of True] down by (simp add: PGSIZE_def)
  have "0 < PGSIZE" "align_down pa + (a + PGSIZE - align_down a) < 2 ^ 64" using down u(9) by (simp_all add: PGSIZE_def)
  then obtain s2 where mp2: "pt_map root a pa PGSIZE user_rw s1 = Some (True, s2)"
    using pt_map_total [OF x(1,2) _ align_up_next [OF a(1) a'] _ mp cnt, of user_rw] by blast
  have "uadd a PGSIZE = Some (a + PGSIZE)" using a' by (simp add: cadd_def)
  then have "grow_loop root (a + PGSIZE) a s = grow_loop root (a + PGSIZE) (a + PGSIZE) s2"
    using al mp2 u(7) \<open>0 < PGSIZE\<close> by (simp add: grow_loop.simps [of root "a + PGSIZE" a s])
  then show ?thesis by (simp add: grow_loop.simps [of root "a + PGSIZE" "a + PGSIZE" s2])
qed

theorem heap_grow_correct_witness:
  "\<exists>root s s'. pmem_alloc True uvm_example = Some (root, s) \<and> heap_grow root 0x10000 0x10800 s = Some (Inr (), s') \<and>
    grown root 0x10000 0x11000 s s'"
proof -
  obtain root s where s: "pmem_alloc True uvm_example = Some (root, s)" "pmem_inv s" "pt_wf (live s) (mem s) root"
    "card (free_pages True s) = 3" "free_pages False s \<noteq> {}" "\<forall>va. pt_get (mem s) root va = 0"
    using uvm_example_root by blast
  have e: "align_up 0x10000 = Some 0x10000" "align_up 0x10800 = Some 0x11000" by (simp_all add: align_up_Some_iff PGSIZE_def)
  obtain s' where "grow_loop root (0x10000 + PGSIZE) 0x10000 s = Some (Inr (), s')"
    using grow_page_succeeds [OF s(2,3), of "0x10000"] s(4-6) by (auto simp: PGSIZE_def VA_MAX_eq is_valid_eq)
  then have "heap_grow root 0x10000 0x10800 s = Some (Inr (), s')"
    using e by (simp add: heap_grow_def PGSIZE_def MMAP_BEGIN_def MMAP_END_def VA_MAX_eq)
  then show ?thesis using heap_grow_correct [OF s(2,3) _ e] s(1) by fastforce
qed

text \<open>The heap of a process lies between its base and the mmap area and ends on a page boundary.\<close>

definition brk_inv :: "uproc \<Rightarrow> bool" where
  "brk_inv p \<longleftrightarrow> heap_top p mod PGSIZE = 0 \<and> heap_base p \<le> heap_top p \<and> heap_top p \<le> MMAP_BEGIN"

lemma heap_ungrow_spec:
  assumes inv: "unmap_inv root s" and al: "old_top mod PGSIZE = 0" "new_top mod PGSIZE = 0" and lt: "new_top < old_top"
    and top: "old_top < 2 ^ 63" and run: "heap_ungrow root old_top new_top s = Some (r, s')"
  shows "unmap_inv root s' \<and> (r = Inr () \<and> unmapped_range (mem s) (mem s') root new_top old_top \<or> r = Inl MapFailed)"
proof -
  have up: "align_up new_top = Some new_top" "align_up old_top = Some old_top"
    using al lt top by (auto intro!: align_up_id)
  obtain ok where ok: "pt_unmap root new_top (old_top - new_top) True s = Some (ok, s')" "r = (if ok then Inr () else Inl MapFailed)"
    using run lt up by (auto simp: heap_ungrow_def saturating_sub_def panic_simps)
  have e: "align_up (new_top + (old_top - new_top)) = Some old_top" and pos: "0 < old_top - new_top" using up lt by simp_all
  note u = unmap_range [OF pos e]
  have down: "align_down new_top = new_top" using al(2) lt top by (intro align_down_id) auto
  obtain c where "unmap_inv root s'" "unmapped_range (mem s) (mem s') root new_top c" "ok \<longrightarrow> c = old_top"
    using unmap_loop_spec [OF inv u(1-3) ok(1) [unfolded u(5)]] u(4) down by (auto split: if_splits)
  then show ?thesis using ok(2) by auto
qed

text \<open>The step of \<open>sys_brk\<close> from the old top to the new one.\<close>

lemma brk_move:
  assumes inv: "unmap_inv root s" and old: "old mod PGSIZE = 0" "old < 2 ^ 63" and h: "h mod PGSIZE = 0" "h \<le> MMAP_BEGIN"
    and res: "(if old < h then heap_grow root old h s else if h < old then heap_ungrow root old h s else Some (Inr (), s)) = Some (res, s')"
  shows "pmem_inv s' \<and> pt_wf (live s') (mem s') root \<and>
    (res = Inr () \<longrightarrow> (if old \<le> h then grown root old h s s' else unmapped_range (mem s) (mem s') root h old))"
proof -
  have i: "pmem_inv s" "pt_wf (live s) (mem s) root" using inv by (auto simp: unmap_inv_def)
  have h63: "h < 2 ^ 63" using h(2) MMAP_BEGIN_page by simp
  consider "old < h" | "h < old" | "h = old" by linarith
  then show ?thesis
  proof cases
    case 1
    have "align_up h = Some h" "align_up old = Some old" using h(1) h63 old by (auto intro!: align_up_id)
    then have g: "grow_loop root h old s = Some (res, s')" using res 1 h(2) by (simp add: heap_grow_def)
    from grow_loop_spec [OF i old(1) h(1) _ h63 g] 1
    have "uvm_ext root s s'" "res = Inr () \<Longrightarrow> grown root old h s s'" by (auto split: sum.splits)
    then show ?thesis using 1 uvm_extD(1,2) by (cases res) auto
  next
    case 2
    then have "heap_ungrow root old h s = Some (res, s')" using res by simp
    from heap_ungrow_spec [OF inv old(1) h(1) 2 old(2) this] show ?thesis using 2 by (auto simp: unmap_inv_def split: sum.splits)
  next
    case 3
    then show ?thesis using res i grown_same [of s root s] by simp
  qed
qed

text \<open>C26. \<open>sys_brk\<close> keeps the heap between its base and the mmap area, on page boundaries. It answers a query with the
  current top, or the new top after exactly the pages between the old and the new top were mapped
  to fresh zeroed pages or unmapped, or \<open>usize::MAX\<close> with the process unchanged; the tables stay well formed.\<close>

theorem sys_brk_correct:
  assumes inv: "unmap_inv (root_pt_pa p) s" and p: "brk_inv p" and run: "sys_brk new_top p s = Some (ret, p', s')"
  shows "brk_inv p' \<and> pmem_inv s' \<and> pt_wf (live s') (mem s') (root_pt_pa p) \<and>
    (ret = usize_MAX \<and> p' = p \<or>
     new_top = 0 \<and> ret = heap_top p \<and> p' = p \<and> s' = s \<or>
     align_up new_top = Some ret \<and> p' = p\<lparr>heap_top := ret\<rparr> \<and>
       (if heap_top p \<le> ret then grown (root_pt_pa p) (heap_top p) ret s s'
        else unmapped_range (mem s) (mem s') (root_pt_pa p) ret (heap_top p)))"
proof -
  let ?root = "root_pt_pa p" and ?old = "heap_top p"
  have i: "pmem_inv s" "pt_wf (live s) (mem s) ?root" using inv by (auto simp: unmap_inv_def)
  have old: "?old mod PGSIZE = 0" "?old < 2 ^ 63" using p MMAP_BEGIN_page by (auto simp: brk_inv_def)
  consider "new_top = 0" | "MMAP_BEGIN < new_top \<or> new_top < heap_base p" "new_top \<noteq> 0"
    | "new_top \<noteq> 0" "new_top \<le> MMAP_BEGIN" "heap_base p \<le> new_top" by linarith
  then show ?thesis
  proof cases
    case 3
    then obtain h res s1 where h: "align_up new_top = Some h"
      and res1: "(if ?old < h then heap_grow ?root ?old h s else if h < ?old then heap_ungrow ?root ?old h s else Some (Inr (), s)) = Some (res, s1)"
      and out1: "(case res of Inr _ \<Rightarrow> Some (h, p\<lparr>heap_top := h\<rparr>, s1) | Inl _ \<Rightarrow> Some (usize_MAX, p, s1)) = Some (ret, p', s')"
      using run unfolding sys_brk_def Let_def by (auto simp: bind_Some_prod simp del: split_paired_Ex cong del: if_weak_cong)
    then have res: "(if ?old < h then heap_grow ?root ?old h s else if h < ?old then heap_ungrow ?root ?old h s else Some (Inr (), s)) = Some (res, s')"
      and out: "case res of Inr _ \<Rightarrow> ret = h \<and> p' = p\<lparr>heap_top := h\<rparr> | Inl _ \<Rightarrow> ret = usize_MAX \<and> p' = p"
      by (cases res; simp)+
    note hb = align_up_bounds [OF h]
    have hm: "h \<le> MMAP_BEGIN" using align_up_MMAP_BEGIN [OF h 3(2)] .
    then have p': "brk_inv p'" using out p hb 3 by (auto simp: brk_inv_def split: sum.splits)
    show ?thesis using brk_move [OF inv old hb(3) hm res] out p' h by (cases res) auto
  next
    case 1
    then have "ret = heap_top p" "p' = p" "s' = s" using run by (auto simp: sys_brk_def)
    then show ?thesis using p i 1 by blast
  next
    case 2
    then have "sys_brk new_top p s = Some (usize_MAX, p, s)" by (auto simp: sys_brk_def Let_def)
    then show ?thesis using run p i by simp
  qed
qed

theorem sys_brk_correct_witness:
  "\<exists>root s s'. pmem_alloc True uvm_example = Some (root, s) \<and>
    sys_brk 0x10800 \<lparr>root_pt_pa = root, heap_base = 0x10000, heap_top = 0x10000, mmap_head = None\<rparr> s =
      Some (0x11000, \<lparr>root_pt_pa = root, heap_base = 0x10000, heap_top = 0x11000, mmap_head = None\<rparr>, s') \<and>
    grown root 0x10000 0x11000 s s'"
proof -
  obtain root s where s: "pmem_alloc True uvm_example = Some (root, s)" "pmem_inv s" "pt_wf (live s) (mem s) root"
    "card (free_pages True s) = 3" "free_pages False s \<noteq> {}" "\<forall>va. pt_get (mem s) root va = 0"
    using uvm_example_root by blast
  let ?p = "\<lparr>root_pt_pa = root, heap_base = 0x10000, heap_top = 0x10000, mmap_head = None\<rparr>"
  have e: "align_up 0x10000 = Some 0x10000" "align_up 0x10800 = Some 0x11000" "align_up 0x11000 = Some 0x11000"
    by (simp_all add: align_up_Some_iff PGSIZE_def)
  obtain s' where "grow_loop root (0x10000 + PGSIZE) 0x10000 s = Some (Inr (), s')"
    using grow_page_succeeds [OF s(2,3), of "0x10000"] s(4-6) by (auto simp: PGSIZE_def VA_MAX_eq is_valid_eq)
  then have run: "sys_brk 0x10800 ?p s = Some (0x11000, ?p\<lparr>heap_top := 0x11000\<rparr>, s')"
    using e by (simp add: sys_brk_def heap_grow_def PGSIZE_def MMAP_BEGIN_def MMAP_END_def VA_MAX_eq)
  have "unmap_inv (root_pt_pa ?p) s" using s(2,3,6) by (simp add: unmap_inv_def frames_apart_def is_mapped_def is_valid_eq)
  moreover have "brk_inv ?p" by (simp add: brk_inv_def PGSIZE_def MMAP_BEGIN_def MMAP_END_def VA_MAX_eq)
  ultimately show ?thesis using sys_brk_correct [OF _ _ run] run s(1) e by (auto simp: usize_MAX_def)
qed

end
