(* ===== verification/Regions.thy ===== *)
theory Regions
  imports Uvm
begin

text \<open>
  The region list of a process under \<open>mmap\<close> (\<^verbatim>\<open>mem/uvm.rs\<close>). The list is abstracted to the sequence of
  its extents (begin, number of pages): sorted, disjoint, page-aligned, inside the mmap area. The lemmas
  on extents are the four ways in which a new range joins the sequence; the lemmas on the warehouse
  show that each pointer update of the code performs the one it should.
\<close>

section \<open>Extents\<close>

type_synonym extent = "usize \<times> nat"

definition ext_end :: "extent \<Rightarrow> nat" where
  "ext_end x = fst x + snd x * PGSIZE"

definition ext_before :: "extent \<Rightarrow> extent \<Rightarrow> bool" where
  "ext_before x y \<longleftrightarrow> ext_end x \<le> fst y"

definition ext_fits :: "usize \<Rightarrow> usize \<Rightarrow> extent \<Rightarrow> bool" where
  "ext_fits lo hi x \<longleftrightarrow> lo \<le> fst x \<and> 0 < snd x \<and> ext_end x \<le> hi \<and> fst x mod PGSIZE = 0"

definition extents_ok :: "usize \<Rightarrow> usize \<Rightarrow> extent list \<Rightarrow> bool" where
  "extents_ok lo hi xs \<longleftrightarrow> sorted_wrt ext_before xs \<and> (\<forall>x \<in> set xs. ext_fits lo hi x)"

definition covered :: "extent list \<Rightarrow> usize set" where
  "covered xs = (\<Union>x \<in> set xs. {fst x..<ext_end x})"

lemma covered_simps [simp]:
  "covered [] = {}" "covered (x # xs) = {fst x..<ext_end x} \<union> covered xs" "covered (xs @ ys) = covered xs \<union> covered ys"
  by (auto simp: covered_def)

lemma extents_append:
  "extents_ok lo hi (xs @ ys) \<longleftrightarrow> extents_ok lo hi xs \<and> extents_ok lo hi ys \<and> (\<forall>x \<in> set xs. \<forall>y \<in> set ys. ext_before x y)"
  by (auto simp: extents_ok_def sorted_wrt_append)

lemma extents_Cons:
  "extents_ok lo hi (x # xs) \<longleftrightarrow> ext_fits lo hi x \<and> extents_ok lo hi xs \<and> (\<forall>y \<in> set xs. ext_before x y)"
  by (auto simp: extents_ok_def)

lemma ext_fits_order: "ext_fits lo hi x \<Longrightarrow> fst x < ext_end x"
  by (simp add: ext_fits_def ext_end_def PGSIZE_def)

text \<open>Everything before the last of some extents is before what that one is before.\<close>

lemma before_last:
  assumes "extents_ok lo hi xs" and "xs \<noteq> []" and "ext_end (last xs) \<le> b" and "x \<in> set xs"
  shows "ext_end x \<le> b"
  using assms
proof (induction xs)
  case (Cons y ys)
  show ?case
  proof (cases "ys = []")
    case False
    have "last ys \<in> set ys" using False by simp
    then have "ext_end y \<le> fst (last ys)" "ext_fits lo hi (last ys)"
      using Cons.prems(1) by (auto simp: extents_ok_def ext_before_def)
    then have "ext_end y \<le> ext_end (last ys)" using ext_fits_order [of lo hi "last ys"] by simp
    then show ?thesis using Cons False by (auto simp: extents_Cons)
  qed (use Cons.prems in auto)
qed simp

lemma after_hd:
  assumes "extents_ok lo hi xs" and "xs \<noteq> []" and "e \<le> fst (hd xs)" and "x \<in> set xs"
  shows "e \<le> fst x"
proof (cases xs)
  case (Cons y ys)
  then have "x = y \<or> fst y < fst x"
    using assms(1,4) ext_fits_order [of lo hi y] by (auto simp: extents_Cons ext_before_def)
  then show ?thesis using assms(3) Cons by auto
qed (use assms in simp)

lemma ext_insert:
  assumes ok: "extents_ok lo hi (us @ vs)" and new: "ext_fits lo hi x"
    and l: "us \<noteq> [] \<Longrightarrow> ext_end (last us) \<le> fst x" and r: "vs \<noteq> [] \<Longrightarrow> ext_end x \<le> fst (hd vs)"
  shows "extents_ok lo hi (us @ x # vs)" "covered (us @ vs) \<inter> {fst x..<ext_end x} = {}"
proof -
  have o: "extents_ok lo hi us" "extents_ok lo hi vs" "\<forall>u \<in> set us. \<forall>v \<in> set vs. ext_before u v" using ok by (auto simp: extents_append)
  have L: "ext_end u \<le> fst x" if "u \<in> set us" for u
  proof -
    have "us \<noteq> []" using that by auto
    from before_last [OF o(1) this l [OF this] that] show ?thesis .
  qed
  have R: "ext_end x \<le> fst v" if "v \<in> set vs" for v
  proof -
    have "vs \<noteq> []" using that by auto
    from after_hd [OF o(2) this r [OF this] that] show ?thesis .
  qed
  show "extents_ok lo hi (us @ x # vs)" using o new L R by (auto simp: extents_append extents_Cons ext_before_def)
  show "covered (us @ vs) \<inter> {fst x..<ext_end x} = {}" using L R by (fastforce simp: covered_def)
qed

text \<open>Two adjacent extents may be fused into one.\<close>

lemma ext_fuse:
  assumes "extents_ok lo hi (us @ (b, k) # (c, n) # vs)" and "c = b + k * PGSIZE"
  shows "extents_ok lo hi (us @ (b, k + n) # vs)" "covered (us @ (b, k + n) # vs) = covered (us @ (b, k) # (c, n) # vs)"
proof -
  have e: "ext_end (b, k + n) = ext_end (c, n)" using assms(2) by (simp add: ext_end_def algebra_simps)
  have f: "ext_fits lo hi (b, k)" "ext_fits lo hi (c, n)" using assms(1) by (auto simp: extents_append extents_Cons)
  then show "extents_ok lo hi (us @ (b, k + n) # vs)"
    using assms(1) e by (auto simp: extents_append extents_Cons ext_before_def ext_fits_def)
  have "ext_end (b, k) = c" using assms(2) by (simp add: ext_end_def)
  then have "{b..<ext_end (c, n)} = {b..<ext_end (b, k)} \<union> {c..<ext_end (c, n)}"
    using ext_fits_order [OF f(1)] ext_fits_order [OF f(2)] by auto
  then show "covered (us @ (b, k + n) # vs) = covered (us @ (b, k) # (c, n) # vs)" using e by auto
qed

section \<open>Region lists\<close>

definition ext_of :: "mmap_region \<Rightarrow> extent" where
  "ext_of r = (mr_begin r, mr_npages r)"

abbreviation exts :: "warehouse \<Rightarrow> nat list \<Rightarrow> extent list" where
  "exts w xs \<equiv> map (\<lambda>i. ext_of (wh_mmap w i)) xs"

abbreviation nexts :: "warehouse \<Rightarrow> nat \<Rightarrow> nat option" where
  "nexts w \<equiv> \<lambda>i. mr_next (wh_mmap w i)"

text \<open>The nodes \<open>xs\<close> form the region list from \<open>h\<close>, and none of them is in the warehouse's free list.\<close>

definition space_ok :: "usize \<Rightarrow> usize \<Rightarrow> warehouse \<Rightarrow> nat option \<Rightarrow> nat list \<Rightarrow> bool" where
  "space_ok lo hi w h xs \<longleftrightarrow> chain (nexts w) h xs \<and> extents_ok lo hi (exts w xs) \<and> wh_inv w \<and>
     (xs \<noteq> [] \<longrightarrow> wh_init w) \<and> set xs \<subseteq> {..<N_MMAP} \<and> set xs \<inter> wh_free w = {}"

lemma set_node_sel [simp]:
  "wh_mmap (set_node i r w) = (wh_mmap w)(i := r)" "wh_init (set_node i r w) = wh_init w"
  "wh_head (set_node i r w) = wh_head w" "wh_next (set_node i r w) = wh_next w"
  by (simp_all add: set_node_def)

lemma set_node_pool [simp]: "wh_inv (set_node i r w) = wh_inv w" "wh_free (set_node i r w) = wh_free w"
  by (simp_all add: wh_inv_def wh_free_def)

lemma nexts_set_node: "nexts (set_node i r w) = (nexts w)(i := mr_next r)"
  by auto

lemma exts_set_node: "i \<notin> set xs \<Longrightarrow> exts (set_node i r w) xs = exts w xs"
  by (auto simp: ext_of_def)

lemma region_end_eq:
  assumes "ext_fits lo hi (ext_of r)" and "hi < 2 ^ 38"
  shows "region_end r = Some (ext_end (ext_of r))"
proof -
  have "mr_begin r + mr_npages r * PGSIZE < 2 ^ 64" using assms by (simp add: ext_fits_def ext_end_def ext_of_def)
  then show ?thesis by (simp add: region_end_def cmul_def cadd_def ext_end_def ext_of_def)
qed

lemma as_u32_pages: "n * PGSIZE < 2 ^ 38 \<Longrightarrow> as_u32 n = n"
  by (simp add: as_u32_def PGSIZE_def)

lemma PGSIZE_pos [simp]: "0 < PGSIZE"
  by (simp add: PGSIZE_def)

lemma as_u32_sum: "n * PGSIZE + m * PGSIZE < 2 ^ 38 \<Longrightarrow> as_u32 ((n * PGSIZE + m * PGSIZE) div PGSIZE) = n + m"
  using as_u32_pages [of "n + m"] by (simp flip: add_mult_distrib)

text \<open>The two walks over a list return, and where they stop.\<close>

lemma mmap_scan_spec:
  "chain (\<lambda>i. mr_next (nodes i)) cur ys \<Longrightarrow> mmap_scan nodes bgn prev cur =
    Some (let us = takeWhile (\<lambda>i. mr_begin (nodes i) < bgn) ys in if us = [] then prev else Some (last us),
          hd_opt (dropWhile (\<lambda>i. mr_begin (nodes i) < bgn) ys))"
proof (induction ys arbitrary: cur prev)
  case (Cons y ys)
  then have c: "cur = Some y" and IH: "\<And>prev. mmap_scan nodes bgn prev (mr_next (nodes y)) =
    Some (let us = takeWhile (\<lambda>i. mr_begin (nodes i) < bgn) ys in if us = [] then prev else Some (last us),
          hd_opt (dropWhile (\<lambda>i. mr_begin (nodes i) < bgn) ys))" by auto
  show ?case by (subst mmap_scan.simps) (simp add: c IH Let_def)
qed (simp add: mmap_scan.simps)

lemma mmap_gap_returns:
  "chain (\<lambda>i. mr_next (nodes i)) cur ys \<Longrightarrow> \<forall>i \<in> set ys. region_end (nodes i) \<noteq> None \<Longrightarrow> umul n PGSIZE \<noteq> None \<Longrightarrow>
    \<exists>b c. mmap_gap nodes n cur cursor = Some (b, c)"
proof (induction ys arbitrary: cur cursor)
  case (Cons y ys)
  then have c: "cur = Some y" and IH: "\<And>cursor. \<exists>b c. mmap_gap nodes n (mr_next (nodes y)) cursor = Some (b, c)" by auto
  obtain e d where "region_end (nodes y) = Some e" "umul n PGSIZE = Some d" using Cons.prems(2,3) by auto
  then show ?case using IH by (subst mmap_gap.simps) (simp add: c)
qed (simp add: mmap_gap.simps)

section \<open>The three ways of placing a range\<close>

text \<open>What \<open>mmap\<close> does with the range of \<open>n\<close> pages at \<open>bgn\<close> it has chosen: its pages are mapped and
  they join the regions, or an error leaves the regions as they are. The address returned is the begin
  of the region that now holds the range.\<close>

definition placed :: "usize \<Rightarrow> usize \<Rightarrow> usize \<Rightarrow> usize \<Rightarrow> nat \<Rightarrow> nat list \<Rightarrow> nat option \<Rightarrow> warehouse \<Rightarrow> pmem \<Rightarrow> mmap_result \<Rightarrow> bool" where
  "placed lo hi root bgn n xs head w s res \<longleftrightarrow> (case res of (r, head', w', s') \<Rightarrow>
     \<exists>rm. map_pages root bgn n s = Some (rm, s') \<and>
       (case r of
          Inl e \<Rightarrow> head' = head \<and> space_ok lo hi w' head xs \<and> exts w' xs = exts w xs \<and>
            (rm = Inl e \<or> rm = Inr () \<and> e = NoMem \<and> wh_free w = {})
        | Inr va \<Rightarrow> rm = Inr () \<and> (\<exists>xs' k. space_ok lo hi w' head' xs' \<and>
            covered (exts w' xs') = covered (exts w xs) \<union> {bgn..<bgn + n * PGSIZE} \<and>
            (va, k) \<in> set (exts w' xs') \<and> va \<le> bgn \<and> bgn < va + k * PGSIZE)))"

lemma placedI:
  assumes "space_ok lo hi w' head' xs'"
    and "covered (exts w' xs') = covered (exts w xs) \<union> {bgn..<bgn + n * PGSIZE}"
    and "(va, k) \<in> set (exts w' xs')" and "va \<le> bgn" and "bgn < va + k * PGSIZE"
    and "map_pages root bgn n s = Some (Inr (), s')"
  shows "placed lo hi root bgn n xs head w s (Inr va, head', w', s')"
  unfolding placed_def prod.case sum.case
  by (intro exI [of _ "Inr ()"] exI [of _ xs'] exI [of _ k] conjI refl assms)

lemma extend_next_placed:
  assumes sp: "space_ok lo hi w head (us @ c # vs)" and hi: "hi < 2 ^ 38"
    and c: "ext_of (wh_mmap w c) = (bgn + n * PGSIZE, m)" and new: "lo \<le> bgn" "0 < n" "bgn mod PGSIZE = 0"
    and l: "us \<noteq> [] \<Longrightarrow> ext_end (ext_of (wh_mmap w (last us))) \<le> bgn"
    and run: "mmap_extend_next root head (if us = [] then None else Some (last us)) c bgn (bgn + n * PGSIZE) bgn
      (bgn + n * PGSIZE + m * PGSIZE) w s = Some res"
  shows "placed lo hi root bgn n (us @ c # vs) head w s res"
proof -
  have ch: "chain (nexts w) head (us @ c # vs)" and ok: "extents_ok lo hi (exts w us @ (bgn + n * PGSIZE, m) # exts w vs)"
    and rest: "wh_inv w" "wh_init w" "set (us @ c # vs) \<subseteq> {..<N_MMAP}" "set (us @ c # vs) \<inter> wh_free w = {}"
    using sp c by (auto simp: space_ok_def)
  have fc: "ext_fits lo hi (bgn + n * PGSIZE, m)" using ok by (simp add: extents_append extents_Cons)
  then have f: "ext_fits lo hi (bgn, n)" using new by (auto simp: ext_fits_def ext_end_def)
  have d: "distinct (us @ c # vs)" using chain_distinct [OF ch] .
  have ins: "extents_ok lo hi (exts w us @ (bgn, n) # (bgn + n * PGSIZE, m) # exts w vs)"
    by (rule ext_insert(1) [OF ok f]) (use l in \<open>auto simp: last_map ext_end_def\<close>)
  note fu = ext_fuse [OF ins refl]
  have "n * PGSIZE + m * PGSIZE < 2 ^ 38" using fc hi by (simp add: ext_fits_def ext_end_def)
  then have u32: "as_u32 ((n * PGSIZE + m * PGSIZE) div PGSIZE) = n + m" by (rule as_u32_sum)
  have dn: "(bgn + n * PGSIZE - bgn) div PGSIZE = n" by (simp add: PGSIZE_pos)
  obtain rm s1 where mp: "map_pages root bgn n s = Some (rm, s1)"
    using run unfolding mmap_extend_next_def dn by (auto simp: bind_Some_prod)
  show ?thesis
  proof (cases rm)
    case (Inl e)
    then have "res = (Inl e, head, w, s1)" using run mp unfolding mmap_extend_next_def dn by simp
    then show ?thesis using mp Inl sp by (auto simp: placed_def)
  next
    case (Inr u)
    define w1 where "w1 = set_node c ((wh_mmap w c)\<lparr>mr_begin := bgn, mr_npages := n + m\<rparr>) w"
    define w' where "w' = (if us = [] then w1 else set_node (last us) ((wh_mmap w1 (last us))\<lparr>mr_next := Some c\<rparr>) w1)"
    have res: "res = (Inr bgn, if us = [] then Some c else head, w', s1)"
    proof -
      have "csub (bgn + n * PGSIZE + m * PGSIZE) bgn = Some (n * PGSIZE + m * PGSIZE)" by (simp add: csub_def)
      moreover have "us \<noteq> [] \<Longrightarrow> c \<noteq> last us" using d by auto
      ultimately show ?thesis using run mp Inr u32 unfolding mmap_extend_next_def dn
        by (auto simp: w'_def w1_def Let_def)
    qed
    have nx: "us \<noteq> [] \<Longrightarrow> mr_next (wh_mmap w (last us)) = Some c"
      using chain_last_next [OF ch] by simp
    have hd: "(if us = [] then Some c else head) = head" using chain_hd [OF ch] by auto
    have nexts': "nexts w' = nexts w" using nx d by (auto simp: w'_def w1_def fun_eq_iff)
    have ex: "exts w' (us @ c # vs) = exts w us @ (bgn, n + m) # exts w vs"
      using d by (auto simp: w'_def w1_def ext_of_def)
    have "wh_inv w'" "wh_init w'" "wh_free w' = wh_free w" using rest by (auto simp: w'_def w1_def)
    then have "space_ok lo hi w' head (us @ c # vs)"
      unfolding space_ok_def nexts' ex using ch fu(1) rest by simp
    moreover have "covered (exts w' (us @ c # vs)) = covered (exts w (us @ c # vs)) \<union> {bgn..<bgn + n * PGSIZE}"
      unfolding ex fu(2) using c by (auto simp: ext_end_def)
    moreover have "(bgn, n + m) \<in> set (exts w' (us @ c # vs))" unfolding ex by simp
    moreover have "bgn < bgn + (n + m) * PGSIZE" using new(2) by (simp add: PGSIZE_def)
    moreover have "map_pages root bgn n s = Some (Inr (), s1)" using mp Inr by simp
    ultimately show ?thesis unfolding res hd by (rule placedI [OF _ _ _ order_refl])
  qed
qed

text \<open>A node taken from the warehouse is none of the list, and the list does not change.\<close>

lemma region_alloc_space:
  assumes sp: "space_ok lo hi w head xs" and al: "region_alloc w = (r, w1)"
  shows "space_ok lo hi w1 head xs" "exts w1 xs = exts w xs" "wh_init w1" "r = None \<Longrightarrow> wh_free w = {}"
    "r = Some i \<Longrightarrow> i \<in> wh_free w \<and> i < N_MMAP \<and> i \<notin> set xs \<and> wh_free w1 = wh_free w - {i}"
proof -
  have inv: "wh_inv w" and dis: "set xs \<inter> wh_free w = {}" using sp by (auto simp: space_ok_def)
  have init: "wh_init w1" using al by (auto simp: region_alloc_def mmap_init_def Let_def split: option.splits if_splits)
  then show "wh_init w1" .
  have pool: "wh_inv w1 \<and> wh_free w1 \<subseteq> wh_free w \<and> (r = None \<longrightarrow> wh_free w = {}) \<and>
      (\<forall>i. r = Some i \<longrightarrow> i \<in> wh_free w \<and> wh_free w1 = wh_free w - {i})"
    using warehouse_pool.take_None [OF inv] warehouse_pool.take_Some [OF inv] al by (cases "wh_free w = {}") auto
  then show "r = None \<Longrightarrow> wh_free w = {}" by simp
  show i: "i \<in> wh_free w \<and> i < N_MMAP \<and> i \<notin> set xs \<and> wh_free w1 = wh_free w - {i}" if "r = Some i" for i
    using pool that dis warehouse_pool.avail_bound [OF inv] by auto
  have same: "wh_mmap w1 j = wh_mmap w j" if j: "j \<in> set xs" for j
  proof -
    have "wh_init w" using sp j by (auto simp: space_ok_def)
    then have "mmap_init w = w" by (simp add: mmap_init_def)
    then have "r = Some j \<or> wh_mmap w1 j = wh_mmap w j"
      using al by (auto simp: region_alloc_def split: option.splits if_splits)
    then show ?thesis using i j by blast
  qed
  then show ex: "exts w1 xs = exts w xs" by simp
  have "chain (nexts w1) head xs" using sp same by (subst chain_cong [of xs _ "nexts w"]) (auto simp: space_ok_def)
  then show "space_ok lo hi w1 head xs" unfolding space_ok_def ex using sp [unfolded space_ok_def] pool init by blast
qed

lemma new_region_placed:
  assumes sp: "space_ok lo hi w head (us @ vs)" and hi: "hi < 2 ^ 38" and new: "ext_fits lo hi (bgn, n)"
    and l: "us \<noteq> [] \<Longrightarrow> ext_end (ext_of (wh_mmap w (last us))) \<le> bgn"
    and r: "vs \<noteq> [] \<Longrightarrow> bgn + n * PGSIZE \<le> mr_begin (wh_mmap w (hd vs))"
    and run: "mmap_new_region root head (if us = [] then None else Some (last us)) (hd_opt vs) bgn n w s = Some res"
  shows "placed lo hi root bgn n (us @ vs) head w s res"
proof -
  obtain rm s1 where mp: "map_pages root bgn n s = Some (rm, s1)" using run by (auto simp: mmap_new_region_def bind_Some_prod)
  obtain q w1 where al: "region_alloc w = (q, w1)" by fastforce
  note a = region_alloc_space [OF sp al]
  consider e where "rm = Inl e" | "rm = Inr ()" "q = None" | node where "rm = Inr ()" "q = Some node"
    by (metis old.sum.exhaust old.unit.exhaust option.exhaust)
  then show ?thesis
  proof cases
    case (1 e)
    then have "res = (Inl e, head, w, s1)" using run mp by (simp add: mmap_new_region_def)
    then show ?thesis using mp 1 sp by (auto simp: placed_def)
  next
    case 2
    then have "res = (Inl NoMem, head, w1, s1)" using run mp al by (simp add: mmap_new_region_def)
    then show ?thesis using mp 2 a(1,2,4) by (auto simp: placed_def)
  next
    case (3 node)
    note nd = a(5) [OF 3(2)]
    have u32: "as_u32 n = n" using new hi by (intro as_u32_pages) (simp add: ext_fits_def ext_end_def)
    define w2 where "w2 = set_node node \<lparr>mr_begin = bgn, mr_npages = n, mr_next = hd_opt vs\<rparr> w1"
    define w' where "w' = (if us = [] then w2 else set_node (last us) ((wh_mmap w2 (last us))\<lparr>mr_next := Some node\<rparr>) w2)"
    define head' where "head' = (if us = [] then Some node else head)"
    have res: "res = (Inr bgn, head', w', s1)"
      using run unfolding mmap_new_region_def w'_def w2_def head'_def Let_def
      by (cases "us = []") (simp_all add: mp al 3 u32)
    have nl: "us \<noteq> [] \<Longrightarrow> node \<noteq> last us" using nd last_in_set [of us] by (metis Un_iff set_append)
    have ch1: "chain (nexts w1) head (us @ vs)" using a(1) by (simp add: space_ok_def)
    have ch: "chain (nexts w') head' (us @ node # vs)"
    proof (cases "us = []")
      case True
      then have "chain (nexts w1) (hd_opt vs) vs" using ch1 chain_hd [OF ch1] by simp
      moreover have "nexts w' = (nexts w1)(node := hd_opt vs)" using True by (simp add: w'_def w2_def fun_eq_iff)
      ultimately show ?thesis using True nd by (simp add: head'_def)
    next
      case False
      have "nexts w' = (nexts w1)(node := nexts w1 (last us), last us := Some node)"
        using chain_last_next [OF ch1 False] False nl [OF False] by (simp add: w'_def w2_def fun_eq_iff)
      then show ?thesis
        using chain_insert [OF ch1 [unfolded snoc_split [OF False]], of node] nd False
        by (simp add: head'_def snoc_split [OF False])
    qed
    have keep: "ext_of (wh_mmap w' j) = ext_of (wh_mmap w1 j)" if "j \<noteq> node" for j
      using that by (cases "us = []") (simp_all add: w'_def w2_def ext_of_def)
    have "ext_of (wh_mmap w' node) = (bgn, n)" using nl by (cases "us = []") (simp_all add: w'_def w2_def ext_of_def)
    moreover have "\<forall>j \<in> set us \<union> set vs. ext_of (wh_mmap w' j) = ext_of (wh_mmap w1 j)" using nd keep by (metis set_append)
    ultimately have "exts w' (us @ node # vs) = exts w1 us @ (bgn, n) # exts w1 vs" by simp
    then have ex: "exts w' (us @ node # vs) = exts w us @ (bgn, n) # exts w vs" using a(2) by simp
    have ok: "extents_ok lo hi (exts w us @ exts w vs)" using sp by (simp add: space_ok_def)
    have ins: "extents_ok lo hi (exts w us @ (bgn, n) # exts w vs)"
      by (rule ext_insert(1) [OF ok new]) (use l r in \<open>auto simp: last_map hd_map ext_end_def ext_of_def\<close>)
    have "wh_inv w'" "wh_init w'" "wh_free w' = wh_free w - {node}"
      using a(1,3) nd by (auto simp: w'_def w2_def space_ok_def)
    then have "space_ok lo hi w' head' (us @ node # vs)"
      unfolding space_ok_def ex using ch ins nd sp [unfolded space_ok_def] by auto
    moreover have "covered (exts w' (us @ node # vs)) = covered (exts w (us @ vs)) \<union> {bgn..<bgn + n * PGSIZE}"
      unfolding ex by (auto simp: ext_end_def)
    moreover have "(bgn, n) \<in> set (exts w' (us @ node # vs))" unfolding ex by simp
    moreover have "bgn < bgn + n * PGSIZE" using new by (simp add: ext_fits_def)
    moreover have "map_pages root bgn n s = Some (Inr (), s1)" using mp 3(1) by simp
    ultimately show ?thesis unfolding res by (rule placedI [OF _ _ _ order_refl])
  qed
qed

lemma extend_prev_run:
  assumes re: "region_end (wh_mmap w p) = Some bgn" and n: "0 < n"
    and run: "mmap_extend_prev root head p cur cn mb me (bgn + n * PGSIZE) w s = Some (r, head', w', s')"
  shows "\<exists>rm. map_pages root bgn n s = Some (rm, s') \<and> head' = head \<and>
    (case rm of Inl e \<Rightarrow> r = Inl e \<and> w' = w | Inr _ \<Rightarrow> mb \<le> me \<and> r = Inr (mr_begin (wh_mmap w' p)) \<and>
      (let w1 = set_node p ((wh_mmap w p)\<lparr>mr_npages := as_u32 ((me - mb) div PGSIZE)\<rparr>) w in
       if cn \<and> cur \<noteq> None then \<exists>e. region_end (wh_mmap w1 (the cur)) = Some e \<and> mr_begin (wh_mmap w1 p) \<le> e \<and>
         w' = region_free cur (set_node p ((wh_mmap w1 p)\<lparr>mr_npages := as_u32 ((e - mr_begin (wh_mmap w1 p)) div PGSIZE),
           mr_next := mr_next (wh_mmap w1 (the cur))\<rparr>) w1)
       else w' = w1))"
proof -
  have lt: "bgn < bgn + n * PGSIZE" and dn: "(bgn + n * PGSIZE - bgn) div PGSIZE = n" using n by simp_all
  obtain rm s1 where mp: "map_pages root bgn n s = Some (rm, s1)"
    using run lt unfolding mmap_extend_prev_def re dn by (auto simp: bind_Some_prod)
  show ?thesis
  proof (cases rm)
    case (Inl e)
    then show ?thesis using run lt mp unfolding mmap_extend_prev_def re dn by auto
  next
    case (Inr u)
    then show ?thesis using run lt mp unfolding mmap_extend_prev_def re dn
      by (cases cn; cases cur) (auto simp: bind_Some_prod csub_Some_iff Let_def)
  qed
qed

text \<open>A node of the list after its first may go back to the warehouse when its predecessor takes over its link.\<close>

lemma unlink_space:
  assumes ch: "chain (nexts w) head (us @ p # c # vs)" and inv: "wh_inv w" "wh_init w"
    and sub: "set (us @ p # c # vs) \<subseteq> {..<N_MMAP}" "set (us @ p # c # vs) \<inter> wh_free w = {}"
    and w': "w' = region_free (Some c) (set_node p r w)" and r: "mr_next r = mr_next (wh_mmap w c)"
    and ok: "extents_ok lo hi (exts w us @ ext_of r # exts w vs)"
  shows "space_ok lo hi w' head (us @ p # vs)" "exts w' (us @ p # vs) = exts w us @ ext_of r # exts w vs" "wh_mmap w' p = r"
proof -
  have d: "distinct (us @ p # c # vs)" using chain_distinct [OF ch] .
  have mm: "wh_mmap w' = ((wh_mmap w)(p := r))(c := region_zero)" using w' by (simp add: region_free_def)
  then show "wh_mmap w' p = r" using d by simp
  have "c \<notin> wh_free w" "c < N_MMAP" "wh_free w \<subset> {..<N_MMAP}"
    using sub warehouse_pool.avail_bound [OF inv(1)] by auto
  then have pool: "wh_inv w'" "wh_free w' = insert c (wh_free w)"
    using warehouse_pool.give [of "set_node p r w" c] inv(1) w' by simp_all
  have "wh_init w'" using inv(2) w' by (simp add: region_free_def)
  have nx: "nexts w' = ((nexts w)(p := nexts w c))(c := None)" using mm r d by (auto simp: region_zero_def)
  have ch': "chain (nexts w') head (us @ p # vs)" unfolding nx using chain_unlink [OF ch] d by (subst chain_upd) auto
  show ex: "exts w' (us @ p # vs) = exts w us @ ext_of r # exts w vs" using d mm by auto
  show "space_ok lo hi w' head (us @ p # vs)"
    unfolding space_ok_def ex using ch' ok pool \<open>wh_init w'\<close> sub d by auto
qed

lemma extend_prev_placed:
  assumes sp: "space_ok lo hi w head (us @ p # vs)" and hi: "hi < 2 ^ 38"
    and p: "ext_of (wh_mmap w p) = (b, k)" "bgn = b + k * PGSIZE" and n: "0 < n" and fit: "bgn + n * PGSIZE \<le> hi"
    and r: "vs \<noteq> [] \<Longrightarrow> bgn + n * PGSIZE \<le> mr_begin (wh_mmap w (hd vs))"
    and cn: "cn \<longleftrightarrow> vs \<noteq> [] \<and> bgn + n * PGSIZE = mr_begin (wh_mmap w (hd vs))"
    and me: "me = (if cn then ext_end (ext_of (wh_mmap w (hd vs))) else bgn + n * PGSIZE)"
    and run: "mmap_extend_prev root head p (hd_opt vs) cn b me (bgn + n * PGSIZE) w s = Some res"
  shows "placed lo hi root bgn n (us @ p # vs) head w s res \<and> (\<forall>va. fst res = Inr va \<longrightarrow> va = b)"
proof -
  obtain rr head' w' s' where res: "res = (rr, head', w', s')" by (metis prod_cases4)
  have ch: "chain (nexts w) head (us @ p # vs)" and ok: "extents_ok lo hi (exts w us @ (b, k) # exts w vs)"
    and rest: "wh_inv w" "wh_init w" "set (us @ p # vs) \<subseteq> {..<N_MMAP}" "set (us @ p # vs) \<inter> wh_free w = {}"
    using sp p(1) by (auto simp: space_ok_def)
  have d: "distinct (us @ p # vs)" using chain_distinct [OF ch] .
  have fp: "ext_fits lo hi (b, k)" using ok by (simp add: extents_append extents_Cons)
  have fn: "ext_fits lo hi (bgn, n)" using fp n fit p(2) by (auto simp: ext_fits_def ext_end_def)
  have re: "region_end (wh_mmap w p) = Some bgn" using region_end_eq [of lo hi "wh_mmap w p"] fp hi p by (simp add: ext_end_def)
  have ok1: "extents_ok lo hi ((exts w us @ [(b, k)]) @ exts w vs)" using ok by simp
  have "extents_ok lo hi ((exts w us @ [(b, k)]) @ (bgn, n) # exts w vs)"
    by (rule ext_insert(1) [OF ok1 fn]) (use p(2) r in \<open>auto simp: ext_end_def hd_map ext_of_def\<close>)
  then have ins: "extents_ok lo hi (exts w us @ (b, k) # (bgn, n) # exts w vs)" by simp
  note fu = ext_fuse [OF ins p(2)]
  have cov: "covered (exts w us @ (b, k + n) # exts w vs) = covered (exts w (us @ p # vs)) \<union> {bgn..<bgn + n * PGSIZE}"
    unfolding fu(2) using p(1) by (auto simp: ext_end_def)
  have hit: "b \<le> bgn" "bgn < b + (k + n) * PGSIZE" "bgn < b + (k + n + m) * PGSIZE" for m using p(2) n by (simp_all add: add_mult_distrib)
  obtain rm where rm: "map_pages root bgn n s = Some (rm, s')" "head' = head"
    and post: "case rm of Inl e \<Rightarrow> rr = Inl e \<and> w' = w | Inr _ \<Rightarrow> b \<le> me \<and> rr = Inr (mr_begin (wh_mmap w' p)) \<and>
      (let w1 = set_node p ((wh_mmap w p)\<lparr>mr_npages := as_u32 ((me - b) div PGSIZE)\<rparr>) w in
       if cn \<and> hd_opt vs \<noteq> None then \<exists>e. region_end (wh_mmap w1 (the (hd_opt vs))) = Some e \<and> mr_begin (wh_mmap w1 p) \<le> e \<and>
         w' = region_free (hd_opt vs) (set_node p ((wh_mmap w1 p)\<lparr>mr_npages := as_u32 ((e - mr_begin (wh_mmap w1 p)) div PGSIZE),
           mr_next := mr_next (wh_mmap w1 (the (hd_opt vs)))\<rparr>) w1)
       else w' = w1)"
    using extend_prev_run [OF re n run [unfolded res]] by blast
  have pb: "mr_begin (wh_mmap w p) = b" using p(1) by (simp add: ext_of_def)
  consider e where "rm = Inl e" | "rm = Inr ()" "\<not> cn" | c vs' where "rm = Inr ()" "cn" "vs = c # vs'"
    using cn by (cases rm; cases vs) auto
  then show ?thesis
  proof cases
    case (1 e)
    then show ?thesis using rm post sp by (auto simp: placed_def res)
  next
    case 2
    have "as_u32 ((k * PGSIZE + n * PGSIZE) div PGSIZE) = k + n" using fit hi p(2) by (intro as_u32_sum) simp
    then have w': "w' = set_node p ((wh_mmap w p)\<lparr>mr_npages := k + n\<rparr>) w" and rr: "rr = Inr b"
      using post 2 me p(2) pb by (auto simp: Let_def)
    have ex: "exts w' (us @ p # vs) = exts w us @ (b, k + n) # exts w vs" using d pb by (auto simp: w' ext_of_def)
    have "nexts w' = nexts w" by (auto simp: w' fun_eq_iff)
    then have "space_ok lo hi w' head (us @ p # vs)" unfolding space_ok_def ex using ch fu(1) rest by (simp add: w')
    moreover have "(b, k + n) \<in> set (exts w' (us @ p # vs))" unfolding ex by simp
    ultimately show ?thesis unfolding res rr rm(2) fst_conv
      using placedI [of lo hi w' head "us @ p # vs" w "us @ p # vs" bgn n b "k + n" root s s' head] cov hit rm(1) 2(1) unfolding ex by blast
  next
    case (3 c vs')
    obtain m where c: "ext_of (wh_mmap w c) = (bgn + n * PGSIZE, m)" using cn 3 by (auto simp: ext_of_def)
    have pc: "p \<noteq> c" using d 3(3) by auto
    have fc: "ext_fits lo hi (ext_of (wh_mmap w c))" using ok 3(3) by (simp add: extents_append extents_Cons)
    have rc: "region_end (wh_mmap w c) = Some (bgn + n * PGSIZE + m * PGSIZE)" using region_end_eq [OF fc hi] c by (simp add: ext_end_def)
    have ins2: "extents_ok lo hi (exts w us @ (b, k + n) # (bgn + n * PGSIZE, m) # exts w vs')" using fu(1) 3(3) c by simp
    have "bgn + n * PGSIZE = b + (k + n) * PGSIZE" using p(2) by (simp add: add_mult_distrib)
    note fu2 = ext_fuse [OF ins2 this]
    have "k * PGSIZE + n * PGSIZE + m * PGSIZE < 2 ^ 38" using fc c hi p(2) by (simp add: ext_fits_def ext_end_def)
    then have u32: "as_u32 (k + (n + m)) = k + n + m"
      using as_u32_pages [of "k + (n + m)"] by (simp add: add_mult_distrib)
    define w1 where "w1 = set_node p ((wh_mmap w p)\<lparr>mr_npages := as_u32 ((me - b) div PGSIZE)\<rparr>) w"
    define q where "q = (wh_mmap w1 p)\<lparr>mr_npages := k + n + m, mr_next := mr_next (wh_mmap w1 c)\<rparr>"
    have w': "w' = region_free (Some c) (set_node p q w1)" and rr: "rr = Inr (mr_begin (wh_mmap w' p))"
      using post 3 pc rc u32 p(2) pb by (auto simp: Let_def w1_def q_def)
    have w1: "nexts w1 = nexts w" "wh_inv w1" "wh_init w1" "wh_free w1 = wh_free w" "exts w1 us = exts w us" "exts w1 vs' = exts w vs'"
      using rest d 3(3) by (auto simp: w1_def fun_eq_iff)
    have eq: "ext_of q = (b, k + n + m)" "mr_next q = mr_next (wh_mmap w1 c)" using pb by (auto simp: q_def w1_def ext_of_def)
    have "chain (nexts w1) head (us @ p # c # vs')" "set (us @ p # c # vs') \<subseteq> {..<N_MMAP}" "set (us @ p # c # vs') \<inter> wh_free w1 = {}"
      using ch rest(3,4) w1(1,4) 3(3) by simp_all
    note un = unlink_space [OF this(1) w1(2,3) this(2,3) w' eq(2), of lo hi, unfolded eq(1) w1(5,6), OF fu2(1)]
    have va: "rr = Inr b" using rr un(3) pb by (simp add: q_def w1_def)
    have cov2: "covered (exts w' (us @ p # vs')) = covered (exts w (us @ p # vs)) \<union> {bgn..<bgn + n * PGSIZE}"
      unfolding un(2) fu2(2) using cov 3(3) c by simp
    have "(b, k + n + m) \<in> set (exts w' (us @ p # vs'))" unfolding un(2) by simp
    moreover have "map_pages root bgn n s = Some (Inr (), s')" using rm(1) 3(1) by simp
    ultimately show ?thesis unfolding res va rm(2) fst_conv using placedI [OF un(1) cov2 _ hit(1) hit(3)] by blast
  qed
qed

section \<open>Mapping a range\<close>

lemma scan_split:
  assumes sp: "space_ok lo hi w head xs" and us: "us = takeWhile (\<lambda>i. mr_begin (wh_mmap w i) < bgn) xs"
    and vs: "vs = dropWhile (\<lambda>i. mr_begin (wh_mmap w i) < bgn) xs"
  shows "xs = us @ vs" "mmap_scan (wh_mmap w) bgn None head = Some (if us = [] then None else Some (last us), hd_opt vs)"
    "us \<noteq> [] \<Longrightarrow> mr_begin (wh_mmap w (last us)) < bgn" "vs \<noteq> [] \<Longrightarrow> bgn \<le> mr_begin (wh_mmap w (hd vs))"
proof -
  show "xs = us @ vs" using us vs by simp
  show "mmap_scan (wh_mmap w) bgn None head = Some (if us = [] then None else Some (last us), hd_opt vs)"
    using mmap_scan_spec [of "wh_mmap w" head xs bgn None] sp us vs by (simp add: space_ok_def Let_def)
  show "us \<noteq> [] \<Longrightarrow> mr_begin (wh_mmap w (last us)) < bgn" using us set_takeWhileD last_in_set by metis
  show "vs \<noteq> [] \<Longrightarrow> bgn \<le> mr_begin (wh_mmap w (hd vs))"
    using vs hd_dropWhile [of "\<lambda>i. mr_begin (wh_mmap w i) < bgn" xs] by auto
qed

text \<open>An extent that ends where the new range begins is the last one before it.\<close>

lemma adjacent_last:
  assumes ok: "extents_ok lo hi (exts w us @ exts w vs)" and m: "(b, k) \<in> set (exts w (us @ vs))" "b + k * PGSIZE = bgn"
    and l: "us \<noteq> [] \<Longrightarrow> mr_begin (wh_mmap w (last us)) < bgn" and r: "vs \<noteq> [] \<Longrightarrow> bgn \<le> mr_begin (wh_mmap w (hd vs))"
  shows "us \<noteq> [] \<and> ext_of (wh_mmap w (last us)) = (b, k)"
proof -
  have o: "extents_ok lo hi (exts w us)" "extents_ok lo hi (exts w vs)" using ok by (auto simp: extents_append)
  have f: "ext_fits lo hi (b, k)" using ok m(1) by (auto simp: extents_ok_def)
  then have lt: "b < bgn" using ext_fits_order [OF f] m(2) by (simp add: ext_end_def)
  have "(b, k) \<notin> set (exts w vs)"
  proof
    assume v: "(b, k) \<in> set (exts w vs)"
    then have "vs \<noteq> []" by auto
    then have "bgn \<le> b" using after_hd [OF o(2) _ _ v, of bgn] r by (auto simp: hd_map ext_of_def)
    then show False using lt by simp
  qed
  then have u: "(b, k) \<in> set (exts w us)" using m(1) by auto
  then have ne: "us \<noteq> []" by auto
  show ?thesis
  proof (rule ccontr)
    assume "\<not> (us \<noteq> [] \<and> ext_of (wh_mmap w (last us)) = (b, k))"
    then have n: "(b, k) \<noteq> last (exts w us)" using ne by (simp add: last_map)
    have e: "exts w us = butlast (exts w us) @ [last (exts w us)]" using ne by simp
    then have "(b, k) \<in> set (butlast (exts w us))" using u n by (metis UnE empty_iff empty_set set_ConsD set_append)
    moreover have "extents_ok lo hi (butlast (exts w us) @ [last (exts w us)])" using o(1) e by simp
    ultimately have "ext_before (b, k) (last (exts w us))" unfolding extents_append by simp
    then show False using l ne m(2) by (simp add: ext_before_def ext_end_def last_map ext_of_def)
  qed
qed

lemma place_conflict:
  assumes "i \<in> set xs" and "mr_begin (wh_mmap w i) < bgn + n * PGSIZE" and "bgn < ext_end (ext_of (wh_mmap w i))" and "0 < n"
    and "ext_fits lo hi (ext_of (wh_mmap w i))"
  shows "covered (exts w xs) \<inter> {bgn..<bgn + n * PGSIZE} \<noteq> {}"
proof -
  let ?x = "max bgn (mr_begin (wh_mmap w i))"
  have "?x \<in> {bgn..<bgn + n * PGSIZE}" "?x \<in> {fst (ext_of (wh_mmap w i))..<ext_end (ext_of (wh_mmap w i))}"
    using assms(2-4) ext_fits_order [OF assms(5)] by (auto simp: ext_of_def max_def)
  moreover from this(2) have "?x \<in> covered (exts w xs)" unfolding covered_def using assms(1) by (intro UN_I [of "ext_of (wh_mmap w i)"]) auto
  ultimately show ?thesis by blast
qed

lemma mmap_place_eq:
  assumes "umul n PGSIZE = Some sz" "uadd bgn sz = Some e" "mmap_scan (wh_mmap w) bgn None head = Some (prev, cur)"
    "opt_end w prev = Some pe" "opt_end w cur = Some ce"
  shows "mmap_place root head bgn n w s =
    (if (case pe of None \<Rightarrow> False | Some x \<Rightarrow> bgn < x) \<or> (case cur of None \<Rightarrow> False | Some c \<Rightarrow> mr_begin (wh_mmap w c) < e)
     then Some (Inl OutOfRange, head, w, s)
     else let cn = (cur \<noteq> None \<and> e = mr_begin (wh_mmap w (the cur))); me = (if cn then the ce else e) in
       if pe = Some bgn then mmap_extend_prev root head (the prev) cur cn (mr_begin (wh_mmap w (the prev))) me e w s
       else if cn then mmap_extend_next root head prev (the cur) bgn e bgn me w s
       else mmap_new_region root head prev cur bgn n w s)"
proof -
  have pe: "pe = None \<longleftrightarrow> prev = None" and ce: "ce = None \<longleftrightarrow> cur = None"
    using assms(4,5) by (cases prev; cases cur; force simp: opt_end_def)+
  show ?thesis unfolding mmap_place_def
    using pe ce assms by (cases prev; cases cur; cases pe; cases ce) (simp_all add: Let_def)
qed

lemma mmap_place_spec:
  assumes sp: "space_ok lo hi w head xs" and hi: "hi < 2 ^ 38" and new: "ext_fits lo hi (bgn, n)"
    and run: "mmap_place root head bgn n w s = Some res"
  shows "if covered (exts w xs) \<inter> {bgn..<bgn + n * PGSIZE} = {}
    then placed lo hi root bgn n xs head w s res \<and>
      (\<forall>b k va. (b, k) \<in> set (exts w xs) \<longrightarrow> b + k * PGSIZE = bgn \<longrightarrow> fst res = Inr va \<longrightarrow> va = b)
    else res = (Inl OutOfRange, head, w, s)"
proof -
  define us where "us = takeWhile (\<lambda>i. mr_begin (wh_mmap w i) < bgn) xs"
  define vs where "vs = dropWhile (\<lambda>i. mr_begin (wh_mmap w i) < bgn) xs"
  note sc = scan_split [OF sp us_def vs_def]
  have xs: "xs = us @ vs" by (rule sc(1))
  have sp': "space_ok lo hi w head (us @ vs)" using sp xs by simp
  then have ok: "extents_ok lo hi (exts w us @ exts w vs)" by (simp add: space_ok_def)
  have fits: "ext_fits lo hi (ext_of (wh_mmap w i))" if "i \<in> set xs" for i
    using ok that xs by (auto simp: extents_ok_def)
  have n: "0 < n" and end': "bgn + n * PGSIZE < 2 ^ 64" using new hi by (auto simp: ext_fits_def ext_end_def)
  have re: "region_end (wh_mmap w i) = Some (ext_end (ext_of (wh_mmap w i)))" if "i \<in> set xs" for i
    by (rule region_end_eq [OF fits [OF that] hi])
  have inx: "us \<noteq> [] \<Longrightarrow> last us \<in> set xs" "vs \<noteq> [] \<Longrightarrow> hd vs \<in> set xs" using xs by auto
  have pe: "opt_end w (if us = [] then None else Some (last us)) = Some (if us = [] then None else Some (ext_end (ext_of (wh_mmap w (last us)))))"
    using re inx by (simp add: opt_end_def)
  have ce: "opt_end w (hd_opt vs) = Some (if vs = [] then None else Some (ext_end (ext_of (wh_mmap w (hd vs)))))"
    using re inx by (cases vs) (auto simp: opt_end_def)
  let ?pc = "us \<noteq> [] \<and> bgn < ext_end (ext_of (wh_mmap w (last us)))"
  let ?cc = "vs \<noteq> [] \<and> mr_begin (wh_mmap w (hd vs)) < bgn + n * PGSIZE"
  have chk: "umul n PGSIZE = Some (n * PGSIZE)" "uadd bgn (n * PGSIZE) = Some (bgn + n * PGSIZE)"
    using end' by (auto simp: cmul_def cadd_def)
  note place = mmap_place_eq [OF chk sc(2) pe ce, of root s]
  show ?thesis
  proof (cases "?pc \<or> ?cc")
    case True
    have "res = (Inl OutOfRange, head, w, s)"
      using run True unfolding place by (cases vs) (auto split: if_splits)
    moreover have "covered (exts w xs) \<inter> {bgn..<bgn + n * PGSIZE} \<noteq> {}"
      using True
    proof
      assume p: ?pc
      have "mr_begin (wh_mmap w (last us)) < bgn + n * PGSIZE" using sc(3) p by auto
      then show ?thesis using place_conflict [OF _ _ _ n fits] inx(1) p by blast
    next
      assume c: ?cc
      have "bgn < ext_end (ext_of (wh_mmap w (hd vs)))"
        using sc(4) c ext_fits_order [OF fits [OF inx(2)]] by (auto simp: ext_of_def)
      then show ?thesis using place_conflict [OF _ _ _ n fits] inx(2) c by blast
    qed
    ultimately show ?thesis by simp
  next
    case False
    then have l: "us \<noteq> [] \<Longrightarrow> ext_end (ext_of (wh_mmap w (last us))) \<le> bgn"
      and r: "vs \<noteq> [] \<Longrightarrow> bgn + n * PGSIZE \<le> mr_begin (wh_mmap w (hd vs))" by auto
    have dis: "covered (exts w xs) \<inter> {bgn..<bgn + n * PGSIZE} = {}"
      using ext_insert(2) [OF ok new] l r xs by (simp add: last_map hd_map ext_end_def ext_of_def)
    have adj: "us \<noteq> [] \<and> ext_of (wh_mmap w (last us)) = (b, k)" if "(b, k) \<in> set (exts w xs)" "b + k * PGSIZE = bgn" for b k
      using adjacent_last [OF ok _ that(2) sc(3,4)] that(1) xs by simp
    have not_adj: False if "us = [] \<or> ext_end (ext_of (wh_mmap w (last us))) \<noteq> bgn" "(b, k) \<in> set (exts w xs)" "b + k * PGSIZE = bgn" for b k
      using adj [OF that(2,3)] that(1,3) by (simp add: ext_end_def)
    let ?cn = "vs \<noteq> [] \<and> bgn + n * PGSIZE = mr_begin (wh_mmap w (hd vs))"
    let ?me = "if ?cn then ext_end (ext_of (wh_mmap w (hd vs))) else bgn + n * PGSIZE"
    have nocc: "\<not> (case hd_opt vs of None \<Rightarrow> False | Some c \<Rightarrow> mr_begin (wh_mmap w c) < bgn + n * PGSIZE)" using False by (cases vs) auto
    consider "us \<noteq> []" "ext_end (ext_of (wh_mmap w (last us))) = bgn"
      | "us = [] \<or> ext_end (ext_of (wh_mmap w (last us))) \<noteq> bgn" "?cn"
      | "us = [] \<or> ext_end (ext_of (wh_mmap w (last us))) \<noteq> bgn" "\<not> ?cn" by blast
    then show ?thesis
    proof cases
      case 1
      obtain b k where bk: "ext_of (wh_mmap w (last us)) = (b, k)" by fastforce
      then have b: "mr_begin (wh_mmap w (last us)) = b" and bgn: "bgn = b + k * PGSIZE" using 1(2) by (auto simp: ext_of_def ext_end_def)
      have "mmap_extend_prev root head (last us) (hd_opt vs) ?cn b ?me (bgn + n * PGSIZE) w s = Some res"
        using run 1 nocc b unfolding place by (cases vs) (simp_all add: Let_def split: if_splits)
      from extend_prev_placed [OF sp' [unfolded snoc_split [OF 1(1)]] hi bk bgn n _ r refl refl this]
      have "placed lo hi root bgn n xs head w s res" "\<forall>va. fst res = Inr va \<longrightarrow> va = b"
        using new xs snoc_split [OF 1(1), of vs] by (auto simp: ext_fits_def ext_end_def)
      moreover have "b' = b" if "(b', k') \<in> set (exts w xs)" "b' + k' * PGSIZE = bgn" for b' k' using adj [OF that] bk by simp
      ultimately show ?thesis unfolding if_P [OF dis] by blast
    next
      case 2
      then obtain c vs' where vs: "vs = c # vs'" by (cases vs) auto
      obtain m where m: "ext_of (wh_mmap w c) = (bgn + n * PGSIZE, m)" using 2(2) vs by (auto simp: ext_of_def)
      have "mmap_extend_next root head (if us = [] then None else Some (last us)) c bgn (bgn + n * PGSIZE) bgn
          (bgn + n * PGSIZE + m * PGSIZE) w s = Some res"
        using run 2 vs m l nocc unfolding place by (cases "us = []") (auto simp: ext_end_def Let_def)
      from extend_next_placed [OF sp' [unfolded vs] hi m _ n _ l this] new
      have "placed lo hi root bgn n xs head w s res" using xs vs by (simp add: ext_fits_def)
      then show ?thesis unfolding if_P [OF dis] using not_adj [OF 2(1)] by blast
    next
      case 3
      have "mmap_new_region root head (if us = [] then None else Some (last us)) (hd_opt vs) bgn n w s = Some res"
        using run 3 l nocc unfolding place by (cases "us = []"; cases vs) (auto simp: Let_def)
      from new_region_placed [OF sp' hi new l r this] xs
      have "placed lo hi root bgn n xs head w s res" by simp
      then show ?thesis unfolding if_P [OF dis] using not_adj [OF 3(1)] by blast
    qed
  qed
qed

lemma MMAP_END_bound: "MMAP_END < 2 ^ 38" "MMAP_END < 2 ^ 63"
  by (simp_all add: MMAP_END_def VA_MAX_eq PGSIZE_def)

lemma and_page_mask: "x AND (PGSIZE - 1) = x mod PGSIZE"
  using and_mask_nat [of x 12] by (simp add: PGSIZE_def mask_eq_exp_minus_1)

text \<open>Everything \<open>mmap\<close> does before it places the range: it fails and changes nothing, or has chosen a range
  inside the area, at the address asked for when there is one.\<close>

lemma mmap_choice:
  assumes run: "mmap root head bgn0 len lo hi w s = Some res"
  shows "res = (Inl OutOfRange, head, w, s) \<or> (\<exists>bgn n. align_up len = Some (n * PGSIZE) \<and> ext_fits lo hi (bgn, n) \<and>
    (bgn0 \<noteq> 0 \<longrightarrow> bgn = bgn0) \<and> mmap_place root head bgn n w s = Some res)"
proof (cases "res = (Inl OutOfRange, head, w, s)")
  case False
  then have len: "len \<noteq> 0" using run by (cases "len = 0") (simp_all add: mmap_def)
  then obtain t where t: "align_up len = Some t" using run by (cases "align_up len") (simp_all add: mmap_def)
  have tn: "t div PGSIZE * PGSIZE = t" using align_up_bounds(3) [OF t] by (simp add: mult.commute mult_div_mod_eq [symmetric] dvd_eq_mod_eq_0)
  let ?n = "t div PGSIZE"
  have n0: "?n \<noteq> 0" using align_up_bounds(1) [OF t] len tn by (metis le_zero_eq mult_0)
  have "umul ?n PGSIZE \<noteq> None" using run len t n0 by (cases "umul ?n PGSIZE") (simp_all add: mmap_def)
  then have sz: "umul ?n PGSIZE = Some t" using tn by (simp add: cmul_def split: if_splits)
  have "\<exists>bgn. (bgn0 \<noteq> 0 \<longrightarrow> bgn = bgn0) \<and> lo \<le> bgn \<and> (\<exists>e. uadd bgn t = Some e \<and> e \<le> hi) \<and> bgn AND (PGSIZE - 1) = 0 \<and>
      mmap_place root head bgn ?n w s = Some res"
    using run len t n0 sz False unfolding mmap_def
    by (auto simp: bind_Some_prod Let_def not_less split: if_splits option.splits)
  then obtain bgn where bgn: "bgn0 \<noteq> 0 \<longrightarrow> bgn = bgn0" "lo \<le> bgn" "bgn + t \<le> hi" "bgn mod PGSIZE = 0" "mmap_place root head bgn ?n w s = Some res"
    unfolding and_page_mask cadd_Some_iff by (elim exE conjE) (rule that, simp_all)
  then have "ext_fits lo hi (bgn, ?n)" using n0 tn by (simp add: ext_fits_def ext_end_def)
  then show ?thesis using t tn bgn by metis
qed simp

lemma map_pages_spec:
  assumes "pmem_inv s" and "pt_wf (live s) (mem s) root" and "bgn mod PGSIZE = 0" and "bgn + n * PGSIZE < 2 ^ 63"
    and run: "map_pages root bgn n s = Some (r, s')"
  shows "uvm_ext root s s' \<and> (r = Inr () \<longrightarrow> grown root bgn (bgn + n * PGSIZE) s s')"
proof -
  have d: "align_down bgn = bgn" using assms(3,4) by (intro align_down_id) auto
  then have run': "grow_loop root (bgn + n * PGSIZE) bgn s = Some (r, s')"
    using run by (auto simp: map_pages_def panic_simps)
  have "(bgn + n * PGSIZE) mod PGSIZE = 0" using assms(3) by simp
  from grow_loop_spec [OF assms(1-3) this _ assms(4) run'] show ?thesis by (cases r) auto
qed

section \<open>Properties\<close>

text \<open>C24. \<open>mmap\<close> keeps the region list sorted, disjoint, page-aligned and inside the mmap area, with all its nodes
  out of the warehouse's free list. When it succeeds, a range of the requested size (at the requested
  address, if one is given) that no region held before is added to what the regions cover, and exactly
  its pages are mapped to fresh zeroed pages; the result is the begin of the region that holds it. When
  it fails the regions are unchanged.\<close>

theorem mmap_correct:
  assumes sp: "space_ok MMAP_BEGIN MMAP_END w head xs" and inv: "pmem_inv s" "pt_wf (live s) (mem s) root"
    and run: "mmap root head bgn0 len MMAP_BEGIN MMAP_END w s = Some (r, head', w', s')"
  shows "uvm_ext root s s' \<and> (case r of
      Inl e \<Rightarrow> head' = head \<and> space_ok MMAP_BEGIN MMAP_END w' head xs \<and> exts w' xs = exts w xs
    | Inr va \<Rightarrow> \<exists>bgn n xs' k. align_up len = Some (n * PGSIZE) \<and> (bgn0 \<noteq> 0 \<longrightarrow> bgn = bgn0) \<and>
        covered (exts w xs) \<inter> {bgn..<bgn + n * PGSIZE} = {} \<and>
        covered (exts w' xs') = covered (exts w xs) \<union> {bgn..<bgn + n * PGSIZE} \<and>
        space_ok MMAP_BEGIN MMAP_END w' head' xs' \<and> grown root bgn (bgn + n * PGSIZE) s s' \<and>
        (va, k) \<in> set (exts w' xs') \<and> va \<le> bgn \<and> bgn < va + k * PGSIZE)"
proof (cases "(r, head', w', s') = (Inl OutOfRange, head, w, s)")
  case True
  then show ?thesis using sp inv pt_ext_refl [of pmem_inv s live root] by simp
next
  case False
  from mmap_choice [OF run] False obtain bgn n where c: "align_up len = Some (n * PGSIZE)" "ext_fits MMAP_BEGIN MMAP_END (bgn, n)"
    "bgn0 \<noteq> 0 \<longrightarrow> bgn = bgn0" "mmap_place root head bgn n w s = Some (r, head', w', s')" by blast
  note pl = mmap_place_spec [OF sp MMAP_END_bound(1) c(2,4)]
  have dis: "covered (exts w xs) \<inter> {bgn..<bgn + n * PGSIZE} = {}" using pl False by (metis (no_types, lifting))
  then have "placed MMAP_BEGIN MMAP_END root bgn n xs head w s (r, head', w', s')" using pl by (metis (no_types, lifting))
  then obtain rm where rm: "map_pages root bgn n s = Some (rm, s')" and post: "case r of
      Inl e \<Rightarrow> head' = head \<and> space_ok MMAP_BEGIN MMAP_END w' head xs \<and> exts w' xs = exts w xs \<and>
        (rm = Inl e \<or> rm = Inr () \<and> e = NoMem \<and> wh_free w = {})
    | Inr va \<Rightarrow> rm = Inr () \<and> (\<exists>xs' k. space_ok MMAP_BEGIN MMAP_END w' head' xs' \<and>
        covered (exts w' xs') = covered (exts w xs) \<union> {bgn..<bgn + n * PGSIZE} \<and>
        (va, k) \<in> set (exts w' xs') \<and> va \<le> bgn \<and> bgn < va + k * PGSIZE)"
    unfolding placed_def prod.case by blast
  have "bgn mod PGSIZE = 0" "bgn + n * PGSIZE < 2 ^ 63" using c(2) MMAP_END_bound(2) by (auto simp: ext_fits_def ext_end_def)
  note mp = map_pages_spec [OF inv this rm]
  show ?thesis
  proof (cases r)
    case (Inl e)
    show ?thesis using post [unfolded Inl sum.case] mp unfolding Inl sum.case by (intro conjI) (elim conjE, assumption)+
  next
    case (Inr va)
    obtain xs' k where x: "rm = Inr ()" "space_ok MMAP_BEGIN MMAP_END w' head' xs'"
      "covered (exts w' xs') = covered (exts w xs) \<union> {bgn..<bgn + n * PGSIZE}"
      "(va, k) \<in> set (exts w' xs')" "va \<le> bgn" "bgn < va + k * PGSIZE" using post [unfolded Inr sum.case] by (elim conjE exE) (rule that)
    show ?thesis unfolding Inr sum.case
      using mp x(1) by (intro conjI exI [of _ bgn] exI [of _ n] exI [of _ xs'] exI [of _ k] c(1,3) dis x(2-6)) auto
  qed
qed

text \<open>C28. An \<open>mmap\<close> at a given address that directly follows an existing region does not return that address: it
  returns the begin of the existing region, which is lower.\<close>

theorem mmap_adjacent_address:
  assumes sp: "space_ok MMAP_BEGIN MMAP_END w head xs" and adj: "(b, k) \<in> set (exts w xs)" "bgn = b + k * PGSIZE" and "bgn \<noteq> 0"
    and run: "mmap root head bgn len MMAP_BEGIN MMAP_END w s = Some (Inr va, head', w', s')"
  shows "va = b \<and> va < bgn"
proof -
  from mmap_choice [OF run] have "\<exists>n. ext_fits MMAP_BEGIN MMAP_END (bgn, n) \<and> mmap_place root head bgn n w s = Some (Inr va, head', w', s')"
    using \<open>bgn \<noteq> 0\<close> by (elim disjE exE conjE) (simp, intro exI conjI, simp_all)
  then obtain n where c: "ext_fits MMAP_BEGIN MMAP_END (bgn, n)" "mmap_place root head bgn n w s = Some (Inr va, head', w', s')"
    by (elim exE conjE) (rule that)
  note pl = mmap_place_spec [OF sp MMAP_END_bound(1) c]
  have "covered (exts w xs) \<inter> {bgn..<bgn + n * PGSIZE} = {}"
  proof (rule ccontr)
    assume "covered (exts w xs) \<inter> {bgn..<bgn + n * PGSIZE} \<noteq> {}"
    from pl [unfolded if_not_P [OF this]] show False by simp
  qed
  from pl [unfolded if_P [OF this], THEN conjunct2, rule_format, OF adj(1) adj(2) [symmetric]]
  have "va = b" by simp
  moreover have "ext_fits MMAP_BEGIN MMAP_END (b, k)" using sp adj(1) by (auto simp: space_ok_def extents_ok_def)
  ultimately show ?thesis using ext_fits_order [of MMAP_BEGIN MMAP_END "(b, k)"] adj(2) by (simp add: ext_end_def)
qed

lemma munmap_skip_returns:
  "chain (\<lambda>i. mr_next (nodes i)) cur ys \<Longrightarrow> \<forall>i \<in> set ys. region_end (nodes i) \<noteq> None \<Longrightarrow>
    \<exists>p c. munmap_skip nodes start prev cur = Some (p, c)"
proof (induction ys arbitrary: cur prev)
  case (Cons y ys)
  then have c: "cur = Some y" and IH: "\<And>prev. \<exists>p c. munmap_skip nodes start prev (mr_next (nodes y)) = Some (p, c)" by auto
  obtain e where "region_end (nodes y) = Some e" using Cons.prems(2) by auto
  then show ?case using IH by (subst munmap_skip.simps) (simp add: c)
qed (simp add: munmap_skip.simps)


text \<open>A process with one region of one page at the begin of the mmap area.\<close>

definition space_example :: warehouse where
  "space_example = set_node 0 \<lparr>mr_begin = MMAP_BEGIN, mr_npages = 1, mr_next = None\<rparr> (snd (region_alloc warehouse_new))"

lemma space_example_ok: "space_ok MMAP_BEGIN MMAP_END space_example (Some 0) [0]" "exts space_example [0] = [(MMAP_BEGIN, 1)]"
proof -
  have al: "region_alloc warehouse_new = (Some 0, snd (region_alloc warehouse_new))"
    by (simp add: region_alloc_def mmap_init_def warehouse_new_def)
  have "space_ok 0 0 warehouse_new None []"
    by (simp add: space_ok_def extents_ok_def warehouse_new_inv)
  note a = region_alloc_space [OF this al]
  show ex: "exts space_example [0] = [(MMAP_BEGIN, 1)]" by (simp add: space_example_def ext_of_def)
  have "extents_ok MMAP_BEGIN MMAP_END [(MMAP_BEGIN, 1)]"
    using MMAP_BEGIN_page(1) by (simp add: extents_ok_def ext_fits_def ext_end_def MMAP_BEGIN_def MMAP_END_def VA_MAX_eq PGSIZE_def)
  then show "space_ok MMAP_BEGIN MMAP_END space_example (Some 0) [0]"
    unfolding space_ok_def ex using a(1,3,5) by (simp add: space_example_def space_ok_def N_MMAP_def)
qed


lemma mmap_example:
  assumes "pmem_inv s" "pt_wf (live s) (mem s) root" "free_pages False s \<noteq> {}" "2 \<le> card (free_pages True s)" "\<forall>va. pt_get (mem s) root va = 0"
  shows "\<exists>w' s'. mmap root (Some 0) (MMAP_BEGIN + PGSIZE) 100 MMAP_BEGIN MMAP_END space_example s = Some (Inr MMAP_BEGIN, Some 0, w', s')"
proof -
  let ?a = "MMAP_BEGIN + PGSIZE"
  have a: "?a mod PGSIZE = 0" "?a < VA_MAX" "?a < 2 ^ 63" using MMAP_BEGIN_page by (auto simp: MMAP_BEGIN_def MMAP_END_def VA_MAX_eq PGSIZE_def)
  obtain s' where g: "grow_loop root (?a + PGSIZE) ?a s = Some (Inr (), s')"
    using grow_page_succeeds [OF assms(1,2) a(1,2) assms(3,4)] assms(5) by (auto simp: is_valid_eq)
  have "align_down ?a = ?a" using a by (intro align_down_id) auto
  then have mp: "map_pages root ?a 1 s = Some (Inr (), s')"
    using g a(3) by (simp add: map_pages_def cmul_def cadd_def PGSIZE_def)
  have nd: "wh_mmap space_example 0 = \<lparr>mr_begin = MMAP_BEGIN, mr_npages = 1, mr_next = None\<rparr>" by (simp add: space_example_def)
  have re: "region_end (wh_mmap space_example 0) = Some ?a" using a(3) by (simp add: nd region_end_def cmul_def cadd_def PGSIZE_def)
  have sc: "mmap_scan (wh_mmap space_example) ?a None (Some 0) = Some (Some 0, None)"
    using mmap_scan_spec [of "wh_mmap space_example" "Some 0" "[0]" ?a None] nd by (simp add: Let_def)
  have chk: "umul 1 PGSIZE = Some PGSIZE" "uadd ?a PGSIZE = Some (?a + PGSIZE)" using a(3) by (simp_all add: cmul_def cadd_def PGSIZE_def)
  have oe: "opt_end space_example (Some 0) = Some (Some ?a)" "opt_end space_example None = Some None" using re by (simp_all add: opt_end_def)
  note pl = mmap_place_eq [OF chk sc oe, of root s]
  have "\<exists>w'. mmap_extend_prev root (Some 0) 0 None False MMAP_BEGIN (?a + PGSIZE) (?a + PGSIZE) space_example s = Some (Inr MMAP_BEGIN, Some 0, w', s')"
    using mp unfolding mmap_extend_prev_def re by (simp add: csub_def nd Let_def)
  then obtain w' where "mmap_place root (Some 0) ?a 1 space_example s = Some (Inr MMAP_BEGIN, Some 0, w', s')"
    unfolding pl by (auto simp: nd Let_def)
  moreover have "align_up 100 = Some PGSIZE" by (simp add: align_up_Some_iff PGSIZE_def)
  moreover have "?a + PGSIZE \<le> MMAP_END" by (simp add: MMAP_BEGIN_def MMAP_END_def VA_MAX_eq PGSIZE_def)
  moreover have "?a AND (PGSIZE - 1) = 0" using a(1) unfolding and_page_mask .
  moreover have "(PGSIZE = 0) = False" by (simp add: PGSIZE_def)
  ultimately show ?thesis using chk by (simp add: mmap_def del: neq0_conv)
qed

theorem mmap_correct_witness:
  "\<exists>root s w' s'. mmap root (Some 0) (MMAP_BEGIN + PGSIZE) 100 MMAP_BEGIN MMAP_END space_example s = Some (Inr MMAP_BEGIN, Some 0, w', s') \<and>
    uvm_ext root s s' \<and> (\<exists>xs'. space_ok MMAP_BEGIN MMAP_END w' (Some 0) xs' \<and> covered (exts w' xs') = {MMAP_BEGIN..<MMAP_BEGIN + 2 * PGSIZE})"
proof -
  obtain root s where s: "pmem_inv s" "pt_wf (live s) (mem s) root" "card (free_pages True s) = 3" "free_pages False s \<noteq> {}"
    "\<forall>va. pt_get (mem s) root va = 0"
    using uvm_example_root by blast
  obtain w' s' where run: "mmap root (Some 0) (MMAP_BEGIN + PGSIZE) 100 MMAP_BEGIN MMAP_END space_example s = Some (Inr MMAP_BEGIN, Some 0, w', s')"
    using mmap_example [OF s(1,2,4)] s(3,5) by auto
  from mmap_correct [OF space_example_ok(1) s(1,2) run, unfolded sum.case]
  obtain bgn n xs' where c: "uvm_ext root s s'" "align_up 100 = Some (n * PGSIZE)" "bgn = MMAP_BEGIN + PGSIZE"
    "covered (exts w' xs') = covered (exts space_example [0]) \<union> {bgn..<bgn + n * PGSIZE}" "space_ok MMAP_BEGIN MMAP_END w' (Some 0) xs'"
    by (elim conjE exE) (rule that, simp_all)
  have "n = 1" using c(2) by (simp add: align_up_Some_iff PGSIZE_def)
  then have "covered (exts w' xs') = {MMAP_BEGIN..<MMAP_BEGIN + 2 * PGSIZE}"
    unfolding c(4) space_example_ok(2) using c(3) by (auto simp: ext_end_def)
  then show ?thesis using run c(1,5) by blast
qed

theorem mmap_adjacent_address_witness:
  "\<exists>root s w' s'. mmap root (Some 0) (MMAP_BEGIN + PGSIZE) 100 MMAP_BEGIN MMAP_END space_example s = Some (Inr MMAP_BEGIN, Some 0, w', s') \<and>
    MMAP_BEGIN < MMAP_BEGIN + PGSIZE"
proof -
  obtain root s where s: "pmem_inv s" "pt_wf (live s) (mem s) root" "card (free_pages True s) = 3" "free_pages False s \<noteq> {}"
    "\<forall>va. pt_get (mem s) root va = 0"
    using uvm_example_root by blast
  obtain w' s' where run: "mmap root (Some 0) (MMAP_BEGIN + PGSIZE) 100 MMAP_BEGIN MMAP_END space_example s = Some (Inr MMAP_BEGIN, Some 0, w', s')"
    using mmap_example [OF s(1,2,4)] s(3,5) by auto
  have "MMAP_BEGIN < MMAP_BEGIN + PGSIZE"
    using mmap_adjacent_address [OF space_example_ok(1) _ _ _ run, of MMAP_BEGIN 1] space_example_ok(2) by simp
  then show ?thesis using run by blast
qed

end
