(* ===== verification/Console.thy ===== *)
theory Console
  imports Memory
begin

unbundle bit_operations_syntax

text \<open>
  The serial console (\<open>drivers/uart\<close>): the configuration of the device, the busy-waiting transmitter, the interrupt handler that
  echoes what is typed, and the decoder for UTF-8 with the record of the widths on the line. The device is a sequence of readings of its line status
  register and a queue of received bytes; a driver that waits for a reading that does not come is \<open>None\<close>. A character is its scalar value; \<open>from_utf8\<close>
  and \<open>encode_utf8\<close> are those of the standard library.
\<close>

section \<open>Configuration\<close>

record Config =
  cfg_base :: usize
  cfg_thr_offset :: usize
  cfg_lsr_offset :: usize
  cfg_lsr_thre_bit :: u8

definition DEFAULT_QEMU_VIRT :: Config where
  "DEFAULT_QEMU_VIRT = \<lparr>cfg_base = 0x10000000, cfg_thr_offset = 0, cfg_lsr_offset = 5, cfg_lsr_thre_bit = 0x20\<rparr>"

text \<open>The two properties of the node in the device tree, when present.\<close>

definition register_stride :: "usize option \<Rightarrow> usize option \<Rightarrow> usize" where
  "register_stride reg_shift_prop reg_io_width_prop = (
     let reg_shift = (case reg_shift_prop of Some x \<Rightarrow> x | None \<Rightarrow> 0);
         reg_io_width = (case reg_io_width_prop of Some x \<Rightarrow> x | None \<Rightarrow> 1);
         shift_multiplier = (if reg_shift < 64 then 2 ^ reg_shift else 0);
         stride = min (reg_io_width * (if shift_multiplier = 0 then 1 else shift_multiplier)) (2 ^ 64 - 1)
     in max stride 1)"

definition Config_from_fdt :: "bool \<Rightarrow> usize option \<Rightarrow> usize \<Rightarrow> Config option" where
  "Config_from_fdt compatible reg stride =
     (if \<not> compatible then None
      else do {
        base \<leftarrow> reg;
        lsr \<leftarrow> cmul 64 5 stride;
        Some \<lparr>cfg_base = base, cfg_thr_offset = 0 * stride, cfg_lsr_offset = lsr, cfg_lsr_thre_bit = 0x20\<rparr>
      })"

text \<open>Enabling the receive interrupt writes 1 to this register.\<close>

definition ier_addr :: "Config \<Rightarrow> usize" where
  "ier_addr cfg = (
     let lsr_off = cfg_lsr_offset cfg; stride = (if 5 \<le> lsr_off then lsr_off div 5 else 1)
     in cfg_base cfg + stride * 1)"

section \<open>The transmitter\<close>

record uart_dev =
  u_lsr :: "u8 list"
  u_rx :: "u8 list"
  u_tx :: "u8 list"

fun wait_thre :: "u8 list \<Rightarrow> u8 list option" where
  "wait_thre [] = None"
| "wait_thre (r # rs) = (if r AND 0x20 = 0 then wait_thre rs else Some rs)"

definition putb :: "u8 \<Rightarrow> uart_dev \<Rightarrow> uart_dev option" where
  "putb b u = do { rs \<leftarrow> wait_thre (u_lsr u); Some (u\<lparr>u_lsr := rs, u_tx := u_tx u @ [b]\<rparr>) }"

fun puts :: "u8 list \<Rightarrow> uart_dev \<Rightarrow> uart_dev option" where
  "puts [] u = Some u"
| "puts (b # bs) u = do { u \<leftarrow> putb b u; puts bs u }"

definition NEWLINE :: u8 where "NEWLINE = 10"

fun write_str :: "u8 list \<Rightarrow> uart_dev \<Rightarrow> uart_dev option" where
  "write_str [] u = Some u"
| "write_str (ch # s) u = do {
     u \<leftarrow> (if ch = NEWLINE then putb 13 u else Some u);
     u \<leftarrow> putb ch u;
     write_str s u
   }"

section \<open>UTF-8\<close>

definition cont :: "u8 \<Rightarrow> bool" where
  "cont b \<longleftrightarrow> 0x80 \<le> b \<and> b \<le> 0xBF"

definition byte :: "nat \<Rightarrow> u8" where
  "byte n = of_nat n"

definition encode_utf8 :: "nat \<Rightarrow> u8 list" where
  "encode_utf8 c =
     (if c < 0x80 then [byte c]
      else if c < 0x800 then [byte (0xC0 + c div 64), byte (0x80 + c mod 64)]
      else if c < 0x10000 then [byte (0xE0 + c div 4096), byte (0x80 + c div 64 mod 64), byte (0x80 + c mod 64)]
      else [byte (0xF0 + c div 262144), byte (0x80 + c div 4096 mod 64), byte (0x80 + c div 64 mod 64), byte (0x80 + c mod 64)])"

definition scalar :: "nat \<Rightarrow> bool" where
  "scalar c \<longleftrightarrow> c < 0xD800 \<or> 0xE000 \<le> c \<and> c < 0x110000"

fun from_utf8 :: "u8 list \<Rightarrow> nat list option" where
  "from_utf8 [] = Some []"
| "from_utf8 (b # bs) =
     (if b < 0x80 then map_option ((#) (unat b)) (from_utf8 bs)
      else if 0xC2 \<le> b \<and> b \<le> 0xDF then
        (case bs of
           b1 # cs \<Rightarrow> if cont b1 then map_option ((#) (unat b mod 32 * 64 + unat b1 mod 64)) (from_utf8 cs) else None
         | _ \<Rightarrow> None)
      else if 0xE0 \<le> b \<and> b \<le> 0xEF then
        (case bs of
           b1 # b2 # cs \<Rightarrow>
             if cont b1 \<and> cont b2 \<and> (b = 0xE0 \<longrightarrow> 0xA0 \<le> b1) \<and> (b = 0xED \<longrightarrow> b1 \<le> 0x9F)
             then map_option ((#) (unat b mod 16 * 4096 + unat b1 mod 64 * 64 + unat b2 mod 64)) (from_utf8 cs) else None
         | _ \<Rightarrow> None)
      else if 0xF0 \<le> b \<and> b \<le> 0xF4 then
        (case bs of
           b1 # b2 # b3 # cs \<Rightarrow>
             if cont b1 \<and> cont b2 \<and> cont b3 \<and> (b = 0xF0 \<longrightarrow> 0x90 \<le> b1) \<and> (b = 0xF4 \<longrightarrow> b1 \<le> 0x8F)
             then map_option ((#) (unat b mod 8 * 262144 + unat b1 mod 64 * 4096 + unat b2 mod 64 * 64 + unat b3 mod 64)) (from_utf8 cs) else None
         | _ \<Rightarrow> None)
      else None)"

definition utf8_expected_len :: "u8 \<Rightarrow> nat" where
  "utf8_expected_len b =
     (if 0xC2 \<le> b \<and> b \<le> 0xDF then 2 else if 0xE0 \<le> b \<and> b \<le> 0xEF then 3 else if 0xF0 \<le> b \<and> b \<le> 0xF4 then 4 else 0)"

record Utf8Decoder =
  dec_buf :: "u8 list"
  dec_len :: nat
  dec_need :: nat

definition Utf8Decoder_new :: Utf8Decoder where
  "Utf8Decoder_new = \<lparr>dec_buf = replicate 4 0, dec_len = 0, dec_need = 0\<rparr>"

definition dec_clear :: "Utf8Decoder \<Rightarrow> Utf8Decoder" where
  "dec_clear d = d\<lparr>dec_len := 0, dec_need := 0\<rparr>"

definition has_pending :: "Utf8Decoder \<Rightarrow> bool" where
  "has_pending d \<longleftrightarrow> 0 < dec_len d"

datatype Utf8PushResult = Pending | Completed nat | Invalid

definition dec_push :: "u8 \<Rightarrow> Utf8Decoder \<Rightarrow> Utf8PushResult \<times> Utf8Decoder" where
  "dec_push b d =
     (if dec_len d = 0 then
        let need = utf8_expected_len b in
        if need = 0 then (Invalid, d)
        else (Pending, d\<lparr>dec_buf := (dec_buf d)[0 := b], dec_len := 1, dec_need := need\<rparr>)
      else if b AND 0xC0 \<noteq> 0x80 then (Invalid, dec_clear d)
      else
        let d = (if dec_len d < length (dec_buf d) then d\<lparr>dec_buf := (dec_buf d)[dec_len d := b]\<rparr> else d);
            d = d\<lparr>dec_len := dec_len d + 1\<rparr> in
        if dec_len d = dec_need d then
          (case from_utf8 (take (dec_len d) (dec_buf d)) of
             Some [c] \<Rightarrow> (Completed c, dec_clear d)
           | Some [] \<Rightarrow> (Completed 0xFFFD, dec_clear d)
           | _ \<Rightarrow> (Invalid, dec_clear d))
        else (Pending, d))"

section \<open>The widths on the line\<close>

definition LINEBUF_CAP :: nat where "LINEBUF_CAP = 256"

record ConsoleEcho =
  con_decoder :: Utf8Decoder
  con_widths :: "u8 list"
  con_len :: nat

definition ConsoleEcho_new :: ConsoleEcho where
  "ConsoleEcho_new = \<lparr>con_decoder = Utf8Decoder_new, con_widths = replicate LINEBUF_CAP 0, con_len = 0\<rparr>"

definition clear_line :: "ConsoleEcho \<Rightarrow> ConsoleEcho" where
  "clear_line con = con\<lparr>con_len := 0\<rparr>"

text \<open>The shift of the whole buffer by one place.\<close>

fun shift_widths :: "nat list \<Rightarrow> u8 list \<Rightarrow> u8 list" where
  "shift_widths [] ws = ws"
| "shift_widths (i # is) ws = shift_widths is (ws[i - 1 := ws ! i])"

definition push_width :: "u8 \<Rightarrow> ConsoleEcho \<Rightarrow> ConsoleEcho" where
  "push_width w con =
     (if w = 0 then con
      else if con_len con < LINEBUF_CAP then con\<lparr>con_widths := (con_widths con)[con_len con := w], con_len := con_len con + 1\<rparr>
      else con\<lparr>con_widths := (shift_widths [1..<LINEBUF_CAP] (con_widths con))[LINEBUF_CAP - 1 := w]\<rparr>)"

definition pop_width :: "ConsoleEcho \<Rightarrow> u8 option \<times> ConsoleEcho" where
  "pop_width con =
     (if con_len con = 0 then (None, con)
      else let con = con\<lparr>con_len := con_len con - 1\<rparr> in (Some (con_widths con ! con_len con), con))"

definition RANGES_2 :: "(nat \<times> nat) list" where
  "RANGES_2 = [(0x1100, 0x115F), (0x2329, 0x232A), (0x2E80, 0xA4CF), (0xAC00, 0xD7A3), (0xF900, 0xFAFF), (0xFE10, 0xFE19), (0xFE30, 0xFE6F),
     (0xFF00, 0xFF60), (0xFFE0, 0xFFE6), (0x1F300, 0x1F64F), (0x1F900, 0x1F9FF), (0x20000, 0x2FFFD), (0x30000, 0x3FFFD)]"

definition char_display_width :: "nat \<Rightarrow> u8" where
  "char_display_width c = (if c < 0x80 then 1 else if list_ex (\<lambda>(lo, hi). lo \<le> c \<and> c \<le> hi) RANGES_2 then 2 else 1)"

section \<open>The interrupt handler\<close>

definition erase :: "u8 list" where "erase = [8, 32, 8]"
definition replacement :: "u8 list" where "replacement = encode_utf8 0xFFFD"

definition upd_decoder :: "(Utf8Decoder \<Rightarrow> Utf8Decoder) \<Rightarrow> ConsoleEcho \<Rightarrow> ConsoleEcho" where
  "upd_decoder f con = con\<lparr>con_decoder := f (con_decoder con)\<rparr>"

text \<open>What one received byte puts out, with the feature \<open>uart-unicode\<close> and without it.\<close>

definition echo_unicode :: "u8 \<Rightarrow> ConsoleEcho \<Rightarrow> u8 list \<times> ConsoleEcho" where
  "echo_unicode b con =
     (if b = 13 \<or> b = NEWLINE then ([NEWLINE], clear_line (upd_decoder dec_clear con))
      else if b = 0x08 \<or> b = 0x7f then
        if has_pending (con_decoder con) then ([], upd_decoder dec_clear con)
        else (case pop_width con of
                (Some w, con) \<Rightarrow> (concat (replicate (unat w) erase), con)
              | (None, con) \<Rightarrow> ([], con))
      else if b < 0x80 then
        let (pre, con) = (if has_pending (con_decoder con) then (replacement, upd_decoder dec_clear (push_width 1 con)) else ([], con))
        in (pre @ encode_utf8 (unat b), push_width 1 con)
      else
        let (r, d) = dec_push b (con_decoder con); con = con\<lparr>con_decoder := d\<rparr> in
        case r of
          Pending \<Rightarrow> ([], con)
        | Completed c \<Rightarrow> (encode_utf8 c, push_width (char_display_width c) con)
        | Invalid \<Rightarrow> (replacement, push_width 1 con))"

definition echo_plain :: "u8 \<Rightarrow> unit \<Rightarrow> u8 list \<times> unit" where
  "echo_plain b con = (if b = 13 \<or> b = NEWLINE then [NEWLINE] else if b = 0x08 \<or> b = 0x7f then erase else [b], ())"

lemma wait_thre_length: "wait_thre rs = Some rs' \<Longrightarrow> length rs' < length rs"
  by (induction rs) (auto split: if_splits)

lemma puts_rx: "puts bs u = Some u' \<Longrightarrow> u_rx u' = u_rx u \<and> u_tx u' = u_tx u @ bs"
  by (induction bs arbitrary: u) (auto simp: putb_def split: Option.bind_splits)

function uart_handler :: "(u8 \<Rightarrow> 'c \<Rightarrow> u8 list \<times> 'c) \<Rightarrow> 'c \<Rightarrow> uart_dev \<Rightarrow> ('c \<times> uart_dev) option" where
  "uart_handler echo con u =
     (case u_lsr u of
        [] \<Rightarrow> None
      | status # rs \<Rightarrow>
          if status AND 0x01 = 0 then Some (con, u\<lparr>u_lsr := rs\<rparr>)
          else (case u_rx u of
                  [] \<Rightarrow> None
                | b # bs \<Rightarrow> do {
                    let (out, con) = echo b con;
                    u \<leftarrow> puts out (u\<lparr>u_lsr := rs, u_rx := bs\<rparr>);
                    uart_handler echo con u
                  }))"
  by pat_completeness auto
termination
  by (relation "measure (\<lambda>(_, _, u). length (u_rx u))") (auto dest!: puts_rx)

declare uart_handler.simps [simp del]


section \<open>The handler echoes what was received\<close>

fun echo_all :: "(u8 \<Rightarrow> 'c \<Rightarrow> u8 list \<times> 'c) \<Rightarrow> u8 list \<Rightarrow> 'c \<Rightarrow> u8 list \<times> 'c" where
  "echo_all echo [] con = ([], con)"
| "echo_all echo (b # bs) con = (let (out, con) = echo b con; (rest, con) = echo_all echo bs con in (out @ rest, con))"

lemma echo_all_append:
  "echo_all echo (bs @ cs) con = (let (out, con) = echo_all echo bs con; (rest, con) = echo_all echo cs con in (out @ rest, con))"
  by (induction bs arbitrary: con) (auto simp: Let_def split: prod.splits)

lemma handler_echoes:
  "uart_handler echo con u = Some (con', u') \<Longrightarrow>
    \<exists>bs out. u_rx u = bs @ u_rx u' \<and> echo_all echo bs con = (out, con') \<and> u_tx u' = u_tx u @ out"
proof (induction echo con u rule: uart_handler.induct)
  case (1 echo con u)
  then obtain status rs where l: "u_lsr u = status # rs" by (subst (asm) (2) uart_handler.simps) (auto split: list.splits)
  show ?case
  proof (cases "status AND 0x01 = 0")
    case True
    then show ?thesis using 1(2) l by (intro exI [of _ "[]"]) (auto simp: uart_handler.simps [of echo con u])
  next
    case False
    obtain b bs where b: "u_rx u = b # bs" using 1(2) l False by (subst (asm) uart_handler.simps) (auto split: list.splits)
    obtain out con1 where e: "echo b con = (out, con1)" by fastforce
    obtain u1 where u1: "puts out (u\<lparr>u_lsr := rs, u_rx := bs\<rparr>) = Some u1" "uart_handler echo con1 u1 = Some (con', u')"
      using 1(2) l False b e by (subst (asm) uart_handler.simps) (auto split: Option.bind_splits)
    have p: "u_rx u1 = bs" "u_tx u1 = u_tx u @ out" using puts_rx [OF u1(1)] by simp_all
    obtain bs' out' where "u_rx u1 = bs' @ u_rx u'" "echo_all echo bs' con1 = (out', con')" "u_tx u' = u_tx u1 @ out'"
      using 1(1) [OF l False b e [symmetric] refl u1(1) u1(2)] by blast
    then show ?thesis using b e p by (intro exI [of _ "b # bs'"] exI [of _ "out @ out'"]) simp
  qed
qed

section \<open>Encoding and decoding\<close>

lemma all_bytes: "\<forall>n \<in> set [0..<256]. P (of_nat n) \<Longrightarrow> P (b :: u8)"
proof -
  assume "\<forall>n \<in> set [0..<256]. P (of_nat n)"
  moreover have "unat b < 256" using unsigned_less [of b] by simp
  ultimately have "P (of_nat (unat b))" by (metis atLeastLessThan_iff le0 set_upt)
  then show ?thesis by simp
qed

lemma cont_mask: "b AND 0xC0 = 0x80 \<longleftrightarrow> cont (b :: u8)"
  by (rule all_bytes) code_simp

lemma unat_byte: "n < 256 \<Longrightarrow> unat (byte n) = n"
  by (simp add: byte_def unat_of_nat_u8)

lemma byte_unat [simp]: "byte (unat b) = b"
  by (simp add: byte_def)

lemma byte_eq: "n < 256 \<Longrightarrow> byte n = w \<longleftrightarrow> n = unat w"
  using unat_byte [of n] by auto

lemmas byte_cmp = word_le_nat_alt word_less_nat_alt unat_byte byte_eq cont_def

text \<open>The bounds of the parts of a scalar value.\<close>

lemma split_64: "c = c div 64 * 64 + c mod (64 :: nat)" "c div 64 = c div 4096 * 64 + c div 64 mod (64 :: nat)" "c div 4096 = c div 262144 * 64 + c div 4096 mod (64 :: nat)"
  by (simp_all add: div_mult2_eq [of c 64 64, simplified] div_mult2_eq [of c 4096 64, simplified])

lemma lead_mods: "x < 32 \<Longrightarrow> (192 + x) mod 32 = x" "x < 64 \<Longrightarrow> (128 + x) mod 64 = x" "x < 16 \<Longrightarrow> (224 + x) mod 16 = x" "x < 8 \<Longrightarrow> (240 + x) mod 8 = (x :: nat)"
  using mod_mult_self1 [of x 6 32] mod_mult_self1 [of x 2 64] mod_mult_self1 [of x 14 16] mod_mult_self1 [of x 30 8] by (simp_all add: add.commute)

lemma decode_2: "2 \<le> x \<Longrightarrow> x < 32 \<Longrightarrow> z < 64 \<Longrightarrow> from_utf8 [byte (0xC0 + x), byte (0x80 + z)] = Some [x * 64 + z]"
  by (simp add: byte_cmp lead_mods)

lemma decode_3:
  "x < 16 \<Longrightarrow> y < 64 \<Longrightarrow> z < 64 \<Longrightarrow> (x = 0 \<longrightarrow> 0x20 \<le> y) \<Longrightarrow> (x = 13 \<longrightarrow> y < 0x20) \<Longrightarrow>
    from_utf8 [byte (0xE0 + x), byte (0x80 + y), byte (0x80 + z)] = Some [x * 4096 + y * 64 + z]"
  by (auto simp: byte_cmp lead_mods)

lemma decode_4:
  "w < 5 \<Longrightarrow> x < 64 \<Longrightarrow> y < 64 \<Longrightarrow> z < 64 \<Longrightarrow> (w = 0 \<longrightarrow> 0x10 \<le> x) \<Longrightarrow> (w = 4 \<longrightarrow> x < 0x10) \<Longrightarrow>
    from_utf8 [byte (0xF0 + w), byte (0x80 + x), byte (0x80 + y), byte (0x80 + z)] = Some [w * 262144 + x * 4096 + y * 64 + z]"
  by (auto simp: byte_cmp lead_mods)

text \<open>The shapes of an encoded character, with the ranges of its parts.\<close>

lemma encode_shape:
  assumes "scalar c"
  obtains "c < 0x80" "encode_utf8 c = [byte c]"
  | x z where "2 \<le> x" "x < 32" "z < 64" "c = x * 64 + z" "encode_utf8 c = [byte (0xC0 + x), byte (0x80 + z)]"
  | x y z where "x < 16" "y < 64" "z < 64" "x = 0 \<longrightarrow> 0x20 \<le> y" "x = 13 \<longrightarrow> y < 0x20" "c = x * 4096 + y * 64 + z"
      "encode_utf8 c = [byte (0xE0 + x), byte (0x80 + y), byte (0x80 + z)]"
  | w x y z where "w < 5" "x < 64" "y < 64" "z < 64" "w = 0 \<longrightarrow> 0x10 \<le> x" "w = 4 \<longrightarrow> x < 0x10" "c = w * 262144 + x * 4096 + y * 64 + z"
      "encode_utf8 c = [byte (0xF0 + w), byte (0x80 + x), byte (0x80 + y), byte (0x80 + z)]"
proof -
  consider "c < 0x80" | "0x80 \<le> c" "c < 0x800" | "0x800 \<le> c" "c < 0x10000" | "0x10000 \<le> c" "c < 0x110000" using assms unfolding scalar_def by linarith
  then show ?thesis
  proof cases
    case 1
    then show ?thesis using that(1) by (simp add: encode_utf8_def)
  next
    case 2
    then show ?thesis using split_64(1) [of c] by (intro that(2) [of "c div 64" "c mod 64"]) (auto simp: encode_utf8_def)
  next
    case 3
    let ?x = "c div 4096" and ?y = "c div 64 mod 64" and ?z = "c mod 64"
    have b: "?x < 16" "?y < 64" "?z < 64" using 3 by auto
    have e: "?x * 4096 + ?y * 64 + ?z = c" using split_64(1,2) [of c] by linarith
    have r: "?x = 0 \<longrightarrow> 0x20 \<le> ?y" "?x = 13 \<longrightarrow> ?y < 0x20" using e b 3 assms unfolding scalar_def by linarith+
    show ?thesis using that(3) [OF b r e [symmetric]] 3 by (simp add: encode_utf8_def)
  next
    case 4
    let ?w = "c div 262144" and ?x = "c div 4096 mod 64" and ?y = "c div 64 mod 64" and ?z = "c mod 64"
    have b: "?w < 5" "?x < 64" "?y < 64" "?z < 64" using 4 by auto
    have e: "?w * 262144 + ?x * 4096 + ?y * 64 + ?z = c" using split_64 [of c] by linarith
    have r: "?w = 0 \<longrightarrow> 0x10 \<le> ?x" "?w = 4 \<longrightarrow> ?x < 0x10" using e b 4 by linarith+
    show ?thesis using that(4) [OF b r e [symmetric]] 4 by (simp add: encode_utf8_def)
  qed
qed

lemma decode_encode: "scalar c \<Longrightarrow> from_utf8 (encode_utf8 c) = Some [c]"
  by (elim encode_shape) (simp_all add: decode_2 decode_3 decode_4 byte_cmp del: from_utf8.simps(2), simp add: byte_cmp)


section \<open>Decoding byte by byte\<close>

definition idle :: "Utf8Decoder \<Rightarrow> bool" where
  "idle d \<longleftrightarrow> dec_len d = 0 \<and> length (dec_buf d) = 4"

lemma expected_len:
  "2 \<le> x \<Longrightarrow> x < 32 \<Longrightarrow> utf8_expected_len (byte (0xC0 + x)) = 2" "x < 16 \<Longrightarrow> utf8_expected_len (byte (0xE0 + x)) = 3"
  "x < 5 \<Longrightarrow> utf8_expected_len (byte (0xF0 + x)) = 4" "x < 64 \<Longrightarrow> cont (byte (0x80 + x))"
  by (auto simp: utf8_expected_len_def byte_cmp)

lemma echo_high:
  assumes "128 \<le> n" "n < 256"
  shows "echo_unicode (byte n) con = (
    let (r, d) = dec_push (byte n) (con_decoder con); con = con\<lparr>con_decoder := d\<rparr> in
    case r of Pending \<Rightarrow> ([], con) | Completed c \<Rightarrow> (encode_utf8 c, push_width (char_display_width c) con) | Invalid \<Rightarrow> (replacement, push_width 1 con))"
proof -
  have "byte n \<noteq> 13" "byte n \<noteq> NEWLINE" "byte n \<noteq> 8" "byte n \<noteq> 0x7f" "\<not> byte n < 0x80" using assms by (auto simp: byte_cmp NEWLINE_def)
  then show ?thesis by (simp add: echo_unicode_def)
qed

lemma push_lead: "dec_len d = 0 \<Longrightarrow> utf8_expected_len b \<noteq> 0 \<Longrightarrow>
  dec_push b d = (Pending, d\<lparr>dec_buf := (dec_buf d)[0 := b], dec_len := 1, dec_need := utf8_expected_len b\<rparr>)"
  by (simp add: dec_push_def)

lemma push_cont: "0 < dec_len d \<Longrightarrow> dec_len d < length (dec_buf d) \<Longrightarrow> dec_len d + 1 < dec_need d \<Longrightarrow> cont b \<Longrightarrow>
  dec_push b d = (Pending, d\<lparr>dec_buf := (dec_buf d)[dec_len d := b], dec_len := dec_len d + 1\<rparr>)"
  by (simp add: dec_push_def cont_mask Let_def)

lemma push_last: "0 < dec_len d \<Longrightarrow> dec_len d < length (dec_buf d) \<Longrightarrow> dec_len d + 1 = dec_need d \<Longrightarrow> cont b \<Longrightarrow>
  from_utf8 (take (dec_need d) ((dec_buf d)[dec_len d := b])) = Some [c] \<Longrightarrow>
  dec_push b d = (Completed c, dec_clear (d\<lparr>dec_buf := (dec_buf d)[dec_len d := b], dec_len := dec_len d + 1\<rparr>))"
  by (simp add: dec_push_def cont_mask Let_def)

text \<open>An encoded character that is no control character is echoed as it is, and leaves the decoder idle.\<close>

lemma echo_char:
  assumes s: "scalar c" and p: "0x20 \<le> c" "c \<noteq> 0x7f" and d: "idle (con_decoder con)"
  shows "\<exists>d'. idle d' \<and> echo_all echo_unicode (encode_utf8 c) con = (encode_utf8 c, push_width (char_display_width c) (con\<lparr>con_decoder := d'\<rparr>))"
proof -
  obtain q0 q1 q2 q3 where q: "dec_buf (con_decoder con) = [q0, q1, q2, q3]" using d unfolding idle_def by (auto simp: length_Suc_conv numeral_eq_Suc)
  have l: "dec_len (con_decoder con) = 0" using d by (simp add: idle_def)
  from s show ?thesis
  proof (cases rule: encode_shape)
    case 1
    then have "byte c \<noteq> 13" "byte c \<noteq> NEWLINE" "byte c \<noteq> 8" "byte c \<noteq> 0x7f" "byte c < 0x80" "unat (byte c) = c" using p by (auto simp: byte_cmp NEWLINE_def)
    then have "echo_unicode (byte c) con = (encode_utf8 c, push_width 1 con)" using l by (simp add: echo_unicode_def has_pending_def)
    then show ?thesis using 1 d by (intro exI [of _ "con_decoder con"]) (simp add: char_display_width_def)
  next
    case (2 x z)
    then show ?thesis using decode_2 [of x z]
      by (intro exI [of _ "(con_decoder con)\<lparr>dec_buf := [byte (0xC0 + x), byte (0x80 + z), q2, q3], dec_len := 0, dec_need := 0\<rparr>"]) (simp add: echo_high push_lead push_last expected_len l q idle_def dec_clear_def del: from_utf8.simps(2))
  next
    case (3 x y z)
    then show ?thesis using decode_3 [of x y z]
      by (intro exI [of _ "(con_decoder con)\<lparr>dec_buf := [byte (0xE0 + x), byte (0x80 + y), byte (0x80 + z), q3], dec_len := 0, dec_need := 0\<rparr>"]) (simp add: echo_high push_lead push_cont push_last expected_len l q idle_def dec_clear_def del: from_utf8.simps(2))
  next
    case (4 w x y z)
    then show ?thesis using decode_4 [of w x y z]
      by (intro exI [of _ "(con_decoder con)\<lparr>dec_buf := [byte (0xF0 + w), byte (0x80 + x), byte (0x80 + y), byte (0x80 + z)], dec_len := 0, dec_need := 0\<rparr>"]) (simp add: echo_high push_lead push_cont push_last expected_len l q idle_def dec_clear_def del: from_utf8.simps(2))
  qed
qed


section \<open>The widths as a bounded stack\<close>

definition con_line :: "ConsoleEcho \<Rightarrow> u8 list" where
  "con_line con = take (con_len con) (con_widths con)"

definition con_ok :: "ConsoleEcho \<Rightarrow> bool" where
  "con_ok con \<longleftrightarrow> con_len con \<le> LINEBUF_CAP \<and> length (con_widths con) = LINEBUF_CAP"

text \<open>At most the last 256 elements.\<close>

definition last_cap :: "'a list \<Rightarrow> 'a list" where
  "last_cap xs = drop (length xs - LINEBUF_CAP) xs"

lemma shift_widths_append: "shift_widths (is @ js) ws = shift_widths js (shift_widths is ws)"
  by (induction "is" arbitrary: ws) auto

lemma shift_widths_spec: "Suc n \<le> length ws \<Longrightarrow> shift_widths [1..<Suc n] ws = take n (tl ws) @ drop n ws"
proof (induction n)
  case (Suc n)
  have l: "length (take n (tl ws) @ drop n ws) = length ws" "length (take n (tl ws)) = n" using Suc.prems by auto
  have "shift_widths [1..<Suc (Suc n)] ws = (take n (tl ws) @ drop n ws)[n := (take n (tl ws) @ drop n ws) ! Suc n]"
    using Suc by (simp add: shift_widths_append)
  also have "\<dots> = take n (tl ws) @ ws ! Suc n # drop (Suc n) ws"
  proof -
    have "drop n ws = ws ! n # drop (Suc n) ws" using Suc.prems by (simp add: Cons_nth_drop_Suc)
    then show ?thesis using l(2) Suc.prems by (simp add: list_update_append nth_append)
  qed
  also have "\<dots> = take (Suc n) (tl ws) @ drop (Suc n) ws" using Suc.prems by (simp add: take_Suc_conv_app_nth nth_tl)
  finally show ?case .
qed simp

lemma push_width_line:
  assumes "con_ok con" and "w \<noteq> 0"
  shows "con_ok (push_width w con) \<and> con_line (push_width w con) = last_cap (con_line con @ [w]) \<and> con_decoder (push_width w con) = con_decoder con"
proof (cases "con_len con < LINEBUF_CAP")
  case True
  then show ?thesis using assms by (auto simp: con_ok_def con_line_def push_width_def last_cap_def take_Suc_conv_app_nth)
next
  case False
  then have n: "con_len con = LINEBUF_CAP" "length (con_widths con) = LINEBUF_CAP" using assms(1) by (auto simp: con_ok_def)
  have "shift_widths [1..<LINEBUF_CAP] (con_widths con) = take (LINEBUF_CAP - 1) (tl (con_widths con)) @ drop (LINEBUF_CAP - 1) (con_widths con)"
    using shift_widths_spec [of "LINEBUF_CAP - 1" "con_widths con"] n(2) by (simp add: LINEBUF_CAP_def)
  then have "(shift_widths [1..<LINEBUF_CAP] (con_widths con))[LINEBUF_CAP - 1 := w] = tl (con_widths con) @ [w]"
    using n(2) by (simp add: list_update_append LINEBUF_CAP_def drop_Suc)
      (auto simp: list_eq_iff_nth_eq nth_append nth_list_update)
  moreover have "Suc (LINEBUF_CAP - Suc 0) = LINEBUF_CAP" "LINEBUF_CAP - (LINEBUF_CAP - Suc 0) = 1" "Suc 0 - LINEBUF_CAP = 0" by (simp_all add: LINEBUF_CAP_def)
  ultimately show ?thesis using n assms(2) False by (simp add: con_ok_def con_line_def push_width_def last_cap_def drop_Suc)
qed

lemma pop_width_line:
  assumes "con_ok con"
  shows "pop_width con = (if con_line con = [] then (None, con) else (Some (last (con_line con)), con\<lparr>con_len := con_len con - 1\<rparr>))"
    and "con_line (snd (pop_width con)) = butlast (con_line con)" and "con_ok (snd (pop_width con))"
proof -
  have e: "con_line con = [] \<longleftrightarrow> con_len con = 0" using assms by (auto simp: con_line_def con_ok_def LINEBUF_CAP_def)
  then show p: "pop_width con = (if con_line con = [] then (None, con) else (Some (last (con_line con)), con\<lparr>con_len := con_len con - 1\<rparr>))"
    using assms by (auto simp: pop_width_def con_line_def con_ok_def last_conv_nth Let_def)
  show "con_line (snd (pop_width con)) = butlast (con_line con)" using assms by (auto simp: pop_width_def con_line_def con_ok_def butlast_take Let_def)
  show "con_ok (snd (pop_width con))" using assms by (auto simp: pop_width_def con_ok_def Let_def)
qed

lemma last_cap_append: "last_cap (last_cap xs @ [x]) = last_cap (xs @ [x])"
proof (cases "LINEBUF_CAP \<le> length xs")
  case True
  then have "Suc (length xs) - LINEBUF_CAP = Suc (length xs - LINEBUF_CAP)" by (rule Suc_diff_le)
  then show ?thesis using True by (simp add: last_cap_def)
qed (simp add: last_cap_def)

section \<open>Properties\<close>

lemma width_pos: "char_display_width c \<noteq> 0"
  by (simp add: char_display_width_def)

lemma echo_text:
  assumes "\<forall>c \<in> set cs. scalar c \<and> 0x20 \<le> c \<and> c \<noteq> 0x7f" and "idle (con_decoder con)" and "con_ok con" and "con_line con = last_cap ws"
  shows "\<exists>con'. echo_all echo_unicode (concat (map encode_utf8 cs)) con = (concat (map encode_utf8 cs), con') \<and>
    idle (con_decoder con') \<and> con_ok con' \<and> con_line con' = last_cap (ws @ map char_display_width cs)"
  using assms
proof (induction cs arbitrary: con ws)
  case (Cons c cs)
  obtain d' where d': "idle d'"
    "echo_all echo_unicode (encode_utf8 c) con = (encode_utf8 c, push_width (char_display_width c) (con\<lparr>con_decoder := d'\<rparr>))"
    using echo_char [of c con] Cons.prems by auto
  let ?con = "push_width (char_display_width c) (con\<lparr>con_decoder := d'\<rparr>)"
  have "con_ok (con\<lparr>con_decoder := d'\<rparr>)" "con_line (con\<lparr>con_decoder := d'\<rparr>) = last_cap ws" using Cons.prems(3,4) by (simp_all add: con_ok_def con_line_def)
  then have "con_ok ?con" "con_line ?con = last_cap (ws @ [char_display_width c])" "idle (con_decoder ?con)"
    using push_width_line [OF _ width_pos] d'(1) by (simp_all add: last_cap_append)
  then show ?case using Cons.IH [of ?con "ws @ [char_display_width c]"] Cons.prems(1) d'(2) by (auto simp: echo_all_append)
qed simp

text \<open>The readings of a line whose transmitter is always ready: one that reports a received byte, then one for each byte the echo puts out; the last one reports nothing.\<close>

fun prompt_lsr :: "(u8 \<Rightarrow> 'c \<Rightarrow> u8 list \<times> 'c) \<Rightarrow> u8 list \<Rightarrow> 'c \<Rightarrow> u8 list" where
  "prompt_lsr echo [] con = [0x60]"
| "prompt_lsr echo (b # bs) con = (let (out, con) = echo b con in 0x61 # replicate (length out) 0x60 @ prompt_lsr echo bs con)"

lemma puts_ready: "u_lsr u = replicate (length bs) 0x60 @ rs \<Longrightarrow> puts bs u = Some (u\<lparr>u_lsr := rs, u_tx := u_tx u @ bs\<rparr>)"
  by (induction bs arbitrary: u) (simp_all add: putb_def)

lemma handler_returns:
  assumes "u_lsr u = prompt_lsr echo (u_rx u) con"
  shows "\<exists>con' u'. uart_handler echo con u = Some (con', u') \<and> u_rx u' = []"
  using assms
proof (induction "u_rx u" arbitrary: u con)
  case Nil
  then show ?case by (subst uart_handler.simps) (simp add: Nil(1) [symmetric])
next
  case (Cons b bs)
  obtain out con1 where e: "echo b con = (out, con1)" by fastforce
  let ?u = "u\<lparr>u_rx := bs, u_lsr := prompt_lsr echo bs con1, u_tx := u_tx u @ out\<rparr>"
  have l: "u_lsr u = 0x61 # replicate (length out) 0x60 @ prompt_lsr echo bs con1" using Cons(2,3) e by (simp add: Cons(2) [symmetric])
  have "uart_handler echo con u = uart_handler echo con1 ?u"
    using puts_ready [of "u\<lparr>u_lsr := replicate (length out) 0x60 @ prompt_lsr echo bs con1, u_rx := bs\<rparr>" out] by (subst uart_handler.simps) (simp add: l e Cons(2) [symmetric])
  then show ?case using Cons(1) [of ?u con1] by simp
qed


text \<open>One letter, received while the transmitter is ready.\<close>

definition uart_example :: uart_dev where
  "uart_example = \<lparr>u_lsr = [0x61, 0x60, 0x60], u_rx = [0x41], u_tx = []\<rparr>"


section \<open>The address of the interrupt-enable register\<close>

text \<open>The stride that \<open>enable\<close> recovers from the configuration is the one the configuration was made with, so the write goes to register 1.\<close>

lemma ier_addr_from_fdt:
  assumes "Config_from_fdt True (Some base) stride = Some cfg" and "0 < stride"
  shows "ier_addr cfg = base + stride"
  using assms by (auto simp: Config_from_fdt_def ier_addr_def cmul_def Let_def split: if_splits)

end
