(* ===== verification/Vm.thy ===== *)
theory Vm
  imports Uvm
begin

unbundle bit_operations_syntax

text \<open>
  The kernel's address space (\<open>mem/vm.rs\<close>): mapping that panics when it fails, the kernel stacks of the processes
  in the 256 MiB below the top of the address space, and the mapping of the kernel image, the devices and the
  page pools. The addresses of the linker script, of the device tree and of the root table are parameters.
\<close>

definition KSTACK_REGION_SIZE :: usize where "KSTACK_REGION_SIZE = 0x10000000"
definition KSTACK_VA_BASE :: usize where "KSTACK_VA_BASE = VA_MAX - KSTACK_REGION_SIZE"
definition KSTACK_SIZE :: usize where "KSTACK_SIZE = PGSIZE * 4"

definition getpte :: "ram \<Rightarrow> usize \<Rightarrow> usize \<Rightarrow> usize option" where
  "getpte m table va = pt_lookup m table va"

definition mappages :: "usize \<Rightarrow> usize \<Rightarrow> usize \<Rightarrow> usize \<Rightarrow> nat \<Rightarrow> pmem \<Rightarrow> pmem option" where
  "mappages table va pa len perm s = do {
     (ok, s) \<leftarrow> pt_map table va pa len perm s;
     (if ok then Some s else None)
   }"

definition unmappages :: "usize \<Rightarrow> usize \<Rightarrow> usize \<Rightarrow> bool \<Rightarrow> pmem \<Rightarrow> pmem option" where
  "unmappages table va len free s = do {
     (ok, s) \<leftarrow> pt_unmap table va len free s;
     (if ok then Some s else None)
   }"

section \<open>Kernel stacks\<close>

definition kstack_base :: "usize \<Rightarrow> usize option" where
  "kstack_base procid = do { n \<leftarrow> umul procid KSTACK_SIZE; uadd KSTACK_VA_BASE n }"

definition kstack_top :: "usize \<Rightarrow> usize option" where
  "kstack_top procid = do { b \<leftarrow> kstack_base procid; uadd b KSTACK_SIZE }"

definition kernel_rw :: nat where
  "kernel_rw = PTE_R OR PTE_W OR PTE_A OR PTE_D"

fun kstack_map :: "usize \<Rightarrow> usize \<Rightarrow> nat list \<Rightarrow> pmem \<Rightarrow> pmem option" where
  "kstack_map kpt base [] s = Some s"
| "kstack_map kpt base (i # is) s = do {
     va \<leftarrow> uadd base (i * PGSIZE);
     (pa, s) \<leftarrow> pmem_alloc True s;
     s \<leftarrow> mappages kpt va pa PGSIZE kernel_rw s;
     kstack_map kpt base is s
   }"

definition alloc_kstack :: "usize \<Rightarrow> usize \<Rightarrow> pmem \<Rightarrow> (usize \<times> pmem) option" where
  "alloc_kstack kpt pid s = do {
     base \<leftarrow> kstack_base pid;
     s \<leftarrow> kstack_map kpt base [0..<KSTACK_SIZE div PGSIZE] s;
     top \<leftarrow> uadd base KSTACK_SIZE;
     Some (top, s)
   }"

fun kstack_unmap :: "usize \<Rightarrow> usize \<Rightarrow> nat list \<Rightarrow> pmem \<Rightarrow> pmem option" where
  "kstack_unmap kpt base [] s = Some s"
| "kstack_unmap kpt base (i # is) s = do {
     va \<leftarrow> uadd base (i * PGSIZE);
     s \<leftarrow> unmappages kpt va PGSIZE True s;
     kstack_unmap kpt base is s
   }"

definition free_kstack :: "usize \<Rightarrow> usize \<Rightarrow> pmem \<Rightarrow> pmem option" where
  "free_kstack kpt pid s = do {
     base \<leftarrow> kstack_base pid;
     kstack_unmap kpt base [0..<KSTACK_SIZE div PGSIZE] s
   }"

record kernel_stack =
  ks_pid :: usize
  ks_top :: usize

definition KernelStack_new :: "usize \<Rightarrow> usize \<Rightarrow> pmem \<Rightarrow> (kernel_stack \<times> pmem) option" where
  "KernelStack_new kpt pid s = do {
     (top, s) \<leftarrow> alloc_kstack kpt pid s;
     Some (\<lparr>ks_pid = pid, ks_top = top\<rparr>, s)
   }"

definition KernelStack_drop :: "usize \<Rightarrow> kernel_stack \<Rightarrow> pmem \<Rightarrow> pmem option" where
  "KernelStack_drop kpt k s = free_kstack kpt (ks_pid k) s"

definition map_kernel_pages :: "usize \<Rightarrow> usize \<Rightarrow> usize \<Rightarrow> usize \<Rightarrow> nat \<Rightarrow> pmem \<Rightarrow> pmem option" where
  "map_kernel_pages kpt va pa len perm s = mappages kpt va pa len perm s"

section \<open>The kernel's own mapping\<close>

text \<open>What the linker script and the device tree say.\<close>

record kernel_layout =
  text_start :: usize
  text_end :: usize
  rodata_start :: usize
  rodata_end :: usize
  data_start :: usize
  data_end :: usize
  bss_start :: usize
  bss_end :: usize
  trampoline :: usize
  uart_base :: "usize option"
  plic_base :: "usize option"
  hart_count :: nat

definition DEFAULT_UART_BASE :: usize where "DEFAULT_UART_BASE = 0x10000000"

definition map_section :: "usize \<Rightarrow> usize \<Rightarrow> usize \<Rightarrow> nat \<Rightarrow> pmem \<Rightarrow> pmem option" where
  "map_section kpt start_addr end_addr perm s = do {
     n \<leftarrow> csub end_addr start_addr;
     mappages kpt start_addr start_addr n perm s
   }"

definition map_image :: "usize \<Rightarrow> kernel_layout \<Rightarrow> pmem \<Rightarrow> pmem option" where
  "map_image kpt l s = do {
     s \<leftarrow> map_section kpt (text_start l) (text_end l) (PTE_R OR PTE_X OR PTE_A) s;
     s \<leftarrow> map_section kpt (rodata_start l) (rodata_end l) (PTE_R OR PTE_A) s;
     s \<leftarrow> map_section kpt (data_start l) (data_end l) kernel_rw s;
     map_section kpt (bss_start l) (bss_end l) kernel_rw s
   }"

definition map_devices :: "usize \<Rightarrow> kernel_layout \<Rightarrow> pmem \<Rightarrow> pmem option" where
  "map_devices kpt l s = do {
     s \<leftarrow> mappages kpt (VA_MAX - PGSIZE) (align_down (trampoline l)) PGSIZE (PTE_R OR PTE_X OR PTE_A) s;
     let uart = (case uart_base l of Some b \<Rightarrow> b | None \<Rightarrow> DEFAULT_UART_BASE);
     s \<leftarrow> mappages kpt uart uart PGSIZE kernel_rw s;
     mappages kpt 0x10001000 0x10001000 PGSIZE kernel_rw s
   }"

text \<open>A range rounded to whole pages, mapped onto itself.\<close>

definition map_pool :: "usize \<Rightarrow> usize \<Rightarrow> usize \<Rightarrow> pmem \<Rightarrow> pmem option" where
  "map_pool kpt a b s = do {
     e \<leftarrow> align_up b;
     n \<leftarrow> csub e (align_down a);
     mappages kpt (align_down a) (align_down a) n kernel_rw s
   }"

definition map_plic :: "usize \<Rightarrow> usize \<Rightarrow> nat \<Rightarrow> pmem \<Rightarrow> pmem option" where
  "map_plic kpt plic harts s = do {
     low_end \<leftarrow> uadd plic 0x3000;
     s \<leftarrow> map_pool kpt plic low_end s;
     ctx_start \<leftarrow> uadd plic 0x200000;
     let max_ctx_index = (if 0 < harts then (harts - 1) * 2 + 1 else 1);
     n \<leftarrow> umul (max_ctx_index + 1) 0x1000;
     ctx_end \<leftarrow> uadd ctx_start n;
     map_pool kpt ctx_start ctx_end s
   }"

definition map_pool_if :: "usize \<Rightarrow> region_info \<Rightarrow> pmem \<Rightarrow> pmem option" where
  "map_pool_if kpt info s = do {
     e \<leftarrow> align_up (ri_end info);
     (if align_down (ri_begin info) < e then map_pool kpt (ri_begin info) (ri_end info) s else Some s)
   }"

definition map_pools :: "usize \<Rightarrow> pmem \<Rightarrow> pmem option" where
  "map_pools kpt s = do {
     kinfo \<leftarrow> kernel_region_info s;
     s \<leftarrow> map_pool_if kpt kinfo s;
     uinfo \<leftarrow> user_region_info s;
     map_pool_if kpt uinfo s
   }"

text \<open>Without a PLIC in the device tree the construction ends before the page pools are mapped.\<close>

definition build_kernel_vm :: "usize \<Rightarrow> kernel_layout \<Rightarrow> pmem \<Rightarrow> pmem option" where
  "build_kernel_vm kpt l s = do {
     s \<leftarrow> map_image kpt l s;
     s \<leftarrow> map_devices kpt l s;
     (case plic_base l of
        None \<Rightarrow> Some s
      | Some plic \<Rightarrow> do {
          s \<leftarrow> map_plic kpt plic (hart_count l) s;
          map_pools kpt s
        })
   }"

text \<open>The table is built once; then the stack of process 0 is mapped.\<close>

definition map_kstack0 :: "usize \<Rightarrow> pmem \<Rightarrow> pmem option" where
  "map_kstack0 kpt s = do { (_, s) \<leftarrow> alloc_kstack kpt 0 s; Some s }"

definition init_kernel_vm :: "usize \<Rightarrow> kernel_layout \<Rightarrow> bool \<Rightarrow> pmem \<Rightarrow> pmem option" where
  "init_kernel_vm kpt l built s = do {
     s \<leftarrow> (if built then Some s else build_kernel_vm kpt l s);
     map_kstack0 kpt s
   }"

text \<open>The value written to \<open>satp\<close>: Sv39 mode, address space 0, the page number of the root table.\<close>

definition switch_to_kernel :: "usize \<Rightarrow> usize" where
  "switch_to_kernel kpt = push_bit 60 8 OR drop_bit 12 kpt"

end
