(* ===== verification/Lru.thy ===== *)
theory Lru
  imports Chain Memory
begin

text \<open>
  The LRU lists of the buffer cache (\<^verbatim>\<open>fs/buffer/lru.rs\<close>): 32 buffers, each in one of two doubly linked
  lists threaded through an array of nodes by index. A \<open>BufferId\<close> is the index; \<open>BufferId_new\<close> checks
  its bound. The loops that follow links are partial functions: \<open>None\<close> is a walk that never ends or a
  panic, \<open>Some None\<close> the \<open>None\<close> that Rust returns.

  The lemmas refine the pointer updates to operations on two lists of indices: \<open>lru_lists\<close> says which.
\<close>

section \<open>State\<close>

definition BLOCK_SIZE :: usize where "BLOCK_SIZE = 4096"
definition N_BUFFER :: usize where "N_BUFFER = 32"

text \<open>The content of a block by byte offset; only the offsets below \<open>BLOCK_SIZE\<close> count.\<close>

type_synonym block = "nat \<Rightarrow> u8"

record buffer =
  buf_data :: block
  buf_block_no :: u32
  buf_dev :: u32
  buf_refcnt :: u32
  buf_valid :: bool
  buf_dirty :: bool
  buf_locked :: bool

definition Buffer_new :: buffer where
  "Buffer_new = \<lparr>buf_data = (\<lambda>_. 0), buf_block_no = 0, buf_dev = 0, buf_refcnt = 0, buf_valid = False,
     buf_dirty = False, buf_locked = False\<rparr>"

definition BufferId_new :: "usize \<Rightarrow> nat option" where
  "BufferId_new idx = (if idx < N_BUFFER then Some idx else None)"

record list_node =
  ln_prev :: "nat option"
  ln_next :: "nat option"

definition ListNode_new :: list_node where
  "ListNode_new = \<lparr>ln_prev = None, ln_next = None\<rparr>"

record lru_cache =
  buffers :: "nat \<Rightarrow> buffer"
  nodes :: "nat \<Rightarrow> list_node"
  active_head :: "nat option"
  inactive_head :: "nat option"

definition LRUCache_new :: lru_cache where
  "LRUCache_new = \<lparr>buffers = (\<lambda>_. Buffer_new), nodes = (\<lambda>_. ListNode_new), active_head = None, inactive_head = None\<rparr>"

section \<open>Operations\<close>

text \<open>\<open>get_buffer\<close>, and a write through \<open>get_buffer_mut\<close>.\<close>

definition get_buffer :: "nat \<Rightarrow> lru_cache \<Rightarrow> buffer" where
  "get_buffer i c = buffers c i"

definition get_buffer_mut :: "nat \<Rightarrow> (buffer \<Rightarrow> buffer) \<Rightarrow> lru_cache \<Rightarrow> lru_cache" where
  "get_buffer_mut i f c = c\<lparr>buffers := (buffers c)(i := f (buffers c i))\<rparr>"

definition set_node_next :: "nat \<Rightarrow> nat option \<Rightarrow> lru_cache \<Rightarrow> lru_cache" where
  "set_node_next i n c = c\<lparr>nodes := (nodes c)(i := (nodes c i)\<lparr>ln_next := n\<rparr>)\<rparr>"

definition set_node_prev :: "nat \<Rightarrow> nat option \<Rightarrow> lru_cache \<Rightarrow> lru_cache" where
  "set_node_prev i p c = c\<lparr>nodes := (nodes c)(i := (nodes c i)\<lparr>ln_prev := p\<rparr>)\<rparr>"

definition remove_node :: "nat \<Rightarrow> lru_cache \<Rightarrow> lru_cache" where
  "remove_node i c0 = (
     let prev = ln_prev (nodes c0 i);
         nxt = ln_next (nodes c0 i);
         c1 = (case prev of
                 Some p \<Rightarrow> set_node_next p nxt c0
               | None \<Rightarrow>
                   if active_head c0 = Some i then c0\<lparr>active_head := nxt\<rparr>
                   else if inactive_head c0 = Some i then c0\<lparr>inactive_head := nxt\<rparr>
                   else c0);
         c2 = (case nxt of Some n \<Rightarrow> set_node_prev n prev c1 | None \<Rightarrow> c1)
     in set_node_next i None (set_node_prev i None c2))"

definition insert_active_head :: "nat \<Rightarrow> lru_cache \<Rightarrow> lru_cache" where
  "insert_active_head i c0 = (
     let c = remove_node i c0;
         old_head = active_head c;
         c = set_node_next i old_head (set_node_prev i None c);
         c = (case old_head of Some h \<Rightarrow> set_node_prev h (Some i) c | None \<Rightarrow> c)
     in c\<lparr>active_head := Some i\<rparr>)"

definition insert_inactive_head :: "nat \<Rightarrow> lru_cache \<Rightarrow> lru_cache" where
  "insert_inactive_head i c0 = (
     let c = remove_node i c0;
         old_head = inactive_head c;
         c = set_node_next i old_head (set_node_prev i None c);
         c = (case old_head of Some h \<Rightarrow> set_node_prev h (Some i) c | None \<Rightarrow> c)
     in c\<lparr>inactive_head := Some i\<rparr>)"

partial_function (option) lru_walk :: "(nat \<Rightarrow> list_node) \<Rightarrow> nat \<Rightarrow> nat option" where
  "lru_walk nd current =
     (case ln_next (nd current) of None \<Rightarrow> Some current | Some n \<Rightarrow> lru_walk nd n)"

definition get_lru :: "lru_cache \<Rightarrow> nat option option" where
  "get_lru c = (case inactive_head c of None \<Rightarrow> Some None | Some h \<Rightarrow> map_option Some (lru_walk (nodes c) h))"

text \<open>The loop that \<open>find_active\<close> and \<open>find_inactive\<close> run from their heads.\<close>

partial_function (option) find_walk :: "lru_cache \<Rightarrow> u32 \<Rightarrow> u32 \<Rightarrow> nat \<Rightarrow> nat option option" where
  "find_walk c dev blockno current =
     (if buf_dev (buffers c current) = dev \<and> buf_block_no (buffers c current) = blockno then Some (Some current)
      else case ln_next (nodes c current) of None \<Rightarrow> Some None | Some n \<Rightarrow> find_walk c dev blockno n)"

definition find_active :: "u32 \<Rightarrow> u32 \<Rightarrow> lru_cache \<Rightarrow> nat option option" where
  "find_active dev blockno c = (case active_head c of None \<Rightarrow> Some None | Some h \<Rightarrow> find_walk c dev blockno h)"

definition find_inactive :: "u32 \<Rightarrow> u32 \<Rightarrow> lru_cache \<Rightarrow> nat option option" where
  "find_inactive dev blockno c = (case inactive_head c of None \<Rightarrow> Some None | Some h \<Rightarrow> find_walk c dev blockno h)"

definition promote_to_active :: "nat \<Rightarrow> lru_cache \<Rightarrow> lru_cache option" where
  "promote_to_active i c = do {
     r \<leftarrow> add32 (buf_refcnt (buffers c i)) 1;
     Some (insert_active_head i (get_buffer_mut i (\<lambda>b. b\<lparr>buf_refcnt := r\<rparr>) c))
   }"

definition demote_to_inactive :: "nat \<Rightarrow> lru_cache \<Rightarrow> lru_cache" where
  "demote_to_inactive i c = insert_inactive_head i c"

definition recycle_lru :: "u32 \<Rightarrow> u32 \<Rightarrow> lru_cache \<Rightarrow> (nat \<times> lru_cache) option" where
  "recycle_lru dev blockno c = do {
     r \<leftarrow> get_lru c;
     lru \<leftarrow> r;
     (if buf_refcnt (buffers c lru) \<noteq> 0 then None
      else Some (lru, insert_active_head lru (get_buffer_mut lru (\<lambda>b. b\<lparr>buf_dev := dev, buf_block_no := blockno,
        buf_valid := False, buf_refcnt := 1, buf_locked := True\<rparr>) c)))
   }"

definition LRUCache_init :: "lru_cache \<Rightarrow> lru_cache" where
  "LRUCache_init c = c\<lparr>
     nodes := (\<lambda>i. if i < N_BUFFER
                   then \<lparr>ln_prev = (if 0 < i then BufferId_new (i - 1) else None),
                         ln_next = (if i < N_BUFFER - 1 then BufferId_new (i + 1) else None)\<rparr>
                   else nodes c i),
     inactive_head := BufferId_new 0, active_head := None\<rparr>"

text \<open>The iterators over the two lists.\<close>

definition iter_next :: "lru_cache \<Rightarrow> nat option \<Rightarrow> (nat \<times> nat option) option" where
  "iter_next c current = (case current of None \<Rightarrow> None | Some i \<Rightarrow> Some (i, ln_next (nodes c i)))"

section \<open>Doubly linked lists\<close>

primrec dlist :: "(nat \<Rightarrow> list_node) \<Rightarrow> nat option \<Rightarrow> nat option \<Rightarrow> nat list \<Rightarrow> bool" where
  "dlist nd p h [] \<longleftrightarrow> h = None"
| "dlist nd p h (x # xs) \<longleftrightarrow> h = Some x \<and> ln_prev (nd x) = p \<and> dlist nd (Some x) (ln_next (nd x)) xs"

lemma dlist_cong: "(\<And>x. x \<in> set xs \<Longrightarrow> nd x = nd' x) \<Longrightarrow> dlist nd p h xs = dlist nd' p h xs"
  by (induction xs arbitrary: p h) auto

lemma dlist_upd [simp]: "x \<notin> set xs \<Longrightarrow> dlist (nd(x := v)) p h xs = dlist nd p h xs"
  by (rule dlist_cong) auto

lemma dlist_chain: "dlist nd p h xs \<Longrightarrow> chain (\<lambda>i. ln_next (nd i)) h xs"
  by (induction xs arbitrary: p h) auto

lemma dlist_distinct: "dlist nd p h xs \<Longrightarrow> distinct xs"
  using dlist_chain chain_distinct by blast

lemma dlist_hd: "dlist nd p h xs \<Longrightarrow> h = hd_opt xs"
  by (cases xs) auto

definition last_opt :: "nat option \<Rightarrow> nat list \<Rightarrow> nat option" where
  "last_opt p us = (if us = [] then p else Some (last us))"

lemma last_opt_Cons: "last_opt p (u # us) = last_opt (Some u) us"
  by (simp add: last_opt_def)

lemma dlist_links: "dlist nd p h (us @ x # vs) \<Longrightarrow> ln_prev (nd x) = last_opt p us \<and> ln_next (nd x) = hd_opt vs"
  by (induction us arbitrary: p h) (auto simp: last_opt_def dest: dlist_hd)

text \<open>The effect of \<open>remove_node\<close> on the array of nodes.\<close>

definition unlink :: "nat \<Rightarrow> (nat \<Rightarrow> list_node) \<Rightarrow> nat \<Rightarrow> list_node" where
  "unlink x nd = (
     let nd1 = (case ln_prev (nd x) of Some p \<Rightarrow> nd(p := (nd p)\<lparr>ln_next := ln_next (nd x)\<rparr>) | None \<Rightarrow> nd);
         nd2 = (case ln_next (nd x) of Some n \<Rightarrow> nd1(n := (nd1 n)\<lparr>ln_prev := ln_prev (nd x)\<rparr>) | None \<Rightarrow> nd1)
     in nd2(x := ListNode_new))"

lemma unlink_prev: "y \<noteq> x \<Longrightarrow> ln_next (nd x) \<noteq> Some y \<Longrightarrow> ln_prev (unlink x nd y) = ln_prev (nd y)"
  by (auto simp: unlink_def Let_def split: option.splits)

lemma unlink_next: "y \<noteq> x \<Longrightarrow> ln_next (unlink x nd y) = (if ln_prev (nd x) = Some y then ln_next (nd x) else ln_next (nd y))"
  by (auto simp: unlink_def Let_def split: option.splits)

lemma unlink_other: "y \<noteq> x \<Longrightarrow> ln_prev (nd x) \<noteq> Some y \<Longrightarrow> ln_next (nd x) \<noteq> Some y \<Longrightarrow> unlink x nd y = nd y"
  by (auto simp: unlink_def Let_def split: option.splits)

lemma unlink_dlist:
  assumes "dlist nd p h (us @ x # vs)" and "\<forall>q. p = Some q \<longrightarrow> q \<notin> set (us @ x # vs)"
  shows "dlist (unlink x nd) p (if us = [] then ln_next (nd x) else h) (us @ vs)"
  using assms
proof (induction us arbitrary: p h)
  case Nil
  then have x: "ln_prev (nd x) = p" "dlist nd (Some x) (ln_next (nd x)) vs" and d: "distinct (x # vs)" using dlist_distinct [OF Nil.prems(1)] by auto
  show ?case
  proof (cases vs)
    case (Cons v vs')
    then have v: "ln_next (nd x) = Some v" "dlist nd (Some v) (ln_next (nd v)) vs'" using x(2) by auto
    have pv: "p \<noteq> Some v" "v \<noteq> x" using Nil.prems(2) Cons d by auto
    have "ln_prev (unlink x nd v) = p" "ln_next (unlink x nd v) = ln_next (nd v)"
      using v(1) x(1) pv by (auto simp: unlink_def Let_def split: option.splits)
    moreover have "dlist (unlink x nd) (Some v) (ln_next (nd v)) vs'"
      using v d Cons Nil.prems(2) x(1) by (subst dlist_cong [of vs' _ nd]) (auto intro!: unlink_other)
    ultimately show ?thesis using Cons v(1) by simp
  qed (use x in simp)
next
  case (Cons u us)
  then have u: "h = Some u" "ln_prev (nd u) = p" "dlist nd (Some u) (ln_next (nd u)) (us @ x # vs)" by auto
  have d: "distinct (u # us @ x # vs)" using dlist_distinct [OF Cons.prems(1)] by simp
  have l: "ln_prev (nd x) = last_opt (Some u) us" "ln_next (nd x) = hd_opt vs" using dlist_links [OF u(3)] by auto
  have nv: "ln_next (nd x) \<noteq> Some u" "u \<noteq> x" using d l(2) by (cases vs; auto)+
  have IH: "dlist (unlink x nd) (Some u) (if us = [] then ln_next (nd x) else ln_next (nd u)) (us @ vs)"
    using d by (intro Cons.IH [OF u(3)]) auto
  have "ln_next (unlink x nd u) = (if us = [] then ln_next (nd x) else ln_next (nd u))"
    using unlink_next [of u x nd] nv(2) l(1) d last_in_set [of us] by (auto simp: last_opt_def)
  then show ?case using IH u(1,2) unlink_prev [of u x nd] nv by simp
qed

section \<open>The two lists of the cache\<close>

definition lru_lists :: "lru_cache \<Rightarrow> nat list \<Rightarrow> nat list \<Rightarrow> bool" where
  "lru_lists c as bs \<longleftrightarrow> dlist (nodes c) None (active_head c) as \<and> dlist (nodes c) None (inactive_head c) bs \<and>
     distinct (as @ bs) \<and> set (as @ bs) = {..<N_BUFFER}"

lemma nodes_remove_node: "nodes (remove_node i c) = unlink i (nodes c)"
  by (auto simp: remove_node_def unlink_def set_node_next_def set_node_prev_def ListNode_new_def Let_def fun_eq_iff split: option.splits)

lemma remove_node_heads:
  "active_head (remove_node i c) = (if ln_prev (nodes c i) = None \<and> active_head c = Some i then ln_next (nodes c i) else active_head c)"
  "inactive_head (remove_node i c) = (if ln_prev (nodes c i) = None \<and> active_head c \<noteq> Some i \<and> inactive_head c = Some i
     then ln_next (nodes c i) else inactive_head c)"
  "buffers (remove_node i c) = buffers c"
  by (auto simp: remove_node_def set_node_next_def set_node_prev_def Let_def split: option.splits)

lemma remove1_split: "x \<notin> set us \<Longrightarrow> remove1 x (us @ x # vs) = us @ vs"
  by (simp add: remove1_append)

lemma unlink_foreign:
  assumes "dlist nd None h (us @ x # vs)" and "dlist nd q g ys" and "set ys \<inter> set (us @ x # vs) = {}"
  shows "dlist (unlink x nd) q g ys"
proof -
  have "ln_prev (nd x) = last_opt None us" "ln_next (nd x) = hd_opt vs" using dlist_links [OF assms(1)] by auto
  then have "unlink x nd y = nd y" if "y \<in> set ys" for y
    using that assms(3) by (intro unlink_other) (auto simp: last_opt_def hd_opt_alt split: if_splits list.splits)
  then show ?thesis using assms(2) dlist_cong by metis
qed

lemma head_is_first: "dlist nd None h (us @ x # vs) \<Longrightarrow> ln_prev (nd x) = None \<longleftrightarrow> us = []"
  using dlist_links by (auto simp: last_opt_def)

text \<open>\<open>remove_node\<close> takes a buffer out of the list it is in.\<close>

lemma remove_node_lists:
  assumes l: "lru_lists c as bs" and i: "i < N_BUFFER"
  shows "dlist (nodes (remove_node i c)) None (active_head (remove_node i c)) (remove1 i as)"
    "dlist (nodes (remove_node i c)) None (inactive_head (remove_node i c)) (remove1 i bs)"
proof -
  have d: "dlist (nodes c) None (active_head c) as" "dlist (nodes c) None (inactive_head c) bs" "distinct (as @ bs)"
    using l by (auto simp: lru_lists_def)
  have "i \<in> set as \<or> i \<in> set bs" using l i by (auto simp: lru_lists_def)
  then have "dlist (nodes (remove_node i c)) None (active_head (remove_node i c)) (remove1 i as) \<and>
    dlist (nodes (remove_node i c)) None (inactive_head (remove_node i c)) (remove1 i bs)"
  proof
    assume "i \<in> set as"
    then obtain us vs where as: "as = us @ i # vs" by (meson split_list)
    have n: "i \<notin> set us" "i \<notin> set bs" "set bs \<inter> set (us @ i # vs) = {}" using d(3) as by auto
    note da = d(1) [unfolded as]
    have "active_head c = Some i \<longleftrightarrow> us = []" using dlist_hd [OF da] n(1) by (cases us) auto
    then show ?thesis
      using unlink_dlist [OF da] unlink_foreign [OF da d(2) n(3)] head_is_first [OF da] n as
      by (auto simp: nodes_remove_node remove_node_heads remove1_split remove1_idem)
  next
    assume "i \<in> set bs"
    then obtain us vs where bs: "bs = us @ i # vs" by (meson split_list)
    have n: "i \<notin> set us" "i \<notin> set as" "set as \<inter> set (us @ i # vs) = {}" using d(3) bs by auto
    note db = d(2) [unfolded bs]
    have "inactive_head c = Some i \<longleftrightarrow> us = []" "active_head c \<noteq> Some i"
      using dlist_hd [OF db] dlist_hd [OF d(1)] n(1,2) by (cases us; cases as; auto)+
    then show ?thesis
      using unlink_dlist [OF db] unlink_foreign [OF db d(1) n(3)] head_is_first [OF db] n bs
      by (auto simp: nodes_remove_node remove_node_heads remove1_split remove1_idem)
  qed
  then show "dlist (nodes (remove_node i c)) None (active_head (remove_node i c)) (remove1 i as)"
    "dlist (nodes (remove_node i c)) None (inactive_head (remove_node i c)) (remove1 i bs)" by auto
qed

text \<open>Linking a detached node in front of a list.\<close>

lemma dlist_push:
  assumes l: "dlist nd None h xs" and x: "x \<notin> set xs"
    and nd': "nd' = (let nd1 = nd(x := \<lparr>ln_prev = None, ln_next = h\<rparr>) in
      case h of Some y \<Rightarrow> nd1(y := (nd1 y)\<lparr>ln_prev := Some x\<rparr>) | None \<Rightarrow> nd1)"
  shows "dlist nd' None (Some x) (x # xs)" "z \<noteq> x \<Longrightarrow> z \<notin> set xs \<Longrightarrow> nd' z = nd z"
proof -
  have d: "distinct xs" by (rule dlist_distinct [OF l])
  show "dlist nd' None (Some x) (x # xs)"
  proof (cases xs)
    case (Cons y ys)
    then have y: "h = Some y" "dlist nd (Some y) (ln_next (nd y)) ys" "y \<noteq> x" "x \<notin> set ys" "y \<notin> set ys" using l x d by auto
    then show ?thesis using Cons nd' by (simp add: Let_def)
  qed (use l nd' in \<open>simp add: Let_def\<close>)
  show "z \<noteq> x \<Longrightarrow> z \<notin> set xs \<Longrightarrow> nd' z = nd z"
    using dlist_hd [OF l] nd' by (cases xs) (auto simp: Let_def)
qed

lemma insert_active_head_eqs:
  "nodes (insert_active_head i c) = (let nd1 = (nodes (remove_node i c))(i := \<lparr>ln_prev = None, ln_next = active_head (remove_node i c)\<rparr>) in
      case active_head (remove_node i c) of Some y \<Rightarrow> nd1(y := (nd1 y)\<lparr>ln_prev := Some i\<rparr>) | None \<Rightarrow> nd1)"
  "active_head (insert_active_head i c) = Some i" "inactive_head (insert_active_head i c) = inactive_head (remove_node i c)"
  "buffers (insert_active_head i c) = buffers c"
  by (auto simp: insert_active_head_def set_node_next_def set_node_prev_def remove_node_heads Let_def fun_eq_iff split: option.splits)

lemma insert_inactive_head_eqs:
  "nodes (insert_inactive_head i c) = (let nd1 = (nodes (remove_node i c))(i := \<lparr>ln_prev = None, ln_next = inactive_head (remove_node i c)\<rparr>) in
      case inactive_head (remove_node i c) of Some y \<Rightarrow> nd1(y := (nd1 y)\<lparr>ln_prev := Some i\<rparr>) | None \<Rightarrow> nd1)"
  "inactive_head (insert_inactive_head i c) = Some i" "active_head (insert_inactive_head i c) = active_head (remove_node i c)"
  "buffers (insert_inactive_head i c) = buffers c"
  by (auto simp: insert_inactive_head_def set_node_next_def set_node_prev_def remove_node_heads Let_def fun_eq_iff split: option.splits)

lemma remove1_partition:
  assumes "lru_lists c as bs" and "i < N_BUFFER"
  shows "distinct (i # remove1 i as @ remove1 i bs)" "set (i # remove1 i as @ remove1 i bs) = {..<N_BUFFER}"
  using assms by (auto simp: lru_lists_def)

lemma insert_active_head_lists:
  assumes l: "lru_lists c as bs" and i: "i < N_BUFFER"
  shows "lru_lists (insert_active_head i c) (i # remove1 i as) (remove1 i bs)"
proof -
  note r = remove_node_lists [OF l i] and p = remove1_partition [OF l i]
  have n: "i \<notin> set (remove1 i as)" using p(1) by simp
  note push = dlist_push [OF r(1) n insert_active_head_eqs(1) [of i c]]
  have "dlist (nodes (insert_active_head i c)) None (active_head (insert_active_head i c)) (i # remove1 i as)"
    using push(1) by (simp add: insert_active_head_eqs(2))
  moreover have "dlist (nodes (insert_active_head i c)) None (inactive_head (insert_active_head i c)) (remove1 i bs)"
  proof -
    have "nodes (insert_active_head i c) z = nodes (remove_node i c) z" if "z \<in> set (remove1 i bs)" for z
      by (rule push(2)) (use p(1) that in \<open>unfold distinct.simps distinct_append set_append, blast+\<close>)
    from dlist_cong [of "remove1 i bs", OF this] show ?thesis unfolding insert_active_head_eqs(3) using r(2) by simp
  qed
  ultimately show ?thesis using p by (auto simp: lru_lists_def)
qed

lemma insert_inactive_head_lists:
  assumes l: "lru_lists c as bs" and i: "i < N_BUFFER"
  shows "lru_lists (insert_inactive_head i c) (remove1 i as) (i # remove1 i bs)"
proof -
  note r = remove_node_lists [OF l i] and p = remove1_partition [OF l i]
  have n: "i \<notin> set (remove1 i bs)" using p(1) by simp
  note push = dlist_push [OF r(2) n insert_inactive_head_eqs(1) [of i c]]
  have "dlist (nodes (insert_inactive_head i c)) None (inactive_head (insert_inactive_head i c)) (i # remove1 i bs)"
    using push(1) by (simp add: insert_inactive_head_eqs(2))
  moreover have "dlist (nodes (insert_inactive_head i c)) None (active_head (insert_inactive_head i c)) (remove1 i as)"
  proof -
    have "nodes (insert_inactive_head i c) z = nodes (remove_node i c) z" if "z \<in> set (remove1 i as)" for z
      by (rule push(2)) (use p(1) that in \<open>unfold distinct.simps distinct_append set_append, blast+\<close>)
    from dlist_cong [of "remove1 i as", OF this] show ?thesis unfolding insert_inactive_head_eqs(3) using r(1) by simp
  qed
  ultimately show ?thesis using p by (auto simp: lru_lists_def)
qed

section \<open>Searching\<close>

lemma lru_walk_last: "dlist nd p (Some x) (x # xs) \<Longrightarrow> lru_walk nd x = Some (last (x # xs))"
proof (induction xs arbitrary: p x)
  case Nil
  then show ?case by (subst lru_walk.simps) simp
next
  case (Cons y ys)
  then show ?case by (subst lru_walk.simps) simp
qed

lemma find_walk_first:
  "dlist (nodes c) p (Some x) (x # xs) \<Longrightarrow>
    find_walk c dev blk x = Some (List.find (\<lambda>i. buf_dev (buffers c i) = dev \<and> buf_block_no (buffers c i) = blk) (x # xs))"
proof (induction xs arbitrary: p x)
  case Nil
  then show ?case by (subst find_walk.simps) simp
next
  case (Cons y ys)
  then show ?case by (subst find_walk.simps) auto
qed

lemma get_lru_last: "lru_lists c as bs \<Longrightarrow> get_lru c = Some (if bs = [] then None else Some (last bs))"
  using lru_walk_last by (cases bs) (auto simp: lru_lists_def get_lru_def)

lemma find_lists:
  assumes "lru_lists c as bs"
  shows "find_active dev blk c = Some (List.find (\<lambda>i. buf_dev (buffers c i) = dev \<and> buf_block_no (buffers c i) = blk) as)"
    "find_inactive dev blk c = Some (List.find (\<lambda>i. buf_dev (buffers c i) = dev \<and> buf_block_no (buffers c i) = blk) bs)"
  using assms find_walk_first [of c None] by (cases as; cases bs; auto simp: lru_lists_def find_active_def find_inactive_def)+

lemma get_buffer_mut_lists [simp]: "lru_lists (get_buffer_mut i f c) as bs = lru_lists c as bs"
  by (simp add: lru_lists_def get_buffer_mut_def)

text \<open>The initial list holds all buffers in order, none active.\<close>

lemma init_dlist:
  assumes nd: "\<And>i. i < N_BUFFER \<Longrightarrow> nd i = \<lparr>ln_prev = (if 0 < i then Some (i - 1) else None), ln_next = (if i < N_BUFFER - 1 then Some (i + 1) else None)\<rparr>"
    and k: "k < N_BUFFER"
  shows "dlist nd (if 0 < k then Some (k - 1) else None) (Some k) [k..<N_BUFFER]"
  using k
proof (induction "N_BUFFER - k" arbitrary: k)
  case (Suc n)
  have e: "[k..<N_BUFFER] = k # [Suc k..<N_BUFFER]" using Suc.prems by (rule upt_conv_Cons)
  show ?case
  proof (cases "Suc k < N_BUFFER")
    case True
    then have "dlist nd (Some k) (Some (Suc k)) [Suc k..<N_BUFFER]" using Suc(1) [of "Suc k"] Suc(2) by simp
    then show ?thesis using e nd [OF Suc.prems] True by simp
  next
    case False
    then have "[Suc k..<N_BUFFER] = []" "\<not> k < N_BUFFER - 1" by auto
    then show ?thesis using e nd [OF Suc.prems] by simp
  qed
qed simp

lemma LRUCache_init_lists: "lru_lists (LRUCache_init c) [] [0..<N_BUFFER]"
proof -
  have "dlist (nodes (LRUCache_init c)) (if 0 < (0::nat) then Some (0 - 1) else None) (Some 0) [0..<N_BUFFER]"
    by (rule init_dlist) (auto simp: LRUCache_init_def BufferId_new_def N_BUFFER_def)
  then show ?thesis by (auto simp: lru_lists_def LRUCache_init_def BufferId_new_def N_BUFFER_def)
qed

section \<open>Properties\<close>

text \<open>C22. Moving a buffer. Whatever list it is in, \<open>insert_active_head\<close> and \<open>insert_inactive_head\<close> take a buffer out of
  it and put it in front of the active or the inactive list, keep the order of all others, and keep both
  lists doubly linked and a partition of the 32 buffers; no buffer is changed.\<close>

theorem lru_move_correct:
  assumes "lru_lists c as bs" and "i < N_BUFFER"
  shows "lru_lists (insert_active_head i c) (i # remove1 i as) (remove1 i bs) \<and>
    lru_lists (insert_inactive_head i c) (remove1 i as) (i # remove1 i bs) \<and>
    buffers (insert_active_head i c) = buffers c \<and> buffers (insert_inactive_head i c) = buffers c"
  using insert_active_head_lists [OF assms] insert_inactive_head_lists [OF assms]
  by (simp add: insert_active_head_eqs insert_inactive_head_eqs)

theorem lru_move_correct_witness:
  "lru_lists (insert_active_head 5 (LRUCache_init LRUCache_new)) [5] (remove1 5 [0..<N_BUFFER])"
  using lru_move_correct [OF LRUCache_init_lists [of LRUCache_new], of 5] by (simp add: N_BUFFER_def)

text \<open>The searches return: \<open>get_lru\<close> the last inactive buffer, \<open>find_active\<close> and \<open>find_inactive\<close> the
  first buffer of their list with the device and block asked for; they never loop forever.\<close>

theorem lru_search_correct:
  assumes "lru_lists c as bs"
  shows "get_lru c = Some (if bs = [] then None else Some (last bs)) \<and>
    find_active dev blk c = Some (List.find (\<lambda>i. buf_dev (buffers c i) = dev \<and> buf_block_no (buffers c i) = blk) as) \<and>
    find_inactive dev blk c = Some (List.find (\<lambda>i. buf_dev (buffers c i) = dev \<and> buf_block_no (buffers c i) = blk) bs)"
  using get_lru_last [OF assms] find_lists [OF assms] by simp

theorem lru_search_correct_witness: "get_lru (LRUCache_init LRUCache_new) = Some (Some 31)"
proof -
  have "get_lru (LRUCache_init LRUCache_new) = Some (if [0..<N_BUFFER] = [] then None else Some (last [0..<N_BUFFER]))"
    using lru_search_correct [OF LRUCache_init_lists [of LRUCache_new], of 0 0] by (rule conjunct1)
  moreover have "last [0..<N_BUFFER] = 31" "[0..<N_BUFFER] \<noteq> []" by (simp_all add: N_BUFFER_def)
  ultimately show ?thesis by (simp only: if_False)
qed

end
