(* ===== verification/Buffer.thy ===== *)
theory Buffer
  imports Lru
begin

text \<open>
  The buffer cache (\<^verbatim>\<open>fs/buffer/mod.rs\<close>) over the block device. The device holds a block per number;
  \<open>disk_rw\<close> is the effect of the virtio driver's \<open>rw\<close> on it, a transfer of one block, which \<open>Virtio\<close>
  justifies from the queues of the driver. Code that works on a cached block through the pointer of
  \<open>get_data_ptr\<close> reads it with \<open>get_data\<close> and writes it with \<open>put_data\<close>.

  What clients rely on is the interface \<open>block_cache\<close>: a view of the blocks in which a held block is
  what its buffer holds and any other is what the device holds, and how each operation changes it.
\<close>

section \<open>Operations\<close>

record bstate =
  bs_cache :: lru_cache
  bs_disk :: "u32 \<Rightarrow> block"

definition disk_rw :: "nat \<Rightarrow> u32 \<Rightarrow> bool \<Rightarrow> bstate \<Rightarrow> bstate" where
  "disk_rw i blockno write s =
     (if write then s\<lparr>bs_disk := (bs_disk s)(blockno := buf_data (buffers (bs_cache s) i))\<rparr>
      else s\<lparr>bs_cache := get_buffer_mut i (\<lambda>b. b\<lparr>buf_data := bs_disk s blockno\<rparr>) (bs_cache s)\<rparr>)"

definition buffer_init :: "bstate \<Rightarrow> bstate" where
  "buffer_init s = s\<lparr>bs_cache := LRUCache_init (bs_cache s)\<rparr>"

definition buffer_get :: "u32 \<Rightarrow> u32 \<Rightarrow> bstate \<Rightarrow> (nat \<times> bstate) option" where
  "buffer_get dev blockno s = do {
     let c = bs_cache s;
     r \<leftarrow> find_active dev blockno c;
     (case r of
        Some i \<Rightarrow> Some (i, s\<lparr>bs_cache := get_buffer_mut i (\<lambda>b. b\<lparr>buf_locked := True\<rparr>) c\<rparr>)
      | None \<Rightarrow> do {
          r \<leftarrow> find_inactive dev blockno c;
          (case r of
             Some i \<Rightarrow> do {
               c \<leftarrow> promote_to_active i c;
               Some (i, s\<lparr>bs_cache := get_buffer_mut i (\<lambda>b. b\<lparr>buf_locked := True\<rparr>) c\<rparr>)
             }
           | None \<Rightarrow> do {
               (i, c) \<leftarrow> recycle_lru dev blockno c;
               Some (i, s\<lparr>bs_cache := c\<rparr>)
             })
        })
   }"

definition buffer_read :: "u32 \<Rightarrow> u32 \<Rightarrow> bstate \<Rightarrow> (nat \<times> bstate) option" where
  "buffer_read dev blockno s = do {
     (i, s) \<leftarrow> buffer_get dev blockno s;
     (if buf_valid (get_buffer i (bs_cache s)) then Some (i, s)
      else let s = disk_rw i blockno False s in
           Some (i, s\<lparr>bs_cache := get_buffer_mut i (\<lambda>b. b\<lparr>buf_valid := True\<rparr>) (bs_cache s)\<rparr>))
   }"

definition buffer_write :: "nat \<Rightarrow> bstate \<Rightarrow> bstate option" where
  "buffer_write idx s = do {
     i \<leftarrow> BufferId_new idx;
     let s = disk_rw i (buf_block_no (get_buffer i (bs_cache s))) True s;
     Some (s\<lparr>bs_cache := get_buffer_mut i (\<lambda>b. b\<lparr>buf_dirty := False\<rparr>) (bs_cache s)\<rparr>)
   }"

definition buffer_release :: "nat \<Rightarrow> bstate \<Rightarrow> bstate option" where
  "buffer_release idx s = do {
     i \<leftarrow> BufferId_new idx;
     let c = bs_cache s;
     r \<leftarrow> csub (buf_refcnt (buffers c i)) 1;
     let c = get_buffer_mut i (\<lambda>b. b\<lparr>buf_refcnt := r, buf_locked := False\<rparr>) c;
     Some (s\<lparr>bs_cache := (if r = 0 then demote_to_inactive i c else c)\<rparr>)
   }"

definition get_data :: "nat \<Rightarrow> bstate \<Rightarrow> block option" where
  "get_data idx s = do {
     i \<leftarrow> BufferId_new idx;
     Some (buf_data (get_buffer i (bs_cache s)))
   }"

definition put_data :: "nat \<Rightarrow> block \<Rightarrow> bstate \<Rightarrow> bstate option" where
  "put_data idx d s = do {
     i \<leftarrow> BufferId_new idx;
     Some (s\<lparr>bs_cache := get_buffer_mut i (\<lambda>b. b\<lparr>buf_data := d\<rparr>) (bs_cache s)\<rparr>)
   }"

section \<open>Invariant and view\<close>

text \<open>
  Between the calls of the file system: the active buffers have one reference each and are valid; the
  inactive ones have none, the valid ones in front; no two valid buffers hold the same block; a valid
  inactive buffer is what the device holds.
\<close>

definition buf_lists :: "bstate \<Rightarrow> nat list \<Rightarrow> nat list \<Rightarrow> nat list \<Rightarrow> bool" where
  "buf_lists s as vs us \<longleftrightarrow> (let B = buffers (bs_cache s) in
     lru_lists (bs_cache s) as (vs @ us) \<and> distinct (map (\<lambda>i. buf_block_no (B i)) (as @ vs)) \<and>
     (\<forall>i \<in> set as. buf_refcnt (B i) = 1 \<and> buf_valid (B i)) \<and>
     (\<forall>i \<in> set vs. buf_refcnt (B i) = 0 \<and> buf_valid (B i) \<and> buf_data (B i) = bs_disk s (buf_block_no (B i))) \<and>
     (\<forall>i \<in> set us. buf_refcnt (B i) = 0 \<and> \<not> buf_valid (B i)) \<and>
     (\<forall>i < N_BUFFER. buf_dev (B i) = 0))"

definition buf_inv :: "bstate \<Rightarrow> bool" where
  "buf_inv s \<longleftrightarrow> (\<exists>as vs us. buf_lists s as vs us)"

text \<open>The buffer that holds a block for some caller, the view of a block, and the blocks changed in memory only.\<close>

definition pin :: "bstate \<Rightarrow> u32 \<Rightarrow> nat option" where
  "pin s blk = List.find (\<lambda>i. buf_refcnt (buffers (bs_cache s) i) \<noteq> 0 \<and> buf_block_no (buffers (bs_cache s) i) = blk) [0..<N_BUFFER]"

definition view :: "bstate \<Rightarrow> u32 \<Rightarrow> block" where
  "view s blk = (case pin s blk of Some i \<Rightarrow> buf_data (buffers (bs_cache s) i) | None \<Rightarrow> bs_disk s blk)"

definition unsaved :: "bstate \<Rightarrow> u32 set" where
  "unsaved s = {blk. view s blk \<noteq> bs_disk s blk}"

section \<open>What a pin is\<close>

lemma find_unique:
  assumes "\<exists>\<^sub>\<le>\<^sub>1 k. P k \<and> k \<in> set xs"
  shows "List.find P xs = Some i \<longleftrightarrow> i \<in> set xs \<and> P i"
  using assms by (induction xs) (auto simp: Uniq_def)

lemma find_None: "List.find P xs = None \<longleftrightarrow> (\<forall>i \<in> set xs. \<not> P i)"
  by (induction xs) auto

lemma find_Some_in: "List.find P xs = Some i \<Longrightarrow> i \<in> set xs \<and> P i"
  by (induction xs) (auto split: if_splits)

lemma find_append: "List.find P (xs @ ys) = (case List.find P xs of Some i \<Rightarrow> Some i | None \<Rightarrow> List.find P ys)"
  by (induction xs) auto

abbreviation bufs :: "bstate \<Rightarrow> nat \<Rightarrow> buffer" where
  "bufs s \<equiv> buffers (bs_cache s)"

lemma buf_listsD:
  assumes "buf_lists s as vs us"
  shows "lru_lists (bs_cache s) as (vs @ us)" "distinct (map (\<lambda>i. buf_block_no (bufs s i)) (as @ vs))"
    "i \<in> set as \<Longrightarrow> buf_refcnt (bufs s i) = 1 \<and> buf_valid (bufs s i)"
    "i \<in> set vs \<Longrightarrow> buf_refcnt (bufs s i) = 0 \<and> buf_valid (bufs s i) \<and> buf_data (bufs s i) = bs_disk s (buf_block_no (bufs s i))"
    "i \<in> set us \<Longrightarrow> buf_refcnt (bufs s i) = 0 \<and> \<not> buf_valid (bufs s i)" "i < N_BUFFER \<Longrightarrow> buf_dev (bufs s i) = 0"
    "distinct (as @ vs @ us)" "set as \<union> set vs \<union> set us = {..<N_BUFFER}"
proof -
  note l = assms [unfolded buf_lists_def Let_def]
  show l1: "lru_lists (bs_cache s) as (vs @ us)" and "distinct (map (\<lambda>i. buf_block_no (bufs s i)) (as @ vs))" using l by blast+
  show "i \<in> set as \<Longrightarrow> buf_refcnt (bufs s i) = 1 \<and> buf_valid (bufs s i)"
    "i \<in> set vs \<Longrightarrow> buf_refcnt (bufs s i) = 0 \<and> buf_valid (bufs s i) \<and> buf_data (bufs s i) = bs_disk s (buf_block_no (bufs s i))"
    "i \<in> set us \<Longrightarrow> buf_refcnt (bufs s i) = 0 \<and> \<not> buf_valid (bufs s i)" "i < N_BUFFER \<Longrightarrow> buf_dev (bufs s i) = 0"
    using l by blast+
  show "distinct (as @ vs @ us)" "set as \<union> set vs \<union> set us = {..<N_BUFFER}" using l1 unfolding lru_lists_def by (simp_all add: Un_assoc)
qed

lemma active_iff:
  assumes l: "buf_lists s as vs us" and i: "i < N_BUFFER"
  shows "buf_refcnt (bufs s i) \<noteq> 0 \<longleftrightarrow> i \<in> set as"
proof -
  have "i \<in> set as \<union> set vs \<union> set us" unfolding buf_listsD(8) [OF l] using i by simp
  then consider "i \<in> set as" | "i \<in> set vs" "i \<notin> set as" | "i \<in> set us" "i \<notin> set as" by blast
  then show ?thesis using buf_listsD(3-5) [OF l, of i] by cases simp_all
qed

lemma active_bound: "buf_lists s as vs us \<Longrightarrow> i \<in> set as \<Longrightarrow> i < N_BUFFER"
  using buf_listsD(8) [of s as vs us] by blast

lemma pin_iff:
  assumes l: "buf_lists s as vs us"
  shows "pin s blk = Some i \<longleftrightarrow> i \<in> set as \<and> buf_block_no (bufs s i) = blk"
proof -
  have inj: "inj_on (\<lambda>i. buf_block_no (bufs s i)) (set as)"
    using buf_listsD(2) [OF l] by (simp add: distinct_map)
  have "pin s blk = Some i \<longleftrightarrow> i \<in> set [0..<N_BUFFER] \<and> buf_refcnt (bufs s i) \<noteq> 0 \<and> buf_block_no (bufs s i) = blk"
    unfolding pin_def using inj active_iff [OF l] by (intro find_unique) (auto simp: inj_on_def Uniq_def)
  also have "\<dots> \<longleftrightarrow> i \<in> set as \<and> buf_block_no (bufs s i) = blk" using active_iff [OF l, of i] active_bound [OF l, of i] by auto
  finally show ?thesis .
qed

lemma pin_None: "buf_lists s as vs us \<Longrightarrow> pin s blk = None \<longleftrightarrow> (\<forall>i \<in> set as. buf_block_no (bufs s i) \<noteq> blk)"
  using pin_iff [of s as vs us blk] by (metis not_Some_eq option.distinct(1))

lemma dom_pin: "buf_lists s as vs us \<Longrightarrow> dom (pin s) = (\<lambda>i. buf_block_no (bufs s i)) ` set as"
  using pin_iff [of s as vs us] by (auto simp: dom_def)

lemma card_pin: "buf_lists s as vs us \<Longrightarrow> card (dom (pin s)) = length as"
  using buf_listsD(2) [of s as vs us] distinct_card [of "map (\<lambda>i. buf_block_no (bufs s i)) as"] by (simp add: dom_pin)

section \<open>Reading\<close>

text \<open>All ways of getting a block that no caller holds end alike: some buffer that was not active holds the
  content of the device and is the first active one.\<close>

definition fresh_hold :: "bstate \<Rightarrow> u32 \<Rightarrow> nat list \<Rightarrow> nat list \<Rightarrow> nat list \<Rightarrow> nat \<Rightarrow> bstate \<Rightarrow> bool" where
  "fresh_hold s blk as vs us i s' \<longleftrightarrow> i \<in> set (vs @ us) \<and> bs_disk s' = bs_disk s \<and>
     lru_lists (bs_cache s') (i # as) (remove1 i vs @ remove1 i us) \<and>
     (\<forall>j. j \<noteq> i \<longrightarrow> bufs s' j = bufs s j) \<and>
     (let b = bufs s' i in buf_refcnt b = 1 \<and> buf_valid b \<and> buf_block_no b = blk \<and> buf_dev b = 0 \<and> buf_data b = bs_disk s blk) \<and>
     (\<forall>j \<in> set (remove1 i vs). buf_block_no (bufs s j) \<noteq> blk)"

lemma fresh_hold_lists:
  assumes l: "buf_lists s as vs us" and p: "pin s blk = None" and f: "fresh_hold s blk as vs us i s'"
  shows "buf_lists s' (i # as) (remove1 i vs) (remove1 i us)"
proof -
  note d = buf_listsD [OF l]
  have i: "i \<notin> set as" and f': "bs_disk s' = bs_disk s" "lru_lists (bs_cache s') (i # as) (remove1 i vs @ remove1 i us)"
    "\<And>j. j \<noteq> i \<Longrightarrow> bufs s' j = bufs s j" "buf_refcnt (bufs s' i) = 1" "buf_valid (bufs s' i)" "buf_block_no (bufs s' i) = blk"
    "buf_dev (bufs s' i) = 0" "\<forall>j \<in> set (remove1 i vs). buf_block_no (bufs s j) \<noteq> blk"
    using f d(7) by (auto simp: fresh_hold_def Let_def)
  have ni: "i \<notin> set (remove1 i vs)" "i \<notin> set (remove1 i us)" using d(7) by auto
  have sub: "set (remove1 i vs) \<subseteq> set vs" "set (remove1 i us) \<subseteq> set us" by (auto intro: set_remove1_subset [THEN subsetD])
  have key: "map (\<lambda>j. buf_block_no (bufs s' j)) xs = map (\<lambda>j. buf_block_no (bufs s j)) xs" if "i \<notin> set xs" for xs
  proof (rule map_cong [OF refl])
    fix j assume "j \<in> set xs"
    then have "j \<noteq> i" using that by blast
    then show "buf_block_no (bufs s' j) = buf_block_no (bufs s j)" using f'(3) by simp
  qed
  have "distinct (map (\<lambda>i. buf_block_no (bufs s i)) (as @ remove1 i vs))"
    using d(2) sub(1) by (auto simp: distinct_map inj_on_def)
  then have "distinct (map (\<lambda>i. buf_block_no (bufs s' i)) ((i # as) @ remove1 i vs))"
    using key [of "as @ remove1 i vs"] i ni(1) f'(6,8) pin_None [OF l, of blk] p by (auto simp del: map_append map_eq_conv)
  moreover have "buf_refcnt (bufs s' j) = 1 \<and> buf_valid (bufs s' j)" if "j \<in> set (i # as)" for j
    using that f' d(3) by (cases "j = i") auto
  moreover have "buf_refcnt (bufs s' j) = 0 \<and> buf_valid (bufs s' j) \<and> buf_data (bufs s' j) = bs_disk s' (buf_block_no (bufs s' j))"
    if "j \<in> set (remove1 i vs)" for j
    using that ni(1) sub(1) f'(1) f'(3) [of j] d(4) [of j] by (cases "j = i") auto
  moreover have "buf_refcnt (bufs s' j) = 0 \<and> \<not> buf_valid (bufs s' j)" if "j \<in> set (remove1 i us)" for j
    using that ni(2) sub(2) f'(3) [of j] d(5) [of j] by (cases "j = i") auto
  moreover have "buf_dev (bufs s' j) = 0" if "j < N_BUFFER" for j
    using that f'(3,7) d(6) [of j] by (cases "j = i") auto
  ultimately show ?thesis unfolding buf_lists_def Let_def using f'(2) by blast
qed

lemma remove1_both: "distinct (vs @ us) \<Longrightarrow> i \<in> set (vs @ us) \<Longrightarrow> remove1 i (vs @ us) = remove1 i vs @ remove1 i us"
  by (cases "i \<in> set vs") (auto simp: remove1_append remove1_idem disjoint_iff)

lemma in_remove1_not: "j \<in> set (remove1 i xs) \<Longrightarrow> distinct xs \<Longrightarrow> j \<noteq> i \<and> j \<in> set xs"
  by simp

lemma buffer_read_fresh:
  assumes l: "buf_lists s as vs us" and p: "pin s blk = None" and room: "length as < N_BUFFER"
  shows "\<exists>i s'. buffer_read 0 blk s = Some (i, s') \<and> fresh_hold s blk as vs us i s'"
proof -
  note d = buf_listsD [OF l]
  let ?c = "bs_cache s" and ?P = "\<lambda>i. buf_dev (bufs s i) = 0 \<and> buf_block_no (bufs s i) = blk"
  have dv: "distinct (vs @ us)" "distinct vs" using d(7) by auto
  have na: "List.find ?P as = None" using pin_None [OF l, of blk] p by (simp add: find_None)
  have fa: "find_active 0 blk ?c = Some None" and fi: "find_inactive 0 blk ?c = Some (List.find ?P (vs @ us))"
    using find_lists [OF d(1)] na by auto
  have lt: "i < N_BUFFER" if "i \<in> set (vs @ us)" for i using that d(8) by auto
  have ia: "i \<notin> set as" if "i \<in> set (vs @ us)" for i using that d(7) by auto
  show ?thesis
  proof (cases "List.find ?P (vs @ us)")
    case (Some i)
    then have i: "i \<in> set (vs @ us)" "buf_block_no (bufs s i) = blk" using find_Some_in [OF Some] by auto
    have ref: "buf_refcnt (bufs s i) = 0" using i(1) d(4,5) [of i] by auto
    define c1 where "c1 = get_buffer_mut i (\<lambda>b. b\<lparr>buf_locked := True\<rparr>) (insert_active_head i (get_buffer_mut i (\<lambda>b. b\<lparr>buf_refcnt := 1\<rparr>) ?c))"
    have "promote_to_active i ?c = Some (insert_active_head i (get_buffer_mut i (\<lambda>b. b\<lparr>buf_refcnt := 1\<rparr>) ?c))"
      using ref by (simp add: promote_to_active_def cadd_def)
    then have get: "buffer_get 0 blk s = Some (i, s\<lparr>bs_cache := c1\<rparr>)" using fa fi Some by (simp add: buffer_get_def c1_def)
    have B: "buffers c1 = (bufs s)(i := (bufs s i)\<lparr>buf_refcnt := 1, buf_locked := True\<rparr>)"
      by (auto simp: c1_def get_buffer_mut_def insert_active_head_eqs fun_eq_iff)
    have L: "lru_lists c1 (i # as) (remove1 i vs @ remove1 i us)"
      using insert_active_head_lists [of "get_buffer_mut i (\<lambda>b. b\<lparr>buf_refcnt := 1\<rparr>) ?c" as "vs @ us" i] d(1) lt [OF i(1)] ia [OF i(1)]
      by (simp add: c1_def remove1_idem remove1_both [OF dv(1) i(1)])
    have other: "\<forall>j \<in> set (remove1 i vs). buf_block_no (bufs s j) \<noteq> blk"
    proof (cases "i \<in> set vs")
      case True
      have "inj_on (\<lambda>i. buf_block_no (bufs s i)) (set vs)" using d(2) by (simp add: distinct_map)
      then show ?thesis using True i(2) in_remove1_not [OF _ dv(2), of _ i] by (metis inj_onD)
    next
      case False
      then have "List.find ?P vs = None" using Some find_Some_in [of ?P vs i] by (auto simp: find_append split: option.splits)
      then show ?thesis using False d(6) lt by (auto simp: find_None remove1_idem)
    qed
    show ?thesis
    proof (cases "buf_valid (bufs s i)")
      case True
      then have "i \<in> set vs" using i(1) d(5) [of i] by auto
      then have "buf_data (bufs s i) = bs_disk s blk" using d(4) [of i] i(2) by simp
      moreover have "buffer_read 0 blk s = Some (i, s\<lparr>bs_cache := c1\<rparr>)"
        using get True B by (simp add: buffer_read_def get_buffer_def)
      moreover from calculation(1) have "fresh_hold s blk as vs us i (s\<lparr>bs_cache := c1\<rparr>)"
        using i True B L other d(6) [OF lt [OF i(1)]] by (simp add: fresh_hold_def)
      ultimately show ?thesis by blast
    next
      case False
      define c2 where "c2 = get_buffer_mut i (\<lambda>b. b\<lparr>buf_valid := True\<rparr>) (get_buffer_mut i (\<lambda>b. b\<lparr>buf_data := bs_disk s blk\<rparr>) c1)"
      have "buffer_read 0 blk s = Some (i, s\<lparr>bs_cache := c2\<rparr>)"
        using get False B by (simp add: buffer_read_def get_buffer_def disk_rw_def c2_def)
      moreover have "buffers c2 = (bufs s)(i := (bufs s i)\<lparr>buf_refcnt := 1, buf_locked := True, buf_data := bs_disk s blk, buf_valid := True\<rparr>)"
        using B by (simp add: c2_def get_buffer_mut_def)
      moreover have "lru_lists c2 (i # as) (remove1 i vs @ remove1 i us)" using L by (simp add: c2_def)
      moreover from calculation(2,3) have "fresh_hold s blk as vs us i (s\<lparr>bs_cache := c2\<rparr>)"
        using i other d(6) [OF lt [OF i(1)]] by (simp add: fresh_hold_def)
      ultimately show ?thesis by blast
    qed
  next
    case None
    have "length as + length (vs @ us) = N_BUFFER"
      using distinct_card [OF d(7)] d(8) by (simp add: Un_assoc)
    then have ne: "vs @ us \<noteq> []" using room by auto
    define i where "i = last (vs @ us)"
    have i: "i \<in> set (vs @ us)" unfolding i_def using ne by (rule last_in_set)
    have ref: "buf_refcnt (bufs s i) = 0" using i d(4,5) [of i] by auto
    let ?f = "\<lambda>b. b\<lparr>buf_dev := 0, buf_block_no := blk, buf_valid := False, buf_refcnt := 1, buf_locked := True\<rparr>"
    define c1 where "c1 = insert_active_head i (get_buffer_mut i ?f ?c)"
    have "recycle_lru 0 blk ?c = Some (i, c1)"
      using get_lru_last [OF d(1)] ne ref by (simp add: recycle_lru_def c1_def i_def)
    then have get: "buffer_get 0 blk s = Some (i, s\<lparr>bs_cache := c1\<rparr>)" using fa fi None by (simp add: buffer_get_def)
    have B: "buffers c1 = (bufs s)(i := ?f (bufs s i))"
      by (auto simp: c1_def get_buffer_mut_def insert_active_head_eqs fun_eq_iff)
    define c2 where "c2 = get_buffer_mut i (\<lambda>b. b\<lparr>buf_valid := True\<rparr>) (get_buffer_mut i (\<lambda>b. b\<lparr>buf_data := bs_disk s blk\<rparr>) c1)"
    have rd: "buffer_read 0 blk s = Some (i, s\<lparr>bs_cache := c2\<rparr>)"
      using get B by (simp add: buffer_read_def get_buffer_def disk_rw_def c2_def)
    have B2: "buffers c2 = (bufs s)(i := (?f (bufs s i))\<lparr>buf_data := bs_disk s blk, buf_valid := True\<rparr>)"
      using B by (simp add: c2_def get_buffer_mut_def)
    have L: "lru_lists c2 (i # as) (remove1 i vs @ remove1 i us)"
      using insert_active_head_lists [of "get_buffer_mut i ?f ?c" as "vs @ us" i] d(1) lt [OF i] ia [OF i]
      by (simp add: c1_def c2_def remove1_idem remove1_both [OF dv(1) i])
    have "\<forall>j \<in> set (remove1 i vs). buf_block_no (bufs s j) \<noteq> blk"
    proof
      fix j assume "j \<in> set (remove1 i vs)"
      then have j: "j \<in> set (vs @ us)" using notin_set_remove1 [of j vs i] by auto
      then show "buf_block_no (bufs s j) \<noteq> blk" using None d(6) [OF lt [OF j]] unfolding find_None by blast
    qed
    then have "fresh_hold s blk as vs us i (s\<lparr>bs_cache := c2\<rparr>)" using i B2 L by (simp add: fresh_hold_def)
    then show ?thesis using rd by blast
  qed
qed

section \<open>The laws of the operations\<close>

lemma buffers_mut [simp]: "buffers (get_buffer_mut i f c) = (buffers c)(i := f (buffers c i))"
  by (simp add: get_buffer_mut_def)

lemma pinD:
  assumes l: "buf_lists s as vs us" and p: "pin s blk = Some i"
  shows "i \<in> set as" "buf_block_no (bufs s i) = blk" "BufferId_new i = Some i" "buf_refcnt (bufs s i) = 1" "buf_valid (bufs s i)"
    "view s blk = buf_data (bufs s i)"
proof -
  show i: "i \<in> set as" "buf_block_no (bufs s i) = blk" using pin_iff [OF l] p by auto
  show "BufferId_new i = Some i" using active_bound [OF l i(1)] by (simp add: BufferId_new_def)
  show "buf_refcnt (bufs s i) = 1" "buf_valid (bufs s i)" using buf_listsD(3) [OF l i(1)] by auto
  show "view s blk = buf_data (bufs s i)" using p by (simp add: view_def)
qed

lemma pin_eqI:
  assumes "buf_lists s' as' vs' us'" and "\<And>blk i. i \<in> set as' \<and> buf_block_no (bufs s' i) = blk \<longleftrightarrow> f blk = Some i"
  shows "pin s' = f"
proof
  fix blk
  have "pin s' blk = Some i \<longleftrightarrow> f blk = Some i" for i using pin_iff [OF assms(1)] assms(2) by simp
  then show "pin s' blk = f blk" by (metis option.exhaust)
qed

lemma read_law:
  assumes inv: "buf_inv s" and p: "pin s blk = None" and room: "card (dom (pin s)) < N_BUFFER"
  shows "\<exists>i s'. buffer_read 0 blk s = Some (i, s') \<and> buf_inv s' \<and> pin s' = (pin s)(blk \<mapsto> i) \<and> view s' = view s \<and> unsaved s' = unsaved s"
proof -
  obtain as vs us where l: "buf_lists s as vs us" using inv by (auto simp: buf_inv_def)
  obtain i s' where r: "buffer_read 0 blk s = Some (i, s')" and f: "fresh_hold s blk as vs us i s'"
    using buffer_read_fresh [OF l p] room card_pin [OF l] by auto
  note l' = fresh_hold_lists [OF l p f]
  have ia: "i \<notin> set as" using f buf_listsD(7) [OF l] by (auto simp: fresh_hold_def)
  have f': "bs_disk s' = bs_disk s" "\<And>j. j \<noteq> i \<Longrightarrow> bufs s' j = bufs s j" "buf_block_no (bufs s' i) = blk" "buf_data (bufs s' i) = bs_disk s blk"
    using f by (auto simp: fresh_hold_def Let_def)
  have pin': "pin s' = (pin s)(blk \<mapsto> i)"
  proof (rule pin_eqI [OF l'])
    fix b j
    have old: "j \<in> set as \<Longrightarrow> bufs s' j = bufs s j" using ia f'(2) by metis
    show "j \<in> set (i # as) \<and> buf_block_no (bufs s' j) = b \<longleftrightarrow> ((pin s)(blk \<mapsto> i)) b = Some j"
      using pin_iff [OF l, of b j] pin_None [OF l, of blk] p old f'(3) ia by auto
  qed
  have view': "view s' = view s"
  proof
    fix b
    show "view s' b = view s b"
    proof (cases "pin s b")
      case (Some j)
      then have "b \<noteq> blk" "j \<noteq> i" using p pinD(1) [OF l Some] ia by auto
      then show ?thesis using Some pin' f'(2) by (simp add: view_def)
    next
      case None
      then show ?thesis using pin' f'(1,4) by (simp add: view_def)
    qed
  qed
  then have "unsaved s' = unsaved s" using f'(1) by (simp add: unsaved_def)
  then show ?thesis using r l' pin' view' unfolding buf_inv_def by blast
qed

lemma put_law:
  assumes inv: "buf_inv s" and p: "pin s blk = Some i"
  shows "\<exists>s'. put_data i d s = Some s' \<and> buf_inv s' \<and> pin s' = pin s \<and> view s' = (view s)(blk := d) \<and> unsaved s' - {blk} = unsaved s - {blk}"
proof -
  obtain as vs us where l: "buf_lists s as vs us" using inv by (auto simp: buf_inv_def)
  note i = pinD [OF l p]
  let ?s = "s\<lparr>bs_cache := get_buffer_mut i (\<lambda>b. b\<lparr>buf_data := d\<rparr>) (bs_cache s)\<rparr>"
  have B: "bufs ?s = (bufs s)(i := (bufs s i)\<lparr>buf_data := d\<rparr>)" by (simp add: get_buffer_mut_def)
  have nv: "i \<notin> set vs" using i(1) buf_listsD(7) [OF l] by auto
  have eq: "buf_block_no (bufs ?s j) = buf_block_no (bufs s j)" "buf_refcnt (bufs ?s j) = buf_refcnt (bufs s j)"
    "buf_valid (bufs ?s j) = buf_valid (bufs s j)" "buf_dev (bufs ?s j) = buf_dev (bufs s j)" for j by simp_all
  have "buf_data (bufs ?s j) = buf_data (bufs s j)" if "j \<in> set vs" for j using that nv by (auto simp: B)
  then have "buf_lists ?s as vs us" using l unfolding buf_lists_def Let_def eq by simp
  moreover have pin: "pin ?s = pin s" unfolding pin_def eq ..
  moreover have view: "view ?s = (view s)(blk := d)"
  proof
    fix b
    show "view ?s b = ((view s)(blk := d)) b"
    proof (cases "b = blk")
      case False
      then have "pin s b \<noteq> Some i" using pinD(2) [OF l, of b i] i(2) by auto
      then show ?thesis using False unfolding view_def pin by (cases "pin s b") auto
    qed (use p in \<open>simp add: view_def pin\<close>)
  qed
  moreover have "unsaved ?s - {blk} = unsaved s - {blk}" unfolding unsaved_def view by auto
  moreover have "put_data i d s = Some ?s" using i(3) by (simp add: put_data_def)
  ultimately show ?thesis unfolding buf_inv_def by blast
qed

lemma get_law: "buf_inv s \<Longrightarrow> pin s blk = Some i \<Longrightarrow> get_data i s = Some (view s blk)"
  unfolding buf_inv_def by (elim exE) (simp add: get_data_def get_buffer_def pinD(3,6))

lemma write_law:
  assumes inv: "buf_inv s" and p: "pin s blk = Some i"
  shows "\<exists>s'. buffer_write i s = Some s' \<and> buf_inv s' \<and> pin s' = pin s \<and> view s' = view s \<and> unsaved s' = unsaved s - {blk}"
proof -
  obtain as vs us where l: "buf_lists s as vs us" using inv by (auto simp: buf_inv_def)
  note i = pinD [OF l p]
  let ?s = "s\<lparr>bs_disk := (bs_disk s)(blk := buf_data (bufs s i)), bs_cache := get_buffer_mut i (\<lambda>b. b\<lparr>buf_dirty := False\<rparr>) (bs_cache s)\<rparr>"
  have w: "buffer_write i s = Some ?s" using i(2,3) by (simp add: buffer_write_def disk_rw_def get_buffer_def)
  have B: "bufs ?s = (bufs s)(i := (bufs s i)\<lparr>buf_dirty := False\<rparr>)" by (simp add: get_buffer_mut_def)
  have eq: "buf_block_no (bufs ?s j) = buf_block_no (bufs s j)" "buf_refcnt (bufs ?s j) = buf_refcnt (bufs s j)"
    "buf_valid (bufs ?s j) = buf_valid (bufs s j)" "buf_dev (bufs ?s j) = buf_dev (bufs s j)" "buf_data (bufs ?s j) = buf_data (bufs s j)" for j
    by simp_all
  have "bs_disk ?s (buf_block_no (bufs s j)) = bs_disk s (buf_block_no (bufs s j))" if "j \<in> set vs" for j
    using buf_listsD(2) [OF l] that i(1,2) by (auto simp: distinct_map inj_on_def)
  then have "buf_lists ?s as vs us" using l unfolding buf_lists_def Let_def eq by simp
  moreover have pin: "pin ?s = pin s" unfolding pin_def eq ..
  moreover have view: "view ?s = view s"
  proof
    fix b
    show "view ?s b = view s b" using p unfolding view_def pin eq by (cases "pin s b") auto
  qed
  moreover have "unsaved ?s = unsaved s - {blk}" unfolding unsaved_def view using i(6) by auto
  ultimately show ?thesis using w unfolding buf_inv_def by blast
qed

lemma release_eq:
  assumes l: "buf_lists s as vs us" and p: "pin s blk = Some i"
  shows "\<exists>s'. buffer_release i s = Some s' \<and> bs_disk s' = bs_disk s \<and> lru_lists (bs_cache s') (remove1 i as) ((i # vs) @ us) \<and>
    bufs s' = (bufs s)(i := (bufs s i)\<lparr>buf_refcnt := 0, buf_locked := False\<rparr>)"
proof -
  note i = pinD [OF l p] and d = buf_listsD [OF l]
  let ?c = "get_buffer_mut i (\<lambda>b. b\<lparr>buf_refcnt := 0, buf_locked := False\<rparr>) (bs_cache s)"
  have "buffer_release i s = Some (s\<lparr>bs_cache := insert_inactive_head i ?c\<rparr>)"
    using i(3,4) by (simp add: buffer_release_def csub_def demote_to_inactive_def)
  moreover have "remove1 i (vs @ us) = vs @ us" using d(7) i(1) by (intro remove1_idem) auto
  then have "lru_lists (insert_inactive_head i ?c) (remove1 i as) ((i # vs) @ us)"
    using insert_inactive_head_lists [of ?c as "vs @ us" i] d(1) active_bound [OF l i(1)] by simp
  ultimately show ?thesis by (simp add: insert_inactive_head_eqs)
qed

lemma release_law:
  assumes inv: "buf_inv s" and p: "pin s blk = Some i" and saved: "blk \<notin> unsaved s"
  shows "\<exists>s'. buffer_release i s = Some s' \<and> buf_inv s' \<and> pin s' = (pin s)(blk := None) \<and> view s' = view s \<and> unsaved s' = unsaved s"
proof -
  obtain as vs us where l: "buf_lists s as vs us" using inv by (auto simp: buf_inv_def)
  note i = pinD [OF l p] and d = buf_listsD [OF l]
  obtain s' where r: "buffer_release i s = Some s'" "bs_disk s' = bs_disk s" "lru_lists (bs_cache s') (remove1 i as) ((i # vs) @ us)"
    and B: "bufs s' = (bufs s)(i := (bufs s i)\<lparr>buf_refcnt := 0, buf_locked := False\<rparr>)" using release_eq [OF l p] by blast
  have da: "distinct as" "i \<notin> set vs" "i \<notin> set us" using d(7) i(1) by auto
  have eq: "buf_block_no (bufs s' j) = buf_block_no (bufs s j)" "buf_valid (bufs s' j) = buf_valid (bufs s j)"
    "buf_dev (bufs s' j) = buf_dev (bufs s j)" "buf_data (bufs s' j) = buf_data (bufs s j)" for j by (simp_all add: B)
  have rf: "buf_refcnt (bufs s' j) = (if j = i then 0 else buf_refcnt (bufs s j))" for j by (simp add: B)
  have sync: "buf_data (bufs s i) = bs_disk s blk" using saved i(6) by (simp add: unsaved_def)
  have ra: "j \<in> set (remove1 i as) \<longleftrightarrow> j \<in> set as \<and> j \<noteq> i" for j unfolding set_remove1_eq [OF da(1)] by blast
  have same: "set (remove1 i as @ i # vs) = set (as @ vs)" unfolding set_append list.set set_remove1_eq [OF da(1)] using i(1) by blast
  have "distinct (remove1 i as @ i # vs)"
    unfolding distinct_append distinct.simps list.set set_remove1_eq [OF da(1)] using d(7) da by auto
  then have "distinct (map (\<lambda>i. buf_block_no (bufs s i)) (remove1 i as @ i # vs))"
    using d(2) unfolding distinct_map same by blast
  moreover have "\<forall>j \<in> set (remove1 i as). buf_refcnt (bufs s' j) = 1 \<and> buf_valid (bufs s j)" using ra rf d(3) by simp
  moreover have "\<forall>j \<in> set (i # vs). buf_refcnt (bufs s' j) = 0 \<and> buf_valid (bufs s j) \<and> buf_data (bufs s j) = bs_disk s (buf_block_no (bufs s j))"
    using rf d(4) i(2,5) sync by simp
  moreover have "\<forall>j \<in> set us. buf_refcnt (bufs s' j) = 0 \<and> \<not> buf_valid (bufs s j)" using rf d(5) by simp
  ultimately have l': "buf_lists s' (remove1 i as) (i # vs) us"
    unfolding buf_lists_def Let_def eq using r(2,3) d(6) by simp
  have pin': "pin s' = (pin s)(blk := None)"
  proof (rule pin_eqI [OF l'])
    fix b j
    show "j \<in> set (remove1 i as) \<and> buf_block_no (bufs s' j) = b \<longleftrightarrow> ((pin s)(blk := None)) b = Some j"
      unfolding eq ra using pin_iff [OF l, of b j] p i(2) by auto
  qed
  have view': "view s' = view s"
  proof
    fix b
    show "view s' b = view s b"
      using pin' r(2) sync p unfolding view_def eq by (cases "b = blk"; cases "pin s b") auto
  qed
  then have "unsaved s' = unsaved s" using r(2) by (simp add: unsaved_def)
  then show ?thesis using r(1) l' pin' view' unfolding buf_inv_def by blast
qed

section \<open>The interface of the cache\<close>

text \<open>What the file system relies on: blocks can be read, changed through a pointer, written back and released.\<close>

locale block_cache =
  fixes rd :: "u32 \<Rightarrow> 's \<Rightarrow> (nat \<times> 's) option"
    and gt :: "nat \<Rightarrow> 's \<Rightarrow> block option"
    and pt :: "nat \<Rightarrow> block \<Rightarrow> 's \<Rightarrow> 's option"
    and wr :: "nat \<Rightarrow> 's \<Rightarrow> 's option"
    and rl :: "nat \<Rightarrow> 's \<Rightarrow> 's option"
    and good :: "'s \<Rightarrow> bool"
    and held :: "'s \<Rightarrow> u32 \<Rightarrow> nat option"
    and content :: "'s \<Rightarrow> u32 \<Rightarrow> block"
    and pending :: "'s \<Rightarrow> u32 set"
  assumes rd_law: "good s \<Longrightarrow> held s blk = None \<Longrightarrow> card (dom (held s)) < N_BUFFER \<Longrightarrow>
      \<exists>i s'. rd blk s = Some (i, s') \<and> good s' \<and> held s' = (held s)(blk \<mapsto> i) \<and> content s' = content s \<and> pending s' = pending s"
    and gt_law: "good s \<Longrightarrow> held s blk = Some i \<Longrightarrow> gt i s = Some (content s blk)"
    and pt_law: "good s \<Longrightarrow> held s blk = Some i \<Longrightarrow>
      \<exists>s'. pt i d s = Some s' \<and> good s' \<and> held s' = held s \<and> content s' = (content s)(blk := d) \<and> pending s' - {blk} = pending s - {blk}"
    and wr_law: "good s \<Longrightarrow> held s blk = Some i \<Longrightarrow>
      \<exists>s'. wr i s = Some s' \<and> good s' \<and> held s' = held s \<and> content s' = content s \<and> pending s' = pending s - {blk}"
    and rl_law: "good s \<Longrightarrow> held s blk = Some i \<Longrightarrow> blk \<notin> pending s \<Longrightarrow>
      \<exists>s'. rl i s = Some s' \<and> good s' \<and> held s' = (held s)(blk := None) \<and> content s' = content s \<and> pending s' = pending s"
    and pending_held: "good s \<Longrightarrow> pending s \<subseteq> dom (held s)"
begin

text \<open>A state from which a block can be taken: it is not held, and a buffer is left.\<close>

definition free_for :: "u32 \<Rightarrow> 's \<Rightarrow> bool" where
  "free_for blk s \<longleftrightarrow> good s \<and> held s blk = None \<and> card (dom (held s)) < N_BUFFER"

text \<open>Looking at a block: read it and release it.\<close>

lemma inspect:
  assumes "free_for blk s"
  shows "\<exists>i s1 s2. rd blk s = Some (i, s1) \<and> gt i s1 = Some (content s blk) \<and> rl i s1 = Some s2 \<and>
    good s2 \<and> held s2 = held s \<and> content s2 = content s \<and> pending s2 = pending s"
proof -
  have a: "good s" "held s blk = None" "card (dom (held s)) < N_BUFFER" using assms by (auto simp: free_for_def)
  obtain i s1 where r: "rd blk s = Some (i, s1)" "good s1" "held s1 = (held s)(blk \<mapsto> i)" "content s1 = content s" "pending s1 = pending s"
    using rd_law [OF a] by blast
  have h: "held s1 blk = Some i" using r(3) by simp
  have np: "blk \<notin> pending s1" using pending_held [OF a(1)] a(2) r(5) by auto
  obtain s2 where s2: "rl i s1 = Some s2" "good s2" "held s2 = (held s1)(blk := None)" "content s2 = content s1" "pending s2 = pending s1"
    using rl_law [OF r(2) h np] by blast
  have "held s2 = held s" using s2(3) r(3) a(2) by auto
  then show ?thesis using r s2 gt_law [OF r(2) h] by auto
qed

text \<open>Changing a block: read it, store the new content through the pointer, write it back, release it.\<close>

lemma modify:
  assumes "free_for blk s"
  shows "\<exists>i s1 s2 s3 s4. rd blk s = Some (i, s1) \<and> gt i s1 = Some (content s blk) \<and> pt i d s1 = Some s2 \<and> wr i s2 = Some s3 \<and>
    rl i s3 = Some s4 \<and> good s4 \<and> held s4 = held s \<and> content s4 = (content s)(blk := d) \<and> pending s4 = pending s"
proof -
  have a: "good s" "held s blk = None" "card (dom (held s)) < N_BUFFER" using assms by (auto simp: free_for_def)
  obtain i s1 where r: "rd blk s = Some (i, s1)" "good s1" "held s1 = (held s)(blk \<mapsto> i)" "content s1 = content s" "pending s1 = pending s"
    using rd_law [OF a] by blast
  have h: "held s1 blk = Some i" using r(3) by simp
  obtain s2 where s2: "pt i d s1 = Some s2" "good s2" "held s2 = held s1" "content s2 = (content s1)(blk := d)" "pending s2 - {blk} = pending s1 - {blk}"
    using pt_law [OF r(2) h] by blast
  obtain s3 where s3: "wr i s2 = Some s3" "good s3" "held s3 = held s2" "content s3 = content s2" "pending s3 = pending s2 - {blk}"
    using wr_law [OF s2(2), of blk i] h s2(3) by auto
  obtain s4 where s4: "rl i s3 = Some s4" "good s4" "held s4 = (held s3)(blk := None)" "content s4 = content s3" "pending s4 = pending s3"
    using rl_law [OF s3(2), of blk i] h s2(3) s3(3,5) by auto
  have hh: "held s4 = held s" using s4(3) s3(3) s2(3) r(3) a(2) by auto
  have "blk \<notin> pending s" using pending_held [OF a(1)] a(2) by auto
  then have pp: "pending s4 = pending s" using s4(5) s3(5) s2(5) r(5) by simp
  have cc: "content s4 = (content s)(blk := d)" using s4(4) s3(4) s2(4) r(4) by simp
  have gg: "gt i s1 = Some (content s blk)" using gt_law [OF r(2) h] r(4) by simp
  show ?thesis
    by (rule exI [of _ i], rule exI [of _ s1], rule exI [of _ s2], rule exI [of _ s3], rule exI [of _ s4])
      (intro conjI r(1) gg s2(1) s3(1) s4(1,2) hh cc pp)
qed

end

lemma unsaved_pinned: "buf_inv s \<Longrightarrow> unsaved s \<subseteq> dom (pin s)"
  by (auto simp: unsaved_def view_def split: option.splits)

interpretation cache: block_cache "buffer_read 0" get_data put_data buffer_write buffer_release buf_inv pin view unsaved
  by (unfold_locales; (elim read_law | rule get_law | rule put_law | rule write_law | rule release_law | rule unsaved_pinned); assumption)

section \<open>Properties\<close>

lemma buffer_init_inv: "buf_lists (buffer_init \<lparr>bs_cache = LRUCache_new, bs_disk = disk\<rparr>) [] [] [0..<N_BUFFER]"
  using LRUCache_init_lists [of LRUCache_new]
  by (simp add: buf_lists_def buffer_init_def LRUCache_init_def LRUCache_new_def Buffer_new_def)

lemma buffer_init_pin: "pin (buffer_init \<lparr>bs_cache = LRUCache_new, bs_disk = disk\<rparr>) = (\<lambda>_. None)"
  by (rule pin_eqI [OF buffer_init_inv]) simp



text \<open>C19. Changing a block and writing it back: the read, the change, the write and the release all succeed; the
  device and every later reader see the new content, and every other block is as it was.\<close>

theorem buffer_write_back:
  assumes "buf_inv s" and "pin s = (\<lambda>_. None)"
  shows "\<exists>i s1 s2 s3 s4. buffer_read 0 blk s = Some (i, s1) \<and> put_data i d s1 = Some s2 \<and> buffer_write i s2 = Some s3 \<and>
    buffer_release i s3 = Some s4 \<and> buf_inv s4 \<and> pin s4 = (\<lambda>_. None) \<and> bs_disk s4 = (bs_disk s)(blk := d)"
proof -
  have "cache.free_for blk s" using assms by (simp add: cache.free_for_def N_BUFFER_def)
  then obtain i s1 s2 s3 s4 where r: "buffer_read 0 blk s = Some (i, s1)" "put_data i d s1 = Some s2" "buffer_write i s2 = Some s3"
    "buffer_release i s3 = Some s4" "buf_inv s4" "pin s4 = pin s" "view s4 = (view s)(blk := d)"
    using cache.modify by blast
  have "view s = bs_disk s" "view s4 = bs_disk s4" using assms(2) r(6) by (auto simp: view_def)
  then show ?thesis using r assms(2) by metis
qed

theorem buffer_write_back_witness:
  "\<exists>i s1 s2 s3 s4. buffer_read 0 7 (buffer_init \<lparr>bs_cache = LRUCache_new, bs_disk = \<lambda>b k. 0\<rparr>) = Some (i, s1) \<and> put_data i (\<lambda>_. 5) s1 = Some s2 \<and>
    buffer_write i s2 = Some s3 \<and> buffer_release i s3 = Some s4 \<and> bs_disk s4 7 = (\<lambda>_. 5)"
proof -
  let ?s = "buffer_init \<lparr>bs_cache = LRUCache_new, bs_disk = \<lambda>b k. 0\<rparr>"
  have "buf_inv ?s" using buffer_init_inv unfolding buf_inv_def by blast
  from buffer_write_back [OF this buffer_init_pin, of 7 "\<lambda>_. 5"] show ?thesis by fastforce
qed

text \<open>C20. A block that is held already is handed out again without a second reference: the first of its two
  holders to release it lets it go, and the release by the other panics.\<close>

theorem buffer_second_holder:
  assumes inv: "buf_inv s" and p: "pin s blk = Some i" and saved: "blk \<notin> unsaved s"
  shows "\<exists>s1 s2. buffer_read 0 blk s = Some (i, s1) \<and> buffer_release i s1 = Some s2 \<and> pin s2 blk = None \<and> buffer_release i s2 = None"
proof -
  obtain as vs us where l: "buf_lists s as vs us" using inv by (auto simp: buf_inv_def)
  note i = pinD [OF l p]
  let ?s = "s\<lparr>bs_cache := get_buffer_mut i (\<lambda>b. b\<lparr>buf_locked := True\<rparr>) (bs_cache s)\<rparr>"
  let ?P = "\<lambda>i. buf_dev (bufs s i) = 0 \<and> buf_block_no (bufs s i) = blk"
  have "List.find ?P as = Some i"
  proof (rule find_unique [THEN iffD2])
    show "\<exists>\<^sub>\<le>\<^sub>1 k. ?P k \<and> k \<in> set as"
    proof (rule Uniq_I)
      fix j k assume "?P j \<and> j \<in> set as" "?P k \<and> k \<in> set as"
      then show "k = j" using pin_iff [OF l, of blk j] pin_iff [OF l, of blk k] by simp
    qed
    show "i \<in> set as \<and> ?P i" using i(1,2) buf_listsD(6) [OF l active_bound [OF l i(1)]] by simp
  qed
  then have rd: "buffer_read 0 blk s = Some (i, ?s)"
    using find_lists(1) [OF buf_listsD(1) [OF l], of 0 blk] i(5) by (simp add: buffer_read_def buffer_get_def get_buffer_def)
  have eq: "buf_block_no (bufs ?s j) = buf_block_no (bufs s j)" "buf_refcnt (bufs ?s j) = buf_refcnt (bufs s j)"
    "buf_valid (bufs ?s j) = buf_valid (bufs s j)" "buf_dev (bufs ?s j) = buf_dev (bufs s j)" "buf_data (bufs ?s j) = buf_data (bufs s j)" for j
    by simp_all
  have l1: "buf_lists ?s as vs us" using l unfolding buf_lists_def Let_def eq by simp
  have p1: "pin ?s = pin s" unfolding pin_def eq ..
  have "blk \<notin> unsaved ?s" using saved p unfolding unsaved_def view_def p1 eq by simp
  moreover have "buf_inv ?s" using l1 unfolding buf_inv_def by blast
  moreover have "pin ?s blk = Some i" using p p1 by simp
  ultimately obtain s2 where s2: "buffer_release i ?s = Some s2" "pin s2 = (pin ?s)(blk := None)"
    using release_law by blast
  obtain s2' where "buffer_release i ?s = Some s2'" "buf_refcnt (bufs s2' i) = 0"
    using release_eq [OF l1, of blk i] p p1 by auto
  then have "buffer_release i s2 = None" using s2(1) i(3) by (simp add: buffer_release_def csub_def)
  moreover have "pin s2 blk = None" using s2(2) by simp
  ultimately show ?thesis using rd s2(1) by blast
qed

theorem buffer_second_holder_witness:
  "\<exists>i s s1 s2. buffer_read 0 7 (buffer_init \<lparr>bs_cache = LRUCache_new, bs_disk = \<lambda>b k. 0\<rparr>) = Some (i, s) \<and>
    buffer_read 0 7 s = Some (i, s1) \<and> buffer_release i s1 = Some s2 \<and> buffer_release i s2 = None"
proof -
  let ?s = "buffer_init \<lparr>bs_cache = LRUCache_new, bs_disk = \<lambda>b k. 0\<rparr>"
  have inv: "buf_inv ?s" using buffer_init_inv unfolding buf_inv_def by blast
  obtain i s where r: "buffer_read 0 7 ?s = Some (i, s)" "buf_inv s" "pin s = (pin ?s)(7 \<mapsto> i)" "unsaved s = unsaved ?s"
    using read_law [OF inv, of 7] by (auto simp: buffer_init_pin N_BUFFER_def)
  have "unsaved ?s = {}" using unsaved_pinned [OF inv] by (simp add: buffer_init_pin)
  then show ?thesis using buffer_second_holder [OF r(2), of 7 i] r by auto
qed

end
