(* ===== verification/Bitmap.thy ===== *)
theory Bitmap
  imports Buffer
begin

text \<open>
  The superblock (\<^verbatim>\<open>fs/fs.rs\<close>) and the bitmap of data blocks (\<^verbatim>\<open>fs/bitmap.rs\<close>). The scan for a clear bit
  is shared with the bitmap of inodes. An access through a block's data pointer beyond the block is
  \<open>None\<close>, like a panic. The self-test \<open>fs_test\<close> that \<open>fs_init\<close> runs at the end is left out.
\<close>

section \<open>Superblock\<close>

definition MAGIC :: u32 where "MAGIC = 0x10203040"

record super_block =
  sb_magic :: u32
  sb_size :: u32
  sb_nblocks :: u32
  sb_ninodes :: u32
  sb_inode_start :: u32
  sb_bmap_start :: u32

record fs_state =
  fs_sb :: "super_block option"
  fs_b :: bstate

definition read_u32 :: "block \<Rightarrow> nat \<Rightarrow> u32" where
  "read_u32 d off = le_val (load d off 4)"

definition decode_sb :: "block \<Rightarrow> super_block" where
  "decode_sb d = \<lparr>sb_magic = read_u32 d 0, sb_size = read_u32 d 4, sb_nblocks = read_u32 d 8,
     sb_ninodes = read_u32 d 12, sb_inode_start = read_u32 d 16, sb_bmap_start = read_u32 d 20\<rparr>"

definition get_sb :: "fs_state \<Rightarrow> super_block option" where
  "get_sb st = fs_sb st"

definition fs_init :: "fs_state \<Rightarrow> fs_state option" where
  "fs_init st = do {
     (b, s) \<leftarrow> buffer_read 0 0 (fs_b st);
     d \<leftarrow> get_data b s;
     let sb = decode_sb d;
     s \<leftarrow> buffer_release b s;
     (if sb_magic sb \<noteq> MAGIC then None
      else Some \<lparr>fs_sb = (case fs_sb st of None \<Rightarrow> Some sb | Some x \<Rightarrow> Some x), fs_b = s\<rparr>)
   }"

section \<open>Bits\<close>

definition bit_mask :: "nat \<Rightarrow> u8" where
  "bit_mask j = push_bit j 1"

fun scan_bits :: "u8 \<Rightarrow> nat list \<Rightarrow> nat option" where
  "scan_bits byte [] = None"
| "scan_bits byte (j # js) = (if byte AND bit_mask j = 0 then Some j else scan_bits byte js)"

fun scan_bytes :: "block \<Rightarrow> nat list \<Rightarrow> (nat \<times> nat) option" where
  "scan_bytes d [] = None"
| "scan_bytes d (i # is) =
     (if d i \<noteq> 0xFF then
        (case scan_bits (d i) [0..<8] of Some j \<Rightarrow> Some (i, j) | None \<Rightarrow> scan_bytes d is)
      else scan_bytes d is)"

definition block_byte :: "block \<Rightarrow> nat \<Rightarrow> u8 option" where
  "block_byte d i = (if i < BLOCK_SIZE then Some (d i) else None)"

section \<open>Data blocks\<close>

text \<open>Read the block, change its content, write it back and release it.\<close>

definition zero_block :: "u32 \<Rightarrow> bstate \<Rightarrow> bstate option" where
  "zero_block blk s = do {
     (zb, s) \<leftarrow> buffer_read 0 blk s;
     d \<leftarrow> get_data zb s;
     s \<leftarrow> put_data zb (\<lambda>k. if k < BLOCK_SIZE then 0 else d k) s;
     s \<leftarrow> buffer_write zb s;
     buffer_release zb s
   }"

definition bitmap_alloc :: "fs_state \<Rightarrow> (u32 \<times> fs_state) option" where
  "bitmap_alloc st = do {
     sb \<leftarrow> get_sb st;
     let bmap_start = sb_bmap_start sb;
     (b, s) \<leftarrow> buffer_read 0 bmap_start (fs_b st);
     d \<leftarrow> get_data b s;
     (case scan_bytes d [0..<BLOCK_SIZE] of
        None \<Rightarrow> None
      | Some (i, j) \<Rightarrow>
          let bit_idx = i * 8 + j in
          if sb_nblocks sb \<le> bit_idx then None
          else do {
            s \<leftarrow> put_data b (d(i := d i OR bit_mask j)) s;
            s \<leftarrow> buffer_write b s;
            s \<leftarrow> buffer_release b s;
            data_start \<leftarrow> add32 bmap_start 1;
            abs_block \<leftarrow> add32 data_start bit_idx;
            s \<leftarrow> zero_block abs_block s;
            Some (abs_block, st\<lparr>fs_b := s\<rparr>)
          })
   }"

definition bitmap_free :: "u32 \<Rightarrow> fs_state \<Rightarrow> fs_state option" where
  "bitmap_free block_no st = do {
     sb \<leftarrow> get_sb st;
     let bmap_start = sb_bmap_start sb;
     data_start \<leftarrow> add32 bmap_start 1;
     (if block_no < data_start then None
      else do {
        data_end \<leftarrow> add32 data_start (sb_nblocks sb);
        (if data_end \<le> block_no then None
         else do {
           let bit_idx = block_no - data_start;
           (b, s) \<leftarrow> buffer_read 0 bmap_start (fs_b st);
           d \<leftarrow> get_data b s;
           let byte_idx = bit_idx div 8;
           let bt = bit_idx mod 8;
           v \<leftarrow> block_byte d byte_idx;
           (if v AND bit_mask bt = 0 then None
            else do {
              s \<leftarrow> put_data b (d(byte_idx := v AND NOT (bit_mask bt))) s;
              s \<leftarrow> buffer_write b s;
              s \<leftarrow> buffer_release b s;
              Some (st\<lparr>fs_b := s\<rparr>)
            })
         })
      })
   }"

section \<open>The scan\<close>

definition bit_at :: "block \<Rightarrow> nat \<Rightarrow> bool" where
  "bit_at d k = bit (d (k div 8)) (k mod 8)"

lemma bit_bit_mask: "bit (bit_mask j) n \<longleftrightarrow> n = j \<and> n < 8"
  by (auto simp: bit_mask_def bit_simps)

lemma bit_mask_test: "j < 8 \<Longrightarrow> byte AND bit_mask j = 0 \<longleftrightarrow> \<not> bit byte j"
  by (auto simp: bit_eq_iff [of _ "0 :: u8"] bit_and_iff bit_bit_mask)

lemma scan_bits_first:
  "\<forall>j \<in> set js. j < 8 \<Longrightarrow> scan_bits byte js = List.find (\<lambda>j. \<not> bit byte j) js"
  by (induction js) (auto simp: bit_mask_test)

lemma byte_full: "byte \<noteq> 0xFF \<longleftrightarrow> (\<exists>j < 8. \<not> bit (byte :: u8) j)"
proof -
  have m: "(0xFF :: u8) = mask 8" by (simp add: mask_eq_exp_minus_1)
  have "byte = 0xFF \<longleftrightarrow> (\<forall>j < 8. bit byte j)" unfolding m by (auto simp: bit_eq_iff [of byte] bit_mask_iff)
  then show ?thesis by blast
qed

text \<open>The scan returns the first clear bit of the whole range.\<close>

definition first_clear :: "block \<Rightarrow> nat \<Rightarrow> nat \<Rightarrow> bool" where
  "first_clear d n k \<longleftrightarrow> k < n \<and> \<not> bit_at d k \<and> (\<forall>k' < k. bit_at d k')"

lemma find_upt: "List.find P [a..<b] = Some k \<longleftrightarrow> a \<le> k \<and> k < b \<and> P k \<and> (\<forall>k'. a \<le> k' \<and> k' < k \<longrightarrow> \<not> P k')"
proof (induction "b - a" arbitrary: a)
  case (Suc n)
  have e: "[a..<b] = a # [Suc a..<b]" using Suc(2) by (intro upt_conv_Cons) simp
  have IH: "List.find P [Suc a..<b] = Some k \<longleftrightarrow> Suc a \<le> k \<and> k < b \<and> P k \<and> (\<forall>k'. Suc a \<le> k' \<and> k' < k \<longrightarrow> \<not> P k')"
    using Suc(1) [of "Suc a"] Suc(2) by simp
  show ?case
  proof (cases "P a")
    case True
    then show ?thesis using Suc(2) e by (auto simp: not_less_eq_eq)
  next
    case False
    then show ?thesis using IH e by (auto simp: Suc_le_eq) (metis le_neq_implies_less)+
  qed
qed auto

lemma scan_bytes_find:
  "scan_bytes d is = map_option (\<lambda>i. (i, the (List.find (\<lambda>j. \<not> bit (d i) j) [0..<8]))) (List.find (\<lambda>i. \<exists>j < 8. \<not> bit (d i) j) is)"
proof (induction "is")
  case (Cons i ns)
  have sb: "scan_bits (d i) [0..<8] = List.find (\<lambda>j. \<not> bit (d i) j) [0..<8]" by (rule scan_bits_first) simp
  show ?case
  proof (cases "\<exists>j < 8. \<not> bit (d i) j")
    case True
    then have "List.find (\<lambda>j. \<not> bit (d i) j) [0..<8] \<noteq> None" unfolding find_None by auto
    then obtain j where "List.find (\<lambda>j. \<not> bit (d i) j) [0..<8] = Some j" by blast
    then show ?thesis using True sb by (simp add: byte_full del: upt.simps)
  next
    case False
    then have "d i = 0xFF" using byte_full by blast
    then show ?thesis using Cons False by simp
  qed
qed simp

lemma scan_bytes_Some:
  assumes "scan_bytes d [0..<BLOCK_SIZE] = Some (i, j)"
  shows "i < BLOCK_SIZE" "j < 8" "first_clear d (8 * BLOCK_SIZE) (i * 8 + j)"
proof -
  have fi: "List.find (\<lambda>i. \<exists>j < 8. \<not> bit (d i) j) [0..<BLOCK_SIZE] = Some i" and j: "j = the (List.find (\<lambda>j. \<not> bit (d i) j) [0..<8])"
    using assms unfolding scan_bytes_find by auto
  then have i: "i < BLOCK_SIZE" "\<exists>j < 8. \<not> bit (d i) j" "\<forall>i' < i. \<forall>j < 8. bit (d i') j" unfolding find_upt by auto
  then have "List.find (\<lambda>j. \<not> bit (d i) j) [0..<8] \<noteq> None" unfolding find_None by auto
  then have "List.find (\<lambda>j. \<not> bit (d i) j) [0..<8] = Some j" using j by auto
  then have jj: "j < 8" "\<not> bit (d i) j" "\<forall>j' < j. bit (d i) j'" unfolding find_upt by auto
  show "i < BLOCK_SIZE" "j < 8" by (rule i(1), rule jj(1))
  have "bit_at d k" if "k < i * 8 + j" for k
  proof (cases "k div 8 = i")
    case True
    then have "k mod 8 < j" using that by (metis add_less_cancel_left div_mult_mod_eq)
    then show ?thesis using True jj(3) by (simp add: bit_at_def)
  next
    case False
    then have "k div 8 < i" using that jj(1) by linarith
    then show ?thesis using i(3) by (simp add: bit_at_def)
  qed
  moreover have "\<not> bit_at d (i * 8 + j)" using jj by (simp add: bit_at_def)
  moreover have "i * 8 + j < 8 * BLOCK_SIZE" using i(1) jj(1) by simp
  ultimately show "first_clear d (8 * BLOCK_SIZE) (i * 8 + j)" by (simp add: first_clear_def)
qed

lemma scan_bytes_None: "scan_bytes d [0..<BLOCK_SIZE] = None \<longleftrightarrow> (\<forall>k < 8 * BLOCK_SIZE. bit_at d k)"
proof -
  have "scan_bytes d [0..<BLOCK_SIZE] = None \<longleftrightarrow> (\<forall>i < BLOCK_SIZE. \<forall>j < 8. bit (d i) j)"
    unfolding scan_bytes_find by (auto simp: find_None)
  also have "\<dots> \<longleftrightarrow> (\<forall>k < 8 * BLOCK_SIZE. bit_at d k)"
  proof (intro iffI allI impI)
    fix k assume "\<forall>i < BLOCK_SIZE. \<forall>j < 8. bit (d i) j" "k < 8 * BLOCK_SIZE"
    then show "bit_at d k" by (simp add: bit_at_def less_mult_imp_div_less mult.commute)
  next
    fix i j assume a: "\<forall>k < 8 * BLOCK_SIZE. bit_at d k" "i < BLOCK_SIZE" "j < (8 :: nat)"
    then have "i * 8 + j < 8 * BLOCK_SIZE" by simp
    then show "bit (d i) j" using a(1) a(3) by (fastforce simp: bit_at_def)
  qed
  finally show ?thesis .
qed

section \<open>Allocation and release\<close>

definition mark :: "nat \<Rightarrow> block \<Rightarrow> block" where
  "mark k d = d(k div 8 := d (k div 8) OR bit_mask (k mod 8))"

definition unmark :: "nat \<Rightarrow> block \<Rightarrow> block" where
  "unmark k d = d(k div 8 := d (k div 8) AND NOT (bit_mask (k mod 8)))"

lemma bit_at_mark: "bit_at (mark k d) k' \<longleftrightarrow> k' = k \<or> bit_at d k'"
proof -
  have "k' div 8 = k div 8 \<and> k' mod 8 = k mod 8 \<longleftrightarrow> k' = k" by (metis div_mult_mod_eq)
  then show ?thesis by (auto simp: bit_at_def mark_def bit_or_iff bit_bit_mask)
qed

lemma bit_at_unmark: "bit_at (unmark k d) k' \<longleftrightarrow> k' \<noteq> k \<and> bit_at d k'"
proof -
  have "k' div 8 = k div 8 \<and> k' mod 8 = k mod 8 \<longleftrightarrow> k' = k" by (metis div_mult_mod_eq)
  then show ?thesis by (auto simp: bit_at_def unmark_def bit_and_iff bit_not_iff bit_bit_mask)
qed

lemma unmark_mark: "\<not> bit_at d k \<Longrightarrow> unmark k (mark k d) = d"
proof -
  assume "\<not> bit_at d k"
  then have "(d (k div 8) OR bit_mask (k mod 8)) AND NOT (bit_mask (k mod 8)) = d (k div 8)"
    by (auto simp: bit_at_def bit_eq_iff [of _ "d (k div 8)"] bit_and_iff bit_or_iff bit_not_iff bit_bit_mask)
  then show ?thesis by (simp add: mark_def unmark_def)
qed

definition zeroed :: "block \<Rightarrow> block" where
  "zeroed d = (\<lambda>k. if k < BLOCK_SIZE then 0 else d k)"

lemma zero_block_spec:
  assumes "cache.free_for blk s"
  shows "\<exists>s'. zero_block blk s = Some s' \<and> buf_inv s' \<and> pin s' = pin s \<and> view s' = (view s)(blk := zeroed (view s blk)) \<and> unsaved s' = unsaved s"
proof -
  obtain i s1 s2 s3 s4 where m: "buffer_read 0 blk s = Some (i, s1)" "get_data i s1 = Some (view s blk)"
    "put_data i (zeroed (view s blk)) s1 = Some s2" "buffer_write i s2 = Some s3" "buffer_release i s3 = Some s4"
    "buf_inv s4" "pin s4 = pin s" "view s4 = (view s)(blk := zeroed (view s blk))" "unsaved s4 = unsaved s"
    using cache.modify [OF assms, of "zeroed (view s blk)"] by blast
  have "zero_block blk s = Some s4" using m(1-5) by (simp add: zero_block_def zeroed_def)
  then show ?thesis using m(6-9) by blast
qed

text \<open>A bitmap in place: the data area fits 32-bit block numbers, no caller holds the bitmap or a free data block.\<close>

definition bitmap_ok :: "super_block \<Rightarrow> bstate \<Rightarrow> bool" where
  "bitmap_ok sb s \<longleftrightarrow> buf_inv s \<and> card (dom (pin s)) < N_BUFFER \<and> pin s (sb_bmap_start sb) = None \<and>
     sb_bmap_start sb + 1 + sb_nblocks sb < 2 ^ 32 \<and>
     (\<forall>k < sb_nblocks sb. \<not> bit_at (view s (sb_bmap_start sb)) k \<longrightarrow> pin s (sb_bmap_start sb + 1 + k) = None)"

lemma bitmap_alloc_spec:
  assumes sb: "fs_sb st = Some sb" and ok: "bitmap_ok sb (fs_b st)" and bm: "bm = view (fs_b st) (sb_bmap_start sb)"
    and k: "first_clear bm (8 * BLOCK_SIZE) k" "k < sb_nblocks sb"
  shows "\<exists>s'. bitmap_alloc st = Some (sb_bmap_start sb + 1 + k, st\<lparr>fs_b := s'\<rparr>) \<and> buf_inv s' \<and> pin s' = pin (fs_b st) \<and>
    unsaved s' = unsaved (fs_b st) \<and>
    view s' = (view (fs_b st))(sb_bmap_start sb := mark k bm, sb_bmap_start sb + 1 + k := zeroed (view (fs_b st) (sb_bmap_start sb + 1 + k)))"
proof -
  let ?s = "fs_b st" and ?b = "sb_bmap_start sb"
  let ?a = "?b + 1 + k"
  have o: "buf_inv ?s" "card (dom (pin ?s)) < N_BUFFER" "pin ?s ?b = None" "?b + 1 + sb_nblocks sb < 2 ^ 32"
    using ok by (auto simp: bitmap_ok_def)
  have pa: "pin ?s ?a = None" using ok k bm by (auto simp: bitmap_ok_def first_clear_def)
  obtain i j where ij: "scan_bytes bm [0..<BLOCK_SIZE] = Some (i, j)"
    using scan_bytes_None [of bm] k(1) by (cases "scan_bytes bm [0..<BLOCK_SIZE]") (auto simp: first_clear_def)
  note sc = scan_bytes_Some [OF ij]
  have kij: "i * 8 + j = k" using sc(3) k(1) unfolding first_clear_def by (metis linorder_neqE_nat)
  then have dm: "k div 8 = i" "k mod 8 = j" using sc(2) by auto
  have mk: "bm(i := bm i OR bit_mask j) = mark k bm" by (simp add: mark_def dm)
  have "cache.free_for ?b ?s" using o by (simp add: cache.free_for_def)
  from cache.modify [OF this, of "mark k bm"]
  obtain b s1 s2 s3 s4 where m: "buffer_read 0 ?b ?s = Some (b, s1)" "get_data b s1 = Some bm" "put_data b (mark k bm) s1 = Some s2"
    "buffer_write b s2 = Some s3" "buffer_release b s3 = Some s4" "buf_inv s4" "pin s4 = pin ?s" "view s4 = (view ?s)(?b := mark k bm)" "unsaved s4 = unsaved ?s"
    unfolding bm by blast
  have "cache.free_for ?a s4" using m(6,7) o pa by (simp add: cache.free_for_def)
  from zero_block_spec [OF this] obtain s' where z: "zero_block ?a s4 = Some s'" "buf_inv s'" "pin s' = pin s4"
    "view s' = (view s4)(?a := zeroed (view s4 ?a))" "unsaved s' = unsaved s4" by blast
  have "add32 ?b 1 = Some (?b + 1)" "add32 (?b + 1) k = Some ?a" using o(4) k(2) by (simp_all add: cadd_def)
  then have "bitmap_alloc st = Some (?a, st\<lparr>fs_b := s'\<rparr>)"
    using sb m(1-5) ij kij k(2) z(1) mk by (simp add: bitmap_alloc_def get_sb_def Let_def)
  moreover have "view s' = (view ?s)(?b := mark k bm, ?a := zeroed (view ?s ?a))" using z(4) m(8) by simp
  ultimately show ?thesis using z m by auto
qed

lemma bitmap_free_spec:
  assumes sb: "fs_sb st = Some sb" and inv: "buf_inv (fs_b st)" "card (dom (pin (fs_b st))) < N_BUFFER" "pin (fs_b st) (sb_bmap_start sb) = None"
    and fit: "sb_bmap_start sb + 1 + sb_nblocks sb < 2 ^ 32"
    and bm: "bm = view (fs_b st) (sb_bmap_start sb)" and k: "k < sb_nblocks sb" "k < 8 * BLOCK_SIZE" "bit_at bm k"
  shows "\<exists>s'. bitmap_free (sb_bmap_start sb + 1 + k) st = Some (st\<lparr>fs_b := s'\<rparr>) \<and> buf_inv s' \<and> pin s' = pin (fs_b st) \<and>
    unsaved s' = unsaved (fs_b st) \<and> view s' = (view (fs_b st))(sb_bmap_start sb := unmark k bm)"
proof -
  let ?s = "fs_b st" and ?b = "sb_bmap_start sb"
  have "cache.free_for ?b ?s" using inv by (simp add: cache.free_for_def)
  from cache.modify [OF this, of "unmark k bm"]
  obtain b s1 s2 s3 s4 where m: "buffer_read 0 ?b ?s = Some (b, s1)" "get_data b s1 = Some bm" "put_data b (unmark k bm) s1 = Some s2"
    "buffer_write b s2 = Some s3" "buffer_release b s3 = Some s4" "buf_inv s4" "pin s4 = pin ?s" "view s4 = (view ?s)(?b := unmark k bm)" "unsaved s4 = unsaved ?s"
    unfolding bm by blast
  have byte: "block_byte bm (k div 8) = Some (bm (k div 8))" using k(2) by (simp add: block_byte_def less_mult_imp_div_less mult.commute)
  have set: "bm (k div 8) AND bit_mask (k mod 8) \<noteq> 0" using k(3) bit_mask_test [of "k mod 8" "bm (k div 8)"] by (simp add: bit_at_def)
  have "add32 ?b 1 = Some (?b + 1)" "add32 (?b + 1) (sb_nblocks sb) = Some (?b + 1 + sb_nblocks sb)" using fit by (simp_all add: cadd_def)
  then have "bitmap_free (?b + 1 + k) st = Some (st\<lparr>fs_b := s4\<rparr>)"
    using sb m(1-5) byte set k(1) by (simp add: bitmap_free_def get_sb_def Let_def unmark_def)
  then show ?thesis using m(6-9) by blast
qed

section \<open>Properties\<close>

lemma bitmap_alloc_full:
  assumes sb: "fs_sb st = Some sb" and ok: "bitmap_ok sb (fs_b st)" and bm: "bm = view (fs_b st) (sb_bmap_start sb)"
    and full: "\<not> (\<exists>k. first_clear bm (8 * BLOCK_SIZE) k \<and> k < sb_nblocks sb)"
  shows "bitmap_alloc st = None"
proof -
  let ?s = "fs_b st" and ?b = "sb_bmap_start sb"
  have "cache.free_for ?b ?s" using ok by (simp add: cache.free_for_def bitmap_ok_def)
  from cache.inspect [OF this] obtain b s1 where m: "buffer_read 0 ?b ?s = Some (b, s1)" "get_data b s1 = Some bm"
    unfolding bm by blast
  have "sb_nblocks sb \<le> i * 8 + j" if "scan_bytes bm [0..<BLOCK_SIZE] = Some (i, j)" for i j
    using scan_bytes_Some(3) [OF that] full by (meson not_le)
  then show ?thesis
    using sb m by (cases "scan_bytes bm [0..<BLOCK_SIZE]") (auto simp: bitmap_alloc_def get_sb_def Let_def)
qed

lemma first_clear_exists: "\<not> bit_at d k \<Longrightarrow> k < n \<Longrightarrow> \<exists>k'. first_clear d n k' \<and> k' \<le> k"
proof -
  assume a: "\<not> bit_at d k" "k < n"
  define m where "m = (LEAST k. \<not> bit_at d k)"
  have "\<not> bit_at d m" "m \<le> k" "\<forall>k' < m. bit_at d k'"
    unfolding m_def using a(1) by (rule LeastI, rule Least_le, metis not_less_Least)
  then show ?thesis using a(2) by (intro exI [of _ m]) (simp add: first_clear_def)
qed

text \<open>C21. Allocating a data block: \<open>alloc\<close> panics exactly when every block of the data area (up to the 32768 the
  one bitmap block covers) is taken. Otherwise it returns the lowest free block, which is marked as
  taken and filled with zeros; no other block changes, and the cache invariant is kept.\<close>

theorem bitmap_alloc_correct:
  assumes "fs_sb st = Some sb" and "bitmap_ok sb (fs_b st)" and "bm = view (fs_b st) (sb_bmap_start sb)"
  shows "case bitmap_alloc st of
      None \<Rightarrow> \<forall>k < min (sb_nblocks sb) (8 * BLOCK_SIZE). bit_at bm k
    | Some (blk, st') \<Rightarrow> \<exists>k s'. blk = sb_bmap_start sb + 1 + k \<and> first_clear bm (min (sb_nblocks sb) (8 * BLOCK_SIZE)) k \<and>
        st' = st\<lparr>fs_b := s'\<rparr> \<and> buf_inv s' \<and> pin s' = pin (fs_b st) \<and>
        view s' = (view (fs_b st))(sb_bmap_start sb := mark k bm, blk := zeroed (view (fs_b st) blk))"
proof (cases "\<exists>k. first_clear bm (8 * BLOCK_SIZE) k \<and> k < sb_nblocks sb")
  case True
  then obtain k where k: "first_clear bm (8 * BLOCK_SIZE) k" "k < sb_nblocks sb" by blast
  then have "first_clear bm (min (sb_nblocks sb) (8 * BLOCK_SIZE)) k" by (simp add: first_clear_def)
  then show ?thesis using bitmap_alloc_spec [OF assms k] by auto
next
  case False
  have "\<forall>k < min (sb_nblocks sb) (8 * BLOCK_SIZE). bit_at bm k"
  proof (intro allI impI, rule ccontr)
    fix k assume "k < min (sb_nblocks sb) (8 * BLOCK_SIZE)" "\<not> bit_at bm k"
    then show False using first_clear_exists [of bm k "8 * BLOCK_SIZE"] False by auto
  qed
  then show ?thesis using bitmap_alloc_full [OF assms False] by simp
qed

text \<open>A block that was allocated can be freed, which restores the bitmap; freeing it once more panics.\<close>

theorem bitmap_alloc_free:
  assumes sb: "fs_sb st = Some sb" and ok: "bitmap_ok sb (fs_b st)" and al: "bitmap_alloc st = Some (blk, st1)"
  shows "\<exists>st2. bitmap_free blk st1 = Some st2 \<and>
    view (fs_b st2) (sb_bmap_start sb) = view (fs_b st) (sb_bmap_start sb) \<and> bitmap_free blk st2 = None"
proof -
  let ?b = "sb_bmap_start sb"
  define bm where "bm = view (fs_b st) ?b"
  obtain k where k: "first_clear bm (8 * BLOCK_SIZE) k" "k < sb_nblocks sb"
    using bitmap_alloc_full [OF sb ok bm_def] al by auto
  from bitmap_alloc_spec [OF sb ok bm_def k] al obtain s1 where s1: "blk = ?b + 1 + k" "st1 = st\<lparr>fs_b := s1\<rparr>" "buf_inv s1" "pin s1 = pin (fs_b st)"
    "view s1 = (view (fs_b st))(?b := mark k bm, ?b + 1 + k := zeroed (view (fs_b st) (?b + 1 + k)))" by auto
  have o: "card (dom (pin (fs_b st))) < N_BUFFER" "pin (fs_b st) ?b = None" "?b + 1 + sb_nblocks sb < 2 ^ 32" using ok by (auto simp: bitmap_ok_def)
  have k8: "k < 8 * BLOCK_SIZE" "\<not> bit_at bm k" using k(1) by (auto simp: first_clear_def)
  have v1: "mark k bm = view (fs_b st1) ?b" using s1(2,5) by simp
  obtain s2 where s2: "bitmap_free blk st1 = Some (st1\<lparr>fs_b := s2\<rparr>)" "buf_inv s2" "pin s2 = pin s1" "view s2 = (view s1)(?b := unmark k (mark k bm))"
    using bitmap_free_spec [of st1 sb, OF _ _ _ _ o(3) v1 k(2) k8(1)] sb s1 o bit_at_mark [of k bm k] by auto
  have v2: "view s2 ?b = bm" using s2(4) unmark_mark [OF k8(2)] by simp
  have "cache.free_for ?b s2" using s2(2,3) s1(4) o by (simp add: cache.free_for_def)
  from cache.inspect [OF this] obtain b s3 where m: "buffer_read 0 ?b s2 = Some (b, s3)" "get_data b s3 = Some bm" using v2 by auto
  have "bm (k div 8) AND bit_mask (k mod 8) = 0" using k8(2) bit_mask_test [of "k mod 8" "bm (k div 8)"] by (simp add: bit_at_def)
  then have "bitmap_free blk (st1\<lparr>fs_b := s2\<rparr>) = None"
    using sb s1(1,2) m o(3) k(2) by (simp add: bitmap_free_def get_sb_def Let_def block_byte_def cadd_def)
  then show ?thesis using s2(1) v2 bm_def by auto
qed

definition bitmap_example :: fs_state where
  "bitmap_example = \<lparr>fs_sb = Some \<lparr>sb_magic = MAGIC, sb_size = 110, sb_nblocks = 100, sb_ninodes = 64, sb_inode_start = 2, sb_bmap_start = 3\<rparr>,
     fs_b = buffer_init \<lparr>bs_cache = LRUCache_new, bs_disk = \<lambda>_ _. 0\<rparr>\<rparr>"

lemma bitmap_example_ok: "fs_sb bitmap_example = Some sb \<Longrightarrow> bitmap_ok sb (fs_b bitmap_example)" "view (fs_b bitmap_example) = (\<lambda>_ _. 0)"
proof -
  have "buf_inv (fs_b bitmap_example)" using buffer_init_inv unfolding buf_inv_def bitmap_example_def by auto
  then show "fs_sb bitmap_example = Some sb \<Longrightarrow> bitmap_ok sb (fs_b bitmap_example)"
    by (auto simp: bitmap_ok_def bitmap_example_def buffer_init_pin N_BUFFER_def)
  show "view (fs_b bitmap_example) = (\<lambda>_ _. 0)"
    by (simp add: view_def bitmap_example_def buffer_init_pin fun_eq_iff) (simp add: buffer_init_def)
qed

lemma bitmap_example_alloc: "\<exists>st'. bitmap_alloc bitmap_example = Some (4, st')"
proof -
  obtain sb where sb: "fs_sb bitmap_example = Some sb" "sb_bmap_start sb = 3" "sb_nblocks sb = 100" by (simp add: bitmap_example_def)
  have "first_clear (view (fs_b bitmap_example) (sb_bmap_start sb)) (8 * BLOCK_SIZE) 0"
    by (simp add: bitmap_example_ok(2) first_clear_def bit_at_def BLOCK_SIZE_def)
  from bitmap_alloc_spec [OF sb(1) bitmap_example_ok(1) [OF sb(1)] refl this] show ?thesis using sb by auto
qed

theorem bitmap_alloc_correct_witness: "\<exists>st'. bitmap_alloc bitmap_example = Some (4, st') \<and> bit_at (view (fs_b st') 3) 0"
proof -
  obtain sb where sb: "fs_sb bitmap_example = Some sb" "sb_bmap_start sb = 3" "sb_nblocks sb = 100" by (simp add: bitmap_example_def)
  obtain st' where st': "bitmap_alloc bitmap_example = Some (4, st')" using bitmap_example_alloc by blast
  from bitmap_alloc_correct [OF sb(1) bitmap_example_ok(1) [OF sb(1)] refl] st' sb(2)
  show ?thesis by (auto simp: bit_at_mark)
qed

theorem bitmap_alloc_free_witness:
  "\<exists>st1 st2. bitmap_alloc bitmap_example = Some (4, st1) \<and> bitmap_free 4 st1 = Some st2 \<and> bitmap_free 4 st2 = None"
proof -
  obtain sb where sb: "fs_sb bitmap_example = Some sb" by (simp add: bitmap_example_def)
  obtain st' where st': "bitmap_alloc bitmap_example = Some (4, st')" using bitmap_example_alloc by blast
  then show ?thesis using bitmap_alloc_free [OF sb bitmap_example_ok(1) [OF sb] st'] by blast
qed

end
