(* ===== verification/Inode.thy ===== *)
theory Inode
  imports Bitmap
begin

text \<open>
  Inodes (\<^verbatim>\<open>fs/inode.rs\<close>): the 64-byte structure on disk, the cache of 50 inodes, the mapping from file
  blocks to disk blocks (ten direct, one indirect and one doubly indirect entry), and reading and
  writing of file data. A reference to a cached inode is its slot in the cache. The per-inode locks and
  the lock of the cache do not appear: the operations run one after the other. Copies through raw
  pointers beyond the end of a slice are \<open>None\<close>.
\<close>

section \<open>State\<close>

definition ROOT_INODE :: u32 where "ROOT_INODE = 0"
definition INODE_TYPE_DIR :: u16 where "INODE_TYPE_DIR = 1"
definition INODE_TYPE_DATA :: u16 where "INODE_TYPE_DATA = 2"
definition INODE_INDEX_1 :: usize where "INODE_INDEX_1 = 10"
definition INODE_INDEX_2 :: usize where "INODE_INDEX_2 = 12"
definition INODE_INDEX_3 :: usize where "INODE_INDEX_3 = 13"
definition NINDIRECT :: usize where "NINDIRECT = BLOCK_SIZE div 4"
definition MAXLEN_FILENAME :: usize where "MAXLEN_FILENAME = 60"
definition N_INODE :: usize where "N_INODE = 50"

record inode_disk =
  id_type :: u16
  id_major :: u16
  id_minor :: u16
  id_nlink :: u16
  id_size :: u32
  id_index :: "u32 list"

record inode =
  in_disk :: inode_disk
  in_valid :: bool
  in_num :: u32
  in_refcnt :: u32

definition Inode_new :: inode where
  "Inode_new = \<lparr>in_disk = \<lparr>id_type = 0, id_major = 0, id_minor = 0, id_nlink = 0, id_size = 0, id_index = replicate INODE_INDEX_3 0\<rparr>,
     in_valid = False, in_num = 0, in_refcnt = 0\<rparr>"

record ifs =
  i_fs :: fs_state
  i_cache :: "nat \<Rightarrow> inode"

abbreviation ibuf :: "ifs \<Rightarrow> bstate" where
  "ibuf st \<equiv> fs_b (i_fs st)"

definition set_ibuf :: "bstate \<Rightarrow> ifs \<Rightarrow> ifs" where
  "set_ibuf s st = st\<lparr>i_fs := (i_fs st)\<lparr>fs_b := s\<rparr>\<rparr>"

text \<open>A write through a reference to the inode in a slot.\<close>

definition upd_inode :: "nat \<Rightarrow> (inode \<Rightarrow> inode) \<Rightarrow> ifs \<Rightarrow> ifs" where
  "upd_inode i f st = st\<lparr>i_cache := (i_cache st)(i := f (i_cache st i))\<rparr>"

definition upd_disk :: "nat \<Rightarrow> (inode_disk \<Rightarrow> inode_disk) \<Rightarrow> ifs \<Rightarrow> ifs" where
  "upd_disk i f st = upd_inode i (\<lambda>n. n\<lparr>in_disk := f (in_disk n)\<rparr>) st"

text \<open>The representation of an inode on disk: \<open>#[repr(C)]\<close>, little-endian.\<close>

definition SIZE_INODE_DISK :: usize where "SIZE_INODE_DISK = 64"

definition encode_inode :: "inode_disk \<Rightarrow> u8 list" where
  "encode_inode n = le_bytes 2 (id_type n) @ le_bytes 2 (id_major n) @ le_bytes 2 (id_minor n) @ le_bytes 2 (id_nlink n) @
     le_bytes 4 (id_size n) @ concat (map (le_bytes 4) (id_index n))"

definition decode_inode :: "u8 list \<Rightarrow> inode_disk" where
  "decode_inode bs = \<lparr>id_type = le_val (take 2 bs), id_major = le_val (take 2 (drop 2 bs)), id_minor = le_val (take 2 (drop 4 bs)),
     id_nlink = le_val (take 2 (drop 6 bs)), id_size = le_val (take 4 (drop 8 bs)),
     id_index = map (\<lambda>k. le_val (take 4 (drop (12 + 4 * k) bs))) [0..<INODE_INDEX_3]\<rparr>"

section \<open>Inode bitmap\<close>

definition inode_alloc :: "ifs \<Rightarrow> (u32 \<times> ifs) option" where
  "inode_alloc st = do {
     sb \<leftarrow> get_sb (i_fs st);
     ibmap_block \<leftarrow> csub (sb_inode_start sb) 1;
     (b, s) \<leftarrow> buffer_read 0 ibmap_block (ibuf st);
     d \<leftarrow> get_data b s;
     (case scan_bytes d [0..<BLOCK_SIZE] of
        None \<Rightarrow> None
      | Some (i, j) \<Rightarrow>
          let bit_idx = i * 8 + j in
          if sb_ninodes sb \<le> bit_idx then None
          else do {
            s \<leftarrow> put_data b (d(i := d i OR bit_mask j)) s;
            s \<leftarrow> buffer_write b s;
            s \<leftarrow> buffer_release b s;
            Some (bit_idx, set_ibuf s st)
          })
   }"

definition inode_free :: "u32 \<Rightarrow> ifs \<Rightarrow> ifs option" where
  "inode_free inode_idx st = do {
     sb \<leftarrow> get_sb (i_fs st);
     ibmap_block \<leftarrow> csub (sb_inode_start sb) 1;
     (b, s) \<leftarrow> buffer_read 0 ibmap_block (ibuf st);
     d \<leftarrow> get_data b s;
     let byte_idx = inode_idx div 8;
     let bt = inode_idx mod 8;
     v \<leftarrow> block_byte d byte_idx;
     (if v AND bit_mask bt = 0 then None
      else do {
        s \<leftarrow> put_data b (d(byte_idx := v AND NOT (bit_mask bt))) s;
        s \<leftarrow> buffer_write b s;
        s \<leftarrow> buffer_release b s;
        Some (set_ibuf s st)
      })
   }"

section \<open>Transfer of an inode\<close>

definition inode_rw :: "nat \<Rightarrow> bool \<Rightarrow> ifs \<Rightarrow> ifs option" where
  "inode_rw i write st = do {
     sb \<leftarrow> get_sb (i_fs st);
     let ipb = BLOCK_SIZE div SIZE_INODE_DISK;
     blk \<leftarrow> add32 (sb_inode_start sb) (in_num (i_cache st i) div ipb);
     let offset = in_num (i_cache st i) mod ipb * SIZE_INODE_DISK;
     (b, s) \<leftarrow> buffer_read 0 blk (ibuf st);
     d \<leftarrow> get_data b s;
     (if write then do {
        s \<leftarrow> put_data b (store d offset (encode_inode (in_disk (i_cache st i)))) s;
        s \<leftarrow> buffer_write b s;
        s \<leftarrow> buffer_release b s;
        Some (set_ibuf s st)
      }
      else do {
        s \<leftarrow> buffer_release b s;
        Some (upd_disk i (\<lambda>_. decode_inode (load d offset SIZE_INODE_DISK)) (set_ibuf s st))
      })
   }"

section \<open>Blocks of a file\<close>

definition inode_bitmap_alloc :: "ifs \<Rightarrow> (u32 \<times> ifs) option" where
  "inode_bitmap_alloc st = do {
     (blk, f) \<leftarrow> bitmap_alloc (i_fs st);
     Some (blk, st\<lparr>i_fs := f\<rparr>)
   }"

definition inode_bitmap_free :: "u32 \<Rightarrow> ifs \<Rightarrow> ifs option" where
  "inode_bitmap_free blk st = do {
     f \<leftarrow> bitmap_free blk (i_fs st);
     Some (st\<lparr>i_fs := f\<rparr>)
   }"

text \<open>The block in entry \<open>idx\<close> of the inode's index, allocated first when it is missing and \<open>grow\<close> is set.\<close>

definition index_block :: "nat \<Rightarrow> nat \<Rightarrow> bool \<Rightarrow> ifs \<Rightarrow> (u32 option \<times> ifs) option" where
  "index_block i idx grow st = (
     let blk = id_index (in_disk (i_cache st i)) ! idx in
     if blk \<noteq> 0 then Some (Some blk, st)
     else if \<not> grow then Some (None, st)
     else do {
       (blk, st) \<leftarrow> inode_bitmap_alloc st;
       let st = upd_disk i (\<lambda>d. d\<lparr>id_index := (id_index d)[idx := blk]\<rparr>) st;
       st \<leftarrow> inode_rw i True st;
       Some (Some blk, st)
     })"

text \<open>The block in entry \<open>k\<close> of an indirect block, allocated first when it is missing and \<open>grow\<close> is set.\<close>

definition indirect_block :: "u32 \<Rightarrow> nat \<Rightarrow> bool \<Rightarrow> ifs \<Rightarrow> (u32 option \<times> ifs) option" where
  "indirect_block tbl k grow st = do {
     (b, s) \<leftarrow> buffer_read 0 tbl (ibuf st);
     d \<leftarrow> get_data b s;
     let blk = read_u32 d (4 * k);
     (if blk \<noteq> 0 then do {
        s \<leftarrow> buffer_release b s;
        Some (Some blk, set_ibuf s st)
      }
      else if \<not> grow then do {
        s \<leftarrow> buffer_release b s;
        Some (None, set_ibuf s st)
      }
      else do {
        (blk, st) \<leftarrow> inode_bitmap_alloc (set_ibuf s st);
        d \<leftarrow> get_data b (ibuf st);
        s \<leftarrow> put_data b (store d (4 * k) (le_bytes 4 blk)) (ibuf st);
        s \<leftarrow> buffer_write b s;
        s \<leftarrow> buffer_release b s;
        Some (Some blk, set_ibuf s st)
      })
   }"

definition locate_or_add_block :: "nat \<Rightarrow> u32 \<Rightarrow> bool \<Rightarrow> ifs \<Rightarrow> (u32 option \<times> ifs) option" where
  "locate_or_add_block i lbn grow st =
     (if lbn < INODE_INDEX_1 then index_block i lbn grow st
      else let lbn = lbn - INODE_INDEX_1 in
      if lbn < NINDIRECT then do {
        (r, st) \<leftarrow> index_block i INODE_INDEX_1 grow st;
        (case r of None \<Rightarrow> Some (None, st) | Some tbl \<Rightarrow> indirect_block tbl lbn grow st)
      }
      else let lbn = lbn - NINDIRECT in
      if lbn < NINDIRECT * NINDIRECT then do {
        (r, st) \<leftarrow> index_block i INODE_INDEX_2 grow st;
        (case r of
           None \<Rightarrow> Some (None, st)
         | Some l1 \<Rightarrow> do {
             (r, st) \<leftarrow> indirect_block l1 (lbn div NINDIRECT) grow st;
             (case r of None \<Rightarrow> Some (None, st) | Some l2 \<Rightarrow> indirect_block l2 (lbn mod NINDIRECT) grow st)
           })
      }
      else None)"

section \<open>Freeing the blocks\<close>

text \<open>Free the blocks of the entries \<open>ks\<close> of a table that are not null.\<close>

fun free_entries :: "block \<Rightarrow> nat list \<Rightarrow> ifs \<Rightarrow> ifs option" where
  "free_entries d [] st = Some st"
| "free_entries d (k # ks) st = do {
     let blk = read_u32 d (4 * k);
     st \<leftarrow> (if blk \<noteq> 0 then inode_bitmap_free blk st else Some st);
     free_entries d ks st
   }"

definition free_indirect :: "u32 \<Rightarrow> ifs \<Rightarrow> ifs option" where
  "free_indirect tbl st = do {
     (b, s) \<leftarrow> buffer_read 0 tbl (ibuf st);
     d \<leftarrow> get_data b s;
     st \<leftarrow> free_entries d [0..<NINDIRECT] (set_ibuf s st);
     s \<leftarrow> buffer_release b (ibuf st);
     inode_bitmap_free tbl (set_ibuf s st)
   }"

fun free_direct :: "nat \<Rightarrow> nat list \<Rightarrow> ifs \<Rightarrow> ifs option" where
  "free_direct i [] st = Some st"
| "free_direct i (k # ks) st = do {
     let blk = id_index (in_disk (i_cache st i)) ! k;
     st \<leftarrow> (if blk \<noteq> 0 then do {
               st \<leftarrow> inode_bitmap_free blk st;
               Some (upd_disk i (\<lambda>d. d\<lparr>id_index := (id_index d)[k := 0]\<rparr>) st)
             } else Some st);
     free_direct i ks st
   }"

fun free_tables :: "block \<Rightarrow> nat list \<Rightarrow> ifs \<Rightarrow> ifs option" where
  "free_tables d [] st = Some st"
| "free_tables d (k # ks) st = do {
     let l2 = read_u32 d (4 * k);
     st \<leftarrow> (if l2 \<noteq> 0 then free_indirect l2 st else Some st);
     free_tables d ks st
   }"

definition free_data_blocks :: "nat \<Rightarrow> ifs \<Rightarrow> ifs option" where
  "free_data_blocks i st = do {
     st \<leftarrow> free_direct i [0..<INODE_INDEX_1] st;
     let tbl = id_index (in_disk (i_cache st i)) ! INODE_INDEX_1;
     st \<leftarrow> (if tbl \<noteq> 0 then do {
               st \<leftarrow> free_indirect tbl st;
               Some (upd_disk i (\<lambda>d. d\<lparr>id_index := (id_index d)[INODE_INDEX_1 := 0]\<rparr>) st)
             } else Some st);
     let l1 = id_index (in_disk (i_cache st i)) ! INODE_INDEX_2;
     (if l1 \<noteq> 0 then do {
        (b, s) \<leftarrow> buffer_read 0 l1 (ibuf st);
        d \<leftarrow> get_data b s;
        st \<leftarrow> free_tables d [0..<NINDIRECT] (set_ibuf s st);
        s \<leftarrow> buffer_release b (ibuf st);
        st \<leftarrow> inode_bitmap_free l1 (set_ibuf s st);
        Some (upd_disk i (\<lambda>d. d\<lparr>id_index := (id_index d)[INODE_INDEX_2 := 0]\<rparr>) st)
      } else Some st)
   }"

section \<open>The inode cache\<close>

definition inode_get :: "u32 \<Rightarrow> ifs \<Rightarrow> (nat \<times> ifs) option" where
  "inode_get inum st =
     (case List.find (\<lambda>i. 0 < in_refcnt (i_cache st i) \<and> in_num (i_cache st i) = inum \<and> in_valid (i_cache st i)) [0..<N_INODE] of
        Some i \<Rightarrow> do {
          r \<leftarrow> add32 (in_refcnt (i_cache st i)) 1;
          Some (i, upd_inode i (\<lambda>n. n\<lparr>in_refcnt := r\<rparr>) st)
        }
      | None \<Rightarrow>
          (case List.find (\<lambda>i. in_refcnt (i_cache st i) = 0) [0..<N_INODE] of
             None \<Rightarrow> None
           | Some i \<Rightarrow> do {
               st \<leftarrow> inode_rw i False (upd_inode i (\<lambda>n. n\<lparr>in_num := inum, in_valid := False, in_refcnt := 1\<rparr>) st);
               Some (i, upd_inode i (\<lambda>n. n\<lparr>in_valid := True\<rparr>) st)
             }))"

definition inode_dup :: "nat \<Rightarrow> ifs \<Rightarrow> ifs option" where
  "inode_dup i st = do {
     r \<leftarrow> add32 (in_refcnt (i_cache st i)) 1;
     Some (upd_inode i (\<lambda>n. n\<lparr>in_refcnt := r\<rparr>) st)
   }"

definition inode_put :: "nat \<Rightarrow> ifs \<Rightarrow> ifs option" where
  "inode_put i st =
     (if in_refcnt (i_cache st i) = 0 then None
      else let st = upd_inode i (\<lambda>n. n\<lparr>in_refcnt := in_refcnt n - 1\<rparr>) st in
      if in_refcnt (i_cache st i) = 0 \<and> id_nlink (in_disk (i_cache st i)) = 0 then do {
        let current_inum = in_num (i_cache st i);
        st \<leftarrow> free_data_blocks i st;
        st \<leftarrow> inode_free current_inum st;
        let st = upd_disk i (\<lambda>d. d\<lparr>id_size := 0, id_type := 0\<rparr>) st;
        st \<leftarrow> inode_rw i True st;
        Some (upd_inode i (\<lambda>n. n\<lparr>in_valid := False, in_num := 0\<rparr>) st)
      }
      else Some st)"

definition inode_create :: "u16 \<Rightarrow> u16 \<Rightarrow> u16 \<Rightarrow> ifs \<Rightarrow> (nat \<times> ifs) option" where
  "inode_create type major minor st = do {
     (inum, st) \<leftarrow> inode_alloc st;
     (i, st) \<leftarrow> inode_get inum st;
     let st = upd_disk i (\<lambda>_. \<lparr>id_type = type, id_major = major, id_minor = minor, id_nlink = 1, id_size = 0,
       id_index = replicate INODE_INDEX_3 0\<rparr>) st;
     st \<leftarrow> inode_rw i True st;
     Some (i, st)
   }"

section \<open>File data\<close>

text \<open>The bytes of one step of a transfer: to the end of the block or of the range.\<close>

definition copy_len :: "u32 \<Rightarrow> u32 \<Rightarrow> nat option" where
  "copy_len off end' = do {
     let n = BLOCK_SIZE - off mod BLOCK_SIZE;
     e \<leftarrow> add32 off n;
     Some (if end' < e then end' - off else n)
   }"

definition slice_write :: "u8 list \<Rightarrow> nat \<Rightarrow> u8 list \<Rightarrow> u8 list option" where
  "slice_write dst i bs = (if i + length bs \<le> length dst then Some (take i dst @ bs @ drop (i + length bs) dst) else None)"

lemma copy_len_pos: "copy_len off end' = Some n \<Longrightarrow> off < end' \<Longrightarrow> 0 < n"
  by (auto simp: copy_len_def panic_simps BLOCK_SIZE_def Let_def split: if_splits)

function read_loop :: "nat \<Rightarrow> u32 \<Rightarrow> u32 \<Rightarrow> u8 list \<Rightarrow> nat \<Rightarrow> ifs \<Rightarrow> (u8 list \<times> ifs) option" where
  "read_loop i off end' dst dst_off st =
     (if end' \<le> off then Some (dst, st)
      else case copy_len off end' of
        None \<Rightarrow> None
      | Some n \<Rightarrow> Option.bind (locate_or_add_block i (off div BLOCK_SIZE) False st) (\<lambda>(r, st).
          Option.bind (case r of
              Some blk \<Rightarrow> do {
                (b, s) \<leftarrow> buffer_read 0 blk (ibuf st);
                d \<leftarrow> get_data b s;
                s \<leftarrow> buffer_release b s;
                Some (load d (off mod BLOCK_SIZE) n, set_ibuf s st)
              }
            | None \<Rightarrow> Some (replicate n 0, st)) (\<lambda>(bs, st).
          Option.bind (slice_write dst dst_off bs) (\<lambda>dst.
            read_loop i (off + n) end' dst (dst_off + n) st))))"
  by pat_completeness auto
termination
  by (relation "measure (\<lambda>(_, off, end', _). end' - off)") (auto dest: copy_len_pos)

declare read_loop.simps [simp del]

definition inode_read_data :: "nat \<Rightarrow> u32 \<Rightarrow> u32 \<Rightarrow> u8 list \<Rightarrow> ifs \<Rightarrow> (u32 \<times> u8 list \<times> ifs) option" where
  "inode_read_data i off len dst st = (
     let sz = id_size (in_disk (i_cache st i)) in
     if sz \<le> off then Some (0, dst, st)
     else do {
       e \<leftarrow> add32 off len;
       let len = (if sz < e then sz - off else len);
       end' \<leftarrow> add32 off len;
       (dst, st) \<leftarrow> read_loop i off end' dst 0 st;
       Some (len, dst, st)
     })"

function write_loop :: "nat \<Rightarrow> u32 \<Rightarrow> u32 \<Rightarrow> u8 list \<Rightarrow> nat \<Rightarrow> ifs \<Rightarrow> ifs option" where
  "write_loop i off end' src src_off st =
     (if end' \<le> off then Some st
      else case copy_len off end' of
        None \<Rightarrow> None
      | Some n \<Rightarrow> Option.bind (locate_or_add_block i (off div BLOCK_SIZE) True st) (\<lambda>(r, st).
          Option.bind r (\<lambda>blk.
          if length src < src_off + n then None
          else Option.bind (do {
              (b, s) \<leftarrow> buffer_read 0 blk (ibuf st);
              d \<leftarrow> get_data b s;
              s \<leftarrow> put_data b (store d (off mod BLOCK_SIZE) (take n (drop src_off src))) s;
              s \<leftarrow> buffer_write b s;
              buffer_release b s
            }) (\<lambda>s. write_loop i (off + n) end' src (src_off + n) (set_ibuf s st)))))"
  by pat_completeness auto
termination
  by (relation "measure (\<lambda>(_, off, end', _). end' - off)") (auto dest: copy_len_pos)

declare write_loop.simps [simp del]

definition inode_write_data :: "nat \<Rightarrow> u32 \<Rightarrow> u32 \<Rightarrow> u8 list \<Rightarrow> ifs \<Rightarrow> (u32 \<times> ifs) option" where
  "inode_write_data i off len src st = do {
     end' \<leftarrow> add32 off len;
     st \<leftarrow> write_loop i off end' src 0 st;
     (if id_size (in_disk (i_cache st i)) < end' then do {
        st \<leftarrow> inode_rw i True (upd_disk i (\<lambda>d. d\<lparr>id_size := end'\<rparr>) st);
        Some (len, st)
      }
      else Some (len, st))
   }"

section \<open>The inode on disk\<close>

definition inode_disk_wf :: "inode_disk \<Rightarrow> bool" where
  "inode_disk_wf n \<longleftrightarrow> id_type n < 2 ^ 16 \<and> id_major n < 2 ^ 16 \<and> id_minor n < 2 ^ 16 \<and> id_nlink n < 2 ^ 16 \<and>
     id_size n < 2 ^ 32 \<and> length (id_index n) = INODE_INDEX_3 \<and> (\<forall>b \<in> set (id_index n). b < 2 ^ 32)"

lemma length_concat_le: "length (concat (map (le_bytes 4) xs)) = 4 * length xs"
  by (induction xs) auto

lemma concat_le_entry: "k < length xs \<Longrightarrow> take 4 (drop (4 * k) (concat (map (le_bytes 4) xs))) = le_bytes 4 (xs ! k)"
proof (induction xs arbitrary: k)
  case (Cons x xs)
  show ?case
  proof (cases k)
    case (Suc k')
    then show ?thesis using Cons by simp
  qed simp
qed simp

lemma le_val_short: "v < 256 ^ n \<Longrightarrow> le_val (le_bytes n v) = v"
  by (simp add: le_val_le_bytes)

lemma length_encode: "length (id_index n) = INODE_INDEX_3 \<Longrightarrow> length (encode_inode n) = SIZE_INODE_DISK"
  by (simp add: encode_inode_def length_concat_le INODE_INDEX_3_def SIZE_INODE_DISK_def del: le_bytes.simps)

lemma inode_codec_eq:
  assumes "inode_disk_wf n"
  shows "length (encode_inode n) = SIZE_INODE_DISK \<and> decode_inode (encode_inode n) = n"
proof -
  have w: "id_type n < 256 ^ 2" "id_major n < 256 ^ 2" "id_minor n < 256 ^ 2" "id_nlink n < 256 ^ 2" "id_size n < 256 ^ 4"
    "length (id_index n) = INODE_INDEX_3" "\<forall>b \<in> set (id_index n). b < 256 ^ 4"
    using assms by (auto simp: inode_disk_wf_def)
  have e: "drop (12 + 4 * k) (encode_inode n) = drop (4 * k) (concat (map (le_bytes 4) (id_index n)))" for k
    by (simp add: encode_inode_def del: le_bytes.simps)
  have "map (\<lambda>k. le_val (take 4 (drop (12 + 4 * k) (encode_inode n)))) [0..<INODE_INDEX_3] = id_index n"
  proof (rule nth_equalityI)
    fix k assume "k < length (map (\<lambda>k. le_val (take 4 (drop (12 + 4 * k) (encode_inode n)))) [0..<INODE_INDEX_3])"
    then have k: "k < length (id_index n)" using w(6) by simp
    then have "id_index n ! k < 256 ^ 4" using w(7) nth_mem by blast
    then show "map (\<lambda>k. le_val (take 4 (drop (12 + 4 * k) (encode_inode n)))) [0..<INODE_INDEX_3] ! k = id_index n ! k"
      using k w(6) concat_le_entry [OF k] le_val_short [of "id_index n ! k" 4] by (simp add: e del: le_bytes.simps)
  qed (use w(6) in simp)
  moreover have "le_val (take 2 (encode_inode n)) = id_type n" "le_val (take 2 (drop 2 (encode_inode n))) = id_major n"
    "le_val (take 2 (drop 4 (encode_inode n))) = id_minor n" "le_val (take 2 (drop 6 (encode_inode n))) = id_nlink n"
    "le_val (take 4 (drop 8 (encode_inode n))) = id_size n"
    using w(1-5) by (simp_all add: encode_inode_def le_val_short del: le_bytes.simps)
  ultimately show ?thesis using length_encode [OF w(6)] by (simp add: decode_inode_def)
qed

text \<open>The on-disk form of an inode: it has 64 bytes, and decoding what was encoded gives the inode back.\<close>

theorem inode_codec:
  assumes "inode_disk_wf n"
  shows "length (encode_inode n) = SIZE_INODE_DISK \<and> decode_inode (encode_inode n) = n"
  using inode_codec_eq [OF assms] .

theorem inode_codec_witness:
  "decode_inode (encode_inode \<lparr>id_type = 2, id_major = 0, id_minor = 0, id_nlink = 1, id_size = 5000, id_index = replicate INODE_INDEX_3 77\<rparr>) =
    \<lparr>id_type = 2, id_major = 0, id_minor = 0, id_nlink = 1, id_size = 5000, id_index = replicate INODE_INDEX_3 77\<rparr>"
  by (rule inode_codec [THEN conjunct2]) (simp add: inode_disk_wf_def)

section \<open>Reading a file\<close>

text \<open>Where the blocks of a file are, read from the inode and the content of the indirect blocks.\<close>

definition non_zero :: "u32 \<Rightarrow> u32 option" where
  "non_zero b = (if b = 0 then None else Some b)"

lemma non_zero_simps [simp]: "non_zero 0 = None" "0 < b \<Longrightarrow> non_zero b = Some b"
  by (simp_all add: non_zero_def)

definition file_block :: "inode_disk \<Rightarrow> (u32 \<Rightarrow> block) \<Rightarrow> nat \<Rightarrow> u32 option" where
  "file_block n v lbn =
     (if lbn < 10 then non_zero (id_index n ! lbn)
      else if lbn < 1034 then do { t \<leftarrow> non_zero (id_index n ! 10); non_zero (read_u32 (v t) (4 * (lbn - 10))) }
      else do {
        t \<leftarrow> non_zero (id_index n ! 12);
        u \<leftarrow> non_zero (read_u32 (v t) (4 * ((lbn - 1034) div 1024)));
        non_zero (read_u32 (v u) (4 * ((lbn - 1034) mod 1024)))
      })"

definition file_byte :: "inode_disk \<Rightarrow> (u32 \<Rightarrow> block) \<Rightarrow> nat \<Rightarrow> u8" where
  "file_byte n v off = (case file_block n v (off div BLOCK_SIZE) of None \<Rightarrow> 0 | Some b \<Rightarrow> v b (off mod BLOCK_SIZE))"

definition quiet :: "ifs \<Rightarrow> bool" where
  "quiet st \<longleftrightarrow> buf_inv (ibuf st) \<and> pin (ibuf st) = (\<lambda>_. None)"

text \<open>The file system as its users see it is the same; only the cache of buffers may have moved.\<close>

definition same_files :: "ifs \<Rightarrow> ifs \<Rightarrow> bool" where
  "same_files st st' \<longleftrightarrow> quiet st' \<and> view (ibuf st') = view (ibuf st) \<and> i_cache st' = i_cache st \<and> fs_sb (i_fs st') = fs_sb (i_fs st)"

lemma same_files_refl: "quiet st \<Longrightarrow> same_files st st"
  by (simp add: same_files_def)

lemma same_files_trans: "same_files st st1 \<Longrightarrow> same_files st1 st2 \<Longrightarrow> same_files st st2"
  by (simp add: same_files_def)

lemma quiet_free: "quiet st \<Longrightarrow> cache.free_for blk (ibuf st)"
  by (simp add: quiet_def cache.free_for_def N_BUFFER_def)

text \<open>Looking at a block and releasing it.\<close>

lemma look:
  assumes "quiet st"
  shows "\<exists>b s s'. buffer_read 0 blk (ibuf st) = Some (b, s) \<and> get_data b s = Some (view (ibuf st) blk) \<and>
    buffer_release b s = Some s' \<and> same_files st (set_ibuf s' st)"
proof -
  obtain b s s' where r: "buffer_read 0 blk (ibuf st) = Some (b, s)" "get_data b s = Some (view (ibuf st) blk)" "buffer_release b s = Some s'"
    "buf_inv s'" "pin s' = pin (ibuf st)" "view s' = view (ibuf st)"
    using cache.inspect [OF quiet_free [OF assms]] by blast
  have "same_files st (set_ibuf s' st)" using r(4-6) assms by (simp add: same_files_def quiet_def set_ibuf_def)
  then show ?thesis using r(1-3) by blast
qed

lemma indirect_look:
  assumes "quiet st"
  shows "\<exists>st'. indirect_block tbl k False st = Some (non_zero (read_u32 (view (ibuf st) tbl) (4 * k)), st') \<and> same_files st st'"
  using look [OF assms, of tbl] by (auto simp: indirect_block_def non_zero_def)

lemma index_look: "index_block i idx False st = Some (non_zero (id_index (in_disk (i_cache st i)) ! idx), st)"
  by (simp add: index_block_def non_zero_def Let_def)

lemma locate_look:
  assumes q: "quiet st" and lbn: "lbn < 1049610"
  shows "\<exists>st'. locate_or_add_block i lbn False st = Some (file_block (in_disk (i_cache st i)) (view (ibuf st)) lbn, st') \<and> same_files st st'"
proof -
  let ?n = "in_disk (i_cache st i)"
  have c: "INODE_INDEX_1 = 10" "INODE_INDEX_2 = 12" "NINDIRECT = 1024"
    by (simp_all add: INODE_INDEX_1_def INODE_INDEX_2_def NINDIRECT_def BLOCK_SIZE_def)
  consider "lbn < 10" | "10 \<le> lbn" "lbn < 1034" | "1034 \<le> lbn" by linarith
  then show ?thesis
  proof cases
    case 1
    then show ?thesis using same_files_refl [OF q] by (simp add: locate_or_add_block_def c index_look file_block_def)
  next
    case 2
    then show ?thesis
      using same_files_refl [OF q] indirect_look [OF q, of "id_index ?n ! 10" "lbn - 10"]
      by (cases "id_index ?n ! 10 = 0") (auto simp: locate_or_add_block_def Let_def c index_look file_block_def)
  next
    case 3
    let ?l = "lbn - 1034" and ?t = "id_index ?n ! 12"
    have loc: "locate_or_add_block i lbn False st = Option.bind (index_block i 12 False st) (\<lambda>(r, st). case r of None \<Rightarrow> Some (None, st)
        | Some l1 \<Rightarrow> Option.bind (indirect_block l1 (?l div 1024) False st) (\<lambda>(r, st). case r of None \<Rightarrow> Some (None, st)
            | Some l2 \<Rightarrow> indirect_block l2 (?l mod 1024) False st))"
    proof -
      have "\<not> lbn < 10" "\<not> lbn - 10 < 1024" "lbn - 10 - 1024 = ?l" "?l < 1024 * 1024" using 3 lbn by auto
      then show ?thesis unfolding locate_or_add_block_def Let_def c by (simp only: if_False if_True)
    qed
    show ?thesis
    proof (cases "?t = 0")
      case True
      then show ?thesis using 3 same_files_refl [OF q] by (simp add: loc index_look file_block_def)
    next
      case False
      obtain st1 where s1: "indirect_block ?t (?l div 1024) False st = Some (non_zero (read_u32 (view (ibuf st) ?t) (4 * (?l div 1024))), st1)" "same_files st st1"
        using indirect_look [OF q] by blast
      have q1: "quiet st1" "view (ibuf st1) = view (ibuf st)" using s1(2) by (auto simp: same_files_def)
      show ?thesis
      proof (cases "read_u32 (view (ibuf st) ?t) (4 * (?l div 1024)) = 0")
        case True
        then show ?thesis using 3 False s1 by (simp add: loc index_look file_block_def)
      next
        case nz: False
        obtain st2 where s2: "indirect_block (read_u32 (view (ibuf st) ?t) (4 * (?l div 1024))) (?l mod 1024) False st1 =
            Some (non_zero (read_u32 (view (ibuf st) (read_u32 (view (ibuf st) ?t) (4 * (?l div 1024)))) (4 * (?l mod 1024))), st2)" "same_files st1 st2"
          using indirect_look [OF q1(1)] unfolding q1(2) by blast
        then show ?thesis
          using 3 False nz s1 same_files_trans [OF s1(2) s2(2)] by (simp add: loc index_look file_block_def)
      qed
    qed
  qed
qed


text \<open>One round of the loop: the bytes of one block.\<close>

lemma copy_len_round:
  assumes "off < end'" "end' + BLOCK_SIZE < 2 ^ 32"
  obtains n where "copy_len off end' = Some n" "0 < n" "off + n \<le> end'" "off mod BLOCK_SIZE + n \<le> BLOCK_SIZE"
proof -
  let ?m = "BLOCK_SIZE - off mod BLOCK_SIZE"
  have b: "off mod BLOCK_SIZE < BLOCK_SIZE" by (simp add: BLOCK_SIZE_def)
  have a: "add32 off ?m = Some (off + ?m)" using assms b by (simp add: panic_simps)
  show ?thesis
  proof (cases "end' < off + ?m")
    case True
    then show ?thesis using that [of "end' - off"] a b assms by (simp add: copy_len_def)
  next
    case False
    then show ?thesis using that [of ?m] a b assms by (simp add: copy_len_def)
  qed
qed

lemma block_bytes:
  assumes n: "off mod BLOCK_SIZE + n \<le> BLOCK_SIZE"
  shows "map (file_byte d v) [off..<off + n] =
    (case file_block d v (off div BLOCK_SIZE) of None \<Rightarrow> replicate n 0 | Some b \<Rightarrow> load (v b) (off mod BLOCK_SIZE) n)"
proof -
  have dm: "(off + k) div BLOCK_SIZE = off div BLOCK_SIZE" "(off + k) mod BLOCK_SIZE = off mod BLOCK_SIZE + k" if "k < n" for k
  proof -
    have l: "off mod BLOCK_SIZE + k < BLOCK_SIZE" "k < BLOCK_SIZE" using n that by simp_all
    show "(off + k) div BLOCK_SIZE = off div BLOCK_SIZE" using l by (simp only: div_add1_eq [of off k] div_less mod_less add_0_right)
    show "(off + k) mod BLOCK_SIZE = off mod BLOCK_SIZE + k" using l mod_add_eq [of off BLOCK_SIZE k] by (simp only: mod_less)
  qed
  show ?thesis
    by (cases "file_block d v (off div BLOCK_SIZE)") (auto intro!: nth_equalityI simp: file_byte_def dm)
qed

lemma read_step:
  assumes q: "quiet st" and n: "off mod BLOCK_SIZE + n \<le> BLOCK_SIZE" and off: "off < 2 ^ 32"
  shows "\<exists>r st1 st2. locate_or_add_block i (off div BLOCK_SIZE) False st = Some (r, st1) \<and>
    (case r of
       Some blk \<Rightarrow> do {
         (b, s) \<leftarrow> buffer_read 0 blk (ibuf st1);
         d \<leftarrow> get_data b s;
         s \<leftarrow> buffer_release b s;
         Some (load d (off mod BLOCK_SIZE) n, set_ibuf s st1)
       }
     | None \<Rightarrow> Some (replicate n 0, st1)) = Some (map (file_byte (in_disk (i_cache st i)) (view (ibuf st))) [off..<off + n], st2) \<and>
    same_files st st2"
proof -
  have l: "off div BLOCK_SIZE < 1049610" using off by (simp add: BLOCK_SIZE_def)
  obtain st1 where s1: "locate_or_add_block i (off div BLOCK_SIZE) False st =
      Some (file_block (in_disk (i_cache st i)) (view (ibuf st)) (off div BLOCK_SIZE), st1)" "same_files st st1"
    using locate_look [OF q l] by blast
  show ?thesis
  proof (cases "file_block (in_disk (i_cache st i)) (view (ibuf st)) (off div BLOCK_SIZE)")
    case None
    then show ?thesis using s1 by (simp add: block_bytes [OF n])
  next
    case (Some blk)
    have q1: "quiet st1" "view (ibuf st1) = view (ibuf st)" using s1(2) by (auto simp: same_files_def)
    obtain b s s' where "buffer_read 0 blk (ibuf st1) = Some (b, s)" "get_data b s = Some (view (ibuf st) blk)"
      "buffer_release b s = Some s'" "same_files st1 (set_ibuf s' st1)"
      using look [OF q1(1), of blk] unfolding q1(2) by blast
    then show ?thesis using s1 Some same_files_trans [OF s1(2)] by (auto simp: block_bytes [OF n])
  qed
qed

lemma read_loop_spec:
  assumes "quiet st" "off \<le> end'" "end' + BLOCK_SIZE < 2 ^ 32" "dst_off + (end' - off) \<le> length dst"
  shows "\<exists>st'. read_loop i off end' dst dst_off st =
      Some (take dst_off dst @ map (file_byte (in_disk (i_cache st i)) (view (ibuf st))) [off..<end'] @ drop (dst_off + (end' - off)) dst, st') \<and>
    same_files st st'"
  using assms
proof (induction "end' - off" arbitrary: off dst dst_off st rule: less_induct)
  case less
  note q = less.prems(1)
  let ?f = "file_byte (in_disk (i_cache st i)) (view (ibuf st))"
  show ?case
  proof (cases "off = end'")
    case True
    then show ?thesis using same_files_refl [OF q] by (simp add: read_loop.simps)
  next
    case False
    then have lt: "off < end'" using less.prems(2) by simp
    obtain n where n: "copy_len off end' = Some n" "0 < n" "off + n \<le> end'" "off mod BLOCK_SIZE + n \<le> BLOCK_SIZE"
      using copy_len_round [OF lt less.prems(3)] .
    have o32: "off < 2 ^ 32" using lt less.prems(3) by simp
    obtain r st1 st2 where s: "locate_or_add_block i (off div BLOCK_SIZE) False st = Some (r, st1)"
      "(case r of
         Some blk \<Rightarrow> do {
           (b, s) \<leftarrow> buffer_read 0 blk (ibuf st1);
           d \<leftarrow> get_data b s;
           s \<leftarrow> buffer_release b s;
           Some (load d (off mod BLOCK_SIZE) n, set_ibuf s st1)
         }
       | None \<Rightarrow> Some (replicate n 0, st1)) = Some (map ?f [off..<off + n], st2)" "same_files st st2"
      using read_step [OF q n(4) o32] by blast
    let ?dst = "take dst_off dst @ map ?f [off..<off + n] @ drop (dst_off + n) dst"
    have w: "slice_write dst dst_off (map ?f [off..<off + n]) = Some ?dst"
      using less.prems(4) n(3) by (simp add: slice_write_def)
    have s2: "quiet st2" "view (ibuf st2) = view (ibuf st)" "i_cache st2 = i_cache st" using s(3) by (auto simp: same_files_def)
    have len: "(dst_off + n) + (end' - (off + n)) \<le> length ?dst" using less.prems(4) n(3) by simp
    obtain st' where r: "read_loop i (off + n) end' ?dst (dst_off + n) st2 =
        Some (take (dst_off + n) ?dst @ map ?f [off + n..<end'] @ drop ((dst_off + n) + (end' - (off + n))) ?dst, st')" "same_files st2 st'"
    proof -
      have dec: "end' - (off + n) < end' - off" using n(2) lt by simp
      show ?thesis using that less.hyps [OF dec s2(1) n(3) less.prems(3) len] unfolding s2(2,3) by (elim exE conjE)
    qed
    have "take (dst_off + n) ?dst = take dst_off dst @ map ?f [off..<off + n]"
      "drop ((dst_off + n) + (end' - (off + n))) ?dst = drop (dst_off + (end' - off)) dst"
      using less.prems(4) n(3) by (simp_all add: min_def add.commute)
    moreover have "[off..<end'] = [off..<off + n] @ [off + n..<end']"
      using n(3) upt_add_eq_append [of off "off + n" "end' - (off + n)"] by simp
    ultimately have "read_loop i off end' dst dst_off st =
        Some (take dst_off dst @ map ?f [off..<end'] @ drop (dst_off + (end' - off)) dst, st')"
      using lt n(1) s(1,2) w r(1) by (subst read_loop.simps) simp
    then show ?thesis using same_files_trans [OF s(3) r(2)] by blast
  qed
qed

lemma inode_read_spec:
  assumes "quiet st" and "off + len < 2 ^ 32" and "id_size (in_disk (i_cache st i)) + BLOCK_SIZE < 2 ^ 32" and "len \<le> length dst"
  shows "\<exists>st'. let d = in_disk (i_cache st i); n = min len (id_size d - off) in
    inode_read_data i off len dst st = Some (n, map (file_byte d (view (ibuf st))) [off..<off + n] @ drop n dst, st') \<and> same_files st st'"
proof -
  let ?d = "in_disk (i_cache st i)"
  define n where "n = min len (id_size ?d - off)"
  show ?thesis
  proof (cases "id_size ?d \<le> off")
    case True
    then show ?thesis using same_files_refl [OF assms(1)] by (simp add: inode_read_data_def)
  next
    case False
    have n: "(if id_size ?d < off + len then id_size ?d - off else len) = n" "n \<le> length dst" "off + n < 2 ^ 32" "off + n + BLOCK_SIZE < 2 ^ 32"
      using False assms(2-4) by (auto simp: n_def)
    obtain st' where st': "read_loop i off (off + n) dst 0 st = Some (map (file_byte ?d (view (ibuf st))) [off..<off + n] @ drop n dst, st')" "same_files st st'"
      using read_loop_spec [OF assms(1) _ n(4), of off 0 dst i] n(2) by auto
    have "inode_read_data i off len dst st = Some (n, map (file_byte ?d (view (ibuf st))) [off..<off + n] @ drop n dst, st')"
      using False assms(2) n(1,3) st'(1) by (simp add: inode_read_data_def panic_simps Let_def)
    then show ?thesis using st'(2) by (auto simp: n_def [symmetric] Let_def)
  qed
qed


text \<open>C16. Reading from a file copies exactly the bytes of the file from the given offset: as many as asked for
  or as are left before its end, with zeros where no block was ever allocated, through direct, indirect and
  doubly indirect blocks alike. The rest of the destination, the inode and the content of the disk stay as they are.\<close>

theorem inode_read_data_correct:
  assumes "quiet st" and "off + len < 2 ^ 32" and "id_size (in_disk (i_cache st i)) + BLOCK_SIZE < 2 ^ 32" and "len \<le> length dst"
  shows "\<exists>st'. let d = in_disk (i_cache st i); n = min len (id_size d - off) in
    inode_read_data i off len dst st = Some (n, map (file_byte d (view (ibuf st))) [off..<off + n] @ drop n dst, st') \<and> same_files st st'"
  using inode_read_spec [OF assms] .

definition inode_example :: ifs where
  "inode_example = \<lparr>i_fs = bitmap_example, i_cache = (\<lambda>_. Inode_new)
     (0 := \<lparr>in_disk = \<lparr>id_type = 2, id_major = 0, id_minor = 0, id_nlink = 1, id_size = 5000, id_index = replicate INODE_INDEX_3 0\<rparr>,
             in_valid = True, in_num = 7, in_refcnt = 1\<rparr>)\<rparr>"

lemma inode_example_quiet: "quiet inode_example"
proof -
  obtain sb where "fs_sb bitmap_example = Some sb" by (simp add: bitmap_example_def)
  then have "buf_inv (fs_b bitmap_example)" using bitmap_example_ok(1) by (simp add: bitmap_ok_def)
  then show ?thesis by (simp add: quiet_def inode_example_def) (simp add: bitmap_example_def buffer_init_pin)
qed

theorem inode_read_data_correct_witness:
  "\<exists>st'. inode_read_data 0 4990 100 (replicate 100 255) inode_example = Some (10, replicate 10 0 @ replicate 90 255, st')"
proof -
  have b: "file_byte (in_disk (i_cache inode_example 0)) v k = 0" if "k < 5000" for v k
    using that by (simp add: file_byte_def file_block_def inode_example_def BLOCK_SIZE_def INODE_INDEX_3_def)
  have r: "replicate 10 (0 :: u8) = [0, 0, 0, 0, 0, 0, 0, 0, 0, 0]" by (simp add: numeral_eq_Suc)
  have s: "id_size (in_disk (i_cache inode_example 0)) = 5000" by (simp add: inode_example_def)
  show ?thesis
    using inode_read_data_correct [OF inode_example_quiet, of 4990 100 0 "replicate 100 255"] by (auto simp: s b r Let_def BLOCK_SIZE_def)
qed

section \<open>The cache of inodes\<close>

text \<open>The inode \<open>inum\<close> in the inode area of the disk.\<close>

definition inode_blk :: "super_block \<Rightarrow> u32 \<Rightarrow> u32" where
  "inode_blk sb inum = sb_inode_start sb + inum div 64"

definition disk_inode :: "super_block \<Rightarrow> (u32 \<Rightarrow> block) \<Rightarrow> u32 \<Rightarrow> inode_disk" where
  "disk_inode sb v inum = decode_inode (load (v (inode_blk sb inum)) (inum mod 64 * 64) 64)"

lemma upd_inode_simps [simp]:
  "i_fs (upd_inode i f st) = i_fs st" "i_cache (upd_inode i f st) = (i_cache st)(i := f (i_cache st i))"
  "i_fs (upd_disk i g st) = i_fs st" "i_cache (upd_disk i g st) = (i_cache st)(i := (i_cache st i)\<lparr>in_disk := g (in_disk (i_cache st i))\<rparr>)"
  "quiet (upd_inode i f st) = quiet st"
  by (simp_all add: upd_inode_def upd_disk_def quiet_def)

lemma set_ibuf_simps [simp]: "i_cache (set_ibuf s st) = i_cache st" "fs_sb (i_fs (set_ibuf s st)) = fs_sb (i_fs st)" "ibuf (set_ibuf s st) = s"
  by (simp_all add: set_ibuf_def)

lemmas inode_area = SIZE_INODE_DISK_def BLOCK_SIZE_def inode_blk_def

lemma inode_rw_load:
  assumes q: "quiet st" and sb: "fs_sb (i_fs st) = Some sb" and r: "inode_blk sb (in_num (i_cache st i)) < 2 ^ 32"
  shows "\<exists>st1. inode_rw i False st = Some (upd_disk i (\<lambda>_. disk_inode sb (view (ibuf st)) (in_num (i_cache st i))) st1) \<and> same_files st st1"
  using look [OF q, of "inode_blk sb (in_num (i_cache st i))"] sb r
  by (auto simp: inode_rw_def get_sb_def panic_simps inode_area disk_inode_def)

lemma inode_rw_store:
  assumes q: "quiet st" and sb: "fs_sb (i_fs st) = Some sb" and r: "inode_blk sb (in_num (i_cache st i)) < 2 ^ 32"
  shows "\<exists>st'. inode_rw i True st = Some st' \<and> quiet st' \<and> i_cache st' = i_cache st \<and> fs_sb (i_fs st') = Some sb \<and>
    view (ibuf st') = (view (ibuf st))(inode_blk sb (in_num (i_cache st i)) :=
      store (view (ibuf st) (inode_blk sb (in_num (i_cache st i)))) (in_num (i_cache st i) mod 64 * 64) (encode_inode (in_disk (i_cache st i))))"
proof -
  let ?k = "inode_blk sb (in_num (i_cache st i))"
  let ?d = "store (view (ibuf st) ?k) (in_num (i_cache st i) mod 64 * 64) (encode_inode (in_disk (i_cache st i)))"
  obtain b s1 s2 s3 s4 where m: "buffer_read 0 ?k (ibuf st) = Some (b, s1)" "get_data b s1 = Some (view (ibuf st) ?k)" "put_data b ?d s1 = Some s2"
    "buffer_write b s2 = Some s3" "buffer_release b s3 = Some s4" "buf_inv s4" "pin s4 = pin (ibuf st)" "view s4 = (view (ibuf st))(?k := ?d)"
    using cache.modify [OF quiet_free [OF q], of ?k ?d] by blast
  have "inode_rw i True st = Some (set_ibuf s4 st)"
    using m(1-5) sb r by (simp add: inode_rw_def get_sb_def panic_simps inode_area)
  then show ?thesis using m(6-8) q sb by (simp add: quiet_def)
qed

text \<open>What was written for one inode is read back for it, and every other inode on the disk is as before.\<close>

lemma disk_inode_store:
  assumes "inode_disk_wf n"
  shows "disk_inode sb (v(inode_blk sb inum := store (v (inode_blk sb inum)) (inum mod 64 * 64) (encode_inode n))) k =
    (if k = inum then n else disk_inode sb v k)"
proof -
  have e: "length (encode_inode n) = 64" "decode_inode (encode_inode n) = n"
    using inode_codec_eq [OF assms] by (simp_all add: SIZE_INODE_DISK_def)
  have "inum mod 64 * 64 + 64 \<le> k mod 64 * 64 \<or> k mod 64 * 64 + 64 \<le> inum mod 64 * 64" if "k \<noteq> inum" "k div 64 = inum div 64"
  proof -
    have "k mod 64 \<noteq> inum mod 64" using that by (metis div_mult_mod_eq)
    then show ?thesis by linarith
  qed
  then show ?thesis
    using e load_store_same [of "v (inode_blk sb inum)" "inum mod 64 * 64" "encode_inode n"]
      load_store_disjoint [of "k mod 64 * 64" 64 "inum mod 64 * 64" "encode_inode n" "v (inode_blk sb inum)"]
    by (auto simp: disk_inode_def inode_blk_def)
qed

definition live :: "ifs \<Rightarrow> nat \<Rightarrow> bool" where
  "live st i \<longleftrightarrow> 0 < in_refcnt (i_cache st i) \<and> in_valid (i_cache st i)"

text \<open>No inode is in two slots at once.\<close>

definition one_slot :: "ifs \<Rightarrow> bool" where
  "one_slot st \<longleftrightarrow> (\<forall>i < N_INODE. \<forall>j < N_INODE. live st i \<and> live st j \<and> in_num (i_cache st i) = in_num (i_cache st j) \<longrightarrow> i = j)"

lemma find_upt_Some: "List.find P [0..<n] = Some i \<Longrightarrow> i < n \<and> P i"
  by (auto simp: find_Some_iff)

lemma find_upt_None: "List.find P [0..<n] = None \<longleftrightarrow> (\<forall>i < n. \<not> P i)"
  by (auto simp: find_None_iff)

lemma inode_get_hit:
  assumes "one_slot st" "i < N_INODE" "live st i" "in_num (i_cache st i) = inum" "in_refcnt (i_cache st i) + 1 < 2 ^ 32"
  shows "inode_get inum st = Some (i, upd_inode i (\<lambda>n. n\<lparr>in_refcnt := in_refcnt (i_cache st i) + 1\<rparr>) st)"
proof -
  let ?P = "\<lambda>i. 0 < in_refcnt (i_cache st i) \<and> in_num (i_cache st i) = inum \<and> in_valid (i_cache st i)"
  obtain j where j: "List.find ?P [0..<N_INODE] = Some j"
    using assms(2-4) find_upt_None [of ?P N_INODE] by (cases "List.find ?P [0..<N_INODE]") (auto simp: live_def)
  then have "j = i" using find_upt_Some [OF j] assms(1-4) unfolding one_slot_def live_def by blast
  then show ?thesis using j assms(5) by (simp add: inode_get_def panic_simps)
qed


lemma inode_get_miss:
  assumes q: "quiet st" and sb: "fs_sb (i_fs st) = Some sb" and r: "inode_blk sb inum < 2 ^ 32"
    and miss: "\<forall>i < N_INODE. \<not> (live st i \<and> in_num (i_cache st i) = inum)" and room: "\<exists>i < N_INODE. in_refcnt (i_cache st i) = 0"
  shows "\<exists>i st1. inode_get inum st = Some (i, st1) \<and> i < N_INODE \<and> in_refcnt (i_cache st i) = 0 \<and> quiet st1 \<and>
    view (ibuf st1) = view (ibuf st) \<and> fs_sb (i_fs st1) = fs_sb (i_fs st) \<and>
    i_cache st1 = (i_cache st)(i := \<lparr>in_disk = disk_inode sb (view (ibuf st)) inum, in_valid = True, in_num = inum, in_refcnt = 1\<rparr>)"
proof -
  let ?P = "\<lambda>i. 0 < in_refcnt (i_cache st i) \<and> in_num (i_cache st i) = inum \<and> in_valid (i_cache st i)"
  have n: "List.find ?P [0..<N_INODE] = None" using miss unfolding find_upt_None live_def by blast
  obtain i where i: "List.find (\<lambda>i. in_refcnt (i_cache st i) = 0) [0..<N_INODE] = Some i"
    using room find_upt_None [of "\<lambda>i. in_refcnt (i_cache st i) = 0" N_INODE] by (cases "List.find (\<lambda>i. in_refcnt (i_cache st i) = 0) [0..<N_INODE]") auto
  let ?s = "upd_inode i (\<lambda>n. n\<lparr>in_num := inum, in_valid := False, in_refcnt := 1\<rparr>) st"
  obtain st1 where s1: "inode_rw i False ?s = Some (upd_disk i (\<lambda>_. disk_inode sb (view (ibuf st)) inum) st1)" "same_files ?s st1"
    using inode_rw_load [of ?s sb i] q sb r by auto
  let ?s2 = "upd_inode i (\<lambda>n. n\<lparr>in_valid := True\<rparr>) (upd_disk i (\<lambda>_. disk_inode sb (view (ibuf st)) inum) st1)"
  have "inode_get inum st = Some (i, ?s2)" using n i s1(1) by (simp add: inode_get_def)
  then show ?thesis using find_upt_Some [OF i] s1(2) by (auto simp: same_files_def upd_disk_def intro!: exI [of _ i])
qed

lemma one_slot_upd:
  assumes o: "one_slot st" and same: "\<And>j. j \<noteq> i \<Longrightarrow> i_cache st' j = i_cache st j"
    and new: "\<And>j. j < N_INODE \<Longrightarrow> j \<noteq> i \<Longrightarrow> live st j \<Longrightarrow> in_num (i_cache st j) \<noteq> in_num (i_cache st' i)"
  shows "one_slot st'"
  unfolding one_slot_def
proof (intro allI impI, elim conjE)
  fix j k assume jk: "j < N_INODE" "k < N_INODE" "live st' j" "live st' k" "in_num (i_cache st' j) = in_num (i_cache st' k)"
  have l: "live st' m = live st m" if "m \<noteq> i" for m using same [OF that] by (simp add: live_def)
  consider "j = i" "k = i" | "j = i" "k \<noteq> i" | "j \<noteq> i" "k = i" | "j \<noteq> i" "k \<noteq> i" by blast
  then show "j = k"
  proof cases
    case 1
    then show ?thesis by simp
  next
    case 2
    then show ?thesis using new [of k] jk l [of k] same [of k] by simp
  next
    case 3
    then show ?thesis using new [of j] jk l [of j] same [of j] by simp
  next
    case 4
    then have "live st j" "live st k" "in_num (i_cache st j) = in_num (i_cache st k)" using jk l same by simp_all
    then show ?thesis using o jk(1,2) unfolding one_slot_def by blast
  qed
qed

text \<open>C17. Getting an inode: it is found in the slot that already holds it, with its in-memory state kept and one
  reference more, and otherwise read from the inode area into a slot nobody refers to, with one reference. All
  other slots and the content of the disk stay, and no inode ever is in two slots.\<close>

theorem inode_get_correct:
  assumes "quiet st" "one_slot st" and sb: "fs_sb (i_fs st) = Some sb" and "inode_blk sb inum < 2 ^ 32"
    and "\<exists>i < N_INODE. in_refcnt (i_cache st i) = 0" and "\<forall>i < N_INODE. in_refcnt (i_cache st i) + 1 < 2 ^ 32"
  shows "\<exists>i st1. inode_get inum st = Some (i, st1) \<and> i < N_INODE \<and> live st1 i \<and> in_num (i_cache st1 i) = inum \<and>
    in_refcnt (i_cache st1 i) = in_refcnt (i_cache st i) + 1 \<and>
    in_disk (i_cache st1 i) = (if live st i \<and> in_num (i_cache st i) = inum then in_disk (i_cache st i) else disk_inode sb (view (ibuf st)) inum) \<and>
    (\<forall>j. j \<noteq> i \<longrightarrow> i_cache st1 j = i_cache st j) \<and> view (ibuf st1) = view (ibuf st) \<and> quiet st1 \<and> one_slot st1"
proof (cases "\<exists>i < N_INODE. live st i \<and> in_num (i_cache st i) = inum")
  case True
  then obtain i where i: "i < N_INODE" "live st i" "in_num (i_cache st i) = inum" by blast
  have "one_slot (upd_inode i (\<lambda>n. n\<lparr>in_refcnt := in_refcnt (i_cache st i) + 1\<rparr>) st)"
    by (rule one_slot_upd [OF assms(2), of i]) (use assms(2) i in \<open>auto simp: one_slot_def\<close>)
  moreover have "inode_get inum st = Some (i, upd_inode i (\<lambda>n. n\<lparr>in_refcnt := in_refcnt (i_cache st i) + 1\<rparr>) st)"
    using inode_get_hit [OF assms(2) i] assms(6) i(1) by blast
  ultimately show ?thesis using i assms(1) by (intro exI [of _ i] exI conjI) (simp_all add: live_def)
next
  case False
  then have miss: "\<forall>i < N_INODE. \<not> (live st i \<and> in_num (i_cache st i) = inum)" by blast
  obtain i st1 where g: "inode_get inum st = Some (i, st1)" "i < N_INODE" "in_refcnt (i_cache st i) = 0" "quiet st1" "view (ibuf st1) = view (ibuf st)"
    "i_cache st1 = (i_cache st)(i := \<lparr>in_disk = disk_inode sb (view (ibuf st)) inum, in_valid = True, in_num = inum, in_refcnt = 1\<rparr>)"
    using inode_get_miss [OF assms(1) sb assms(4) miss assms(5)] by blast
  have "one_slot st1" by (rule one_slot_upd [OF assms(2), of i]) (use miss in \<open>auto simp: g(6)\<close>)
  then show ?thesis using g by (intro exI [of _ i] exI [of _ st1] conjI) (simp_all add: live_def)
qed

theorem inode_get_correct_witness:
  "\<exists>st1. inode_get 7 inode_example = Some (0, st1) \<and> in_refcnt (i_cache st1 0) = 2"
proof -
  obtain sb where sb: "fs_sb (i_fs inode_example) = Some sb" "sb_inode_start sb = 2" by (simp add: inode_example_def bitmap_example_def)
  have c: "in_refcnt (i_cache inode_example 0) = 1" "live inode_example 0" "\<And>i. i \<noteq> 0 \<Longrightarrow> in_refcnt (i_cache inode_example i) = 0"
    by (simp_all add: inode_example_def live_def Inode_new_def)
  have num7: "in_num (i_cache inode_example 0) = 7" by (simp add: inode_example_def)
  have o: "one_slot inode_example" using c(3) unfolding one_slot_def live_def by (metis less_irrefl)
  have "\<exists>i < N_INODE. in_refcnt (i_cache inode_example i) = 0" using c(3) by (intro exI [of _ 1]) (simp add: N_INODE_def)
  moreover have "in_refcnt (i_cache inode_example i) + 1 < 2 ^ 32" for i using c(1,3) by (cases "i = 0") auto
  moreover have "inode_blk sb 7 < 2 ^ 32" using sb(2) by (simp add: inode_blk_def)
  ultimately obtain i st1 where g: "inode_get 7 inode_example = Some (i, st1)" "i < N_INODE" "in_refcnt (i_cache st1 i) = in_refcnt (i_cache inode_example i) + 1"
    using inode_get_correct [OF inode_example_quiet o sb(1), of 7] by blast
  have "inode_get 7 inode_example = Some (0, upd_inode 0 (\<lambda>n. n\<lparr>in_refcnt := Suc (Suc 0)\<rparr>) inode_example)"
    using inode_get_hit [OF o, of 0 7] c(1,2) num7 by (simp add: N_INODE_def)
  then show ?thesis using g c(1) by auto
qed

text \<open>An inode written back is on the disk: it alone changes in the inode area, and a later read of its
  number returns what the memory held.\<close>

theorem inode_write_through:
  assumes "quiet st" and sb: "fs_sb (i_fs st) = Some sb" and "inode_blk sb (in_num (i_cache st i)) < 2 ^ 32" and "inode_disk_wf (in_disk (i_cache st i))"
  shows "\<exists>st'. inode_rw i True st = Some st' \<and> quiet st' \<and> i_cache st' = i_cache st \<and>
    disk_inode sb (view (ibuf st')) = (disk_inode sb (view (ibuf st)))(in_num (i_cache st i) := in_disk (i_cache st i)) \<and>
    (\<exists>st2. inode_rw i False st' = Some st2 \<and> i_cache st2 = i_cache st)"
proof -
  obtain st' where w: "inode_rw i True st = Some st'" "quiet st'" "i_cache st' = i_cache st" "fs_sb (i_fs st') = Some sb"
    "view (ibuf st') = (view (ibuf st))(inode_blk sb (in_num (i_cache st i)) :=
      store (view (ibuf st) (inode_blk sb (in_num (i_cache st i)))) (in_num (i_cache st i) mod 64 * 64) (encode_inode (in_disk (i_cache st i))))"
    using inode_rw_store [OF assms(1) sb assms(3)] by blast
  have d: "disk_inode sb (view (ibuf st')) = (disk_inode sb (view (ibuf st)))(in_num (i_cache st i) := in_disk (i_cache st i))"
    unfolding w(5) by (rule ext) (simp add: disk_inode_store [OF assms(4)])
  have r: "inode_blk sb (in_num (i_cache st' i)) < 2 ^ 32" using assms(3) w(3) by simp
  obtain st2 where "inode_rw i False st' = Some (upd_disk i (\<lambda>_. disk_inode sb (view (ibuf st')) (in_num (i_cache st' i))) st2)" "same_files st' st2"
    using inode_rw_load [OF w(2,4) r] by blast
  then show ?thesis using w(1-3) d by (auto simp: same_files_def)
qed

theorem inode_write_through_witness: "\<exists>st'. inode_rw 0 True inode_example = Some st' \<and> i_cache st' = i_cache inode_example"
proof -
  obtain sb where sb: "fs_sb (i_fs inode_example) = Some sb" "sb_inode_start sb = 2" by (simp add: inode_example_def bitmap_example_def)
  have "inode_blk sb (in_num (i_cache inode_example 0)) < 2 ^ 32" "inode_disk_wf (in_disk (i_cache inode_example 0))"
    using sb(2) by (simp_all add: inode_blk_def inode_disk_wf_def inode_example_def)
  then show ?thesis using inode_write_through [OF inode_example_quiet sb(1)] by blast
qed

end
