(* ===== verification/Dentry.thy ===== *)
theory Dentry
  imports Inode
begin

text \<open>
  Directory entries (\<open>fs/dentry.rs\<close>). A directory is a file of 64-byte entries: a name of 60 bytes, padded with
  zeros, and an inode number; an entry whose name starts with a zero byte is free. \<open>dentry_scan\<close> is the loop that
  \<open>dentry_search\<close>, \<open>dentry_create\<close> and \<open>dentry_delete\<close> share; the lemmas read it as a search in the
  list of entries of the file.
\<close>

record dentry_disk =
  de_name :: "u8 list"
  de_inum :: u32

definition SIZE_DENTRY :: u32 where "SIZE_DENTRY = 64"

definition decode_dentry :: "u8 list \<Rightarrow> dentry_disk" where
  "decode_dentry bs = \<lparr>de_name = take MAXLEN_FILENAME bs, de_inum = le_val (take 4 (drop MAXLEN_FILENAME bs))\<rparr>"

definition encode_dentry :: "dentry_disk \<Rightarrow> u8 list" where
  "encode_dentry e = de_name e @ le_bytes 4 (de_inum e)"

text \<open>The comparison of a name with the name field of an entry, byte by byte.\<close>

definition name_match :: "u8 list \<Rightarrow> u8 list \<Rightarrow> bool" where
  "name_match dname name = list_all (\<lambda>i. if i < length name then dname ! i = name ! i else dname ! i = 0) [0..<MAXLEN_FILENAME]"

definition entry_is :: "u8 list \<Rightarrow> dentry_disk \<Rightarrow> bool" where
  "entry_is name e \<longleftrightarrow> de_name e ! 0 \<noteq> 0 \<and> name_match (de_name e) name"

definition entry_free :: "dentry_disk \<Rightarrow> bool" where
  "entry_free e \<longleftrightarrow> de_name e ! 0 = 0"

text \<open>The scan of a directory for the first entry with a property.\<close>

function dentry_scan :: "(dentry_disk \<Rightarrow> bool) \<Rightarrow> nat \<Rightarrow> u32 \<Rightarrow> u32 \<Rightarrow> u8 list \<Rightarrow> ifs \<Rightarrow> ((u32 \<times> dentry_disk) option \<times> u8 list \<times> ifs) option" where
  "dentry_scan P i sz off buf st =
     (if sz \<le> off then Some (None, buf, st)
      else Option.bind (inode_read_data i off SIZE_DENTRY buf st) (\<lambda>(n, buf, st).
        if n \<noteq> SIZE_DENTRY then Some (None, buf, st)
        else if P (decode_dentry buf) then Some (Some (off, decode_dentry buf), buf, st)
        else if 2 ^ 32 \<le> off + SIZE_DENTRY then None
        else dentry_scan P i sz (off + SIZE_DENTRY) buf st))"
  by pat_completeness auto
termination
  by (relation "measure (\<lambda>(_, _, sz, off, _). sz - off)") (auto simp: SIZE_DENTRY_def)

declare dentry_scan.simps [simp del]

definition dentry_search :: "nat \<Rightarrow> u8 list \<Rightarrow> ifs \<Rightarrow> (u32 option \<times> ifs) option" where
  "dentry_search dir name st = do {
     (r, _, st) \<leftarrow> dentry_scan (entry_is name) dir (id_size (in_disk (i_cache st dir))) 0 (replicate SIZE_DENTRY 0) st;
     Some (map_option (\<lambda>(_, e). de_inum e) r, st)
   }"

definition new_name :: "u8 list \<Rightarrow> u8 list" where
  "new_name name = (let len = (if MAXLEN_FILENAME < length name then MAXLEN_FILENAME else length name)
     in take len name @ replicate (MAXLEN_FILENAME - len) 0)"

definition dentry_create :: "nat \<Rightarrow> u32 \<Rightarrow> u8 list \<Rightarrow> ifs \<Rightarrow> (int \<times> ifs) option" where
  "dentry_create dir target_inum name st = do {
     (found, st) \<leftarrow> dentry_search dir name st;
     (if found \<noteq> None then Some (-1, st)
      else do {
        let sz = id_size (in_disk (i_cache st dir));
        (r, _, st) \<leftarrow> dentry_scan entry_free dir sz 0 (replicate SIZE_DENTRY 0) st;
        let target_off = (case r of Some (off, _) \<Rightarrow> off | None \<Rightarrow> sz);
        (n, st) \<leftarrow> inode_write_data dir target_off SIZE_DENTRY (encode_dentry \<lparr>de_name = new_name name, de_inum = target_inum\<rparr>) st;
        Some (if n \<noteq> SIZE_DENTRY then -1 else 0, st)
      })
   }"

text \<open>\<open>as i32\<close> of a \<open>u32\<close>.\<close>

definition as_i32 :: "u32 \<Rightarrow> int" where
  "as_i32 n = (if n < 2 ^ 31 then int n else int n - 2 ^ 32)"

definition dentry_delete :: "nat \<Rightarrow> u8 list \<Rightarrow> ifs \<Rightarrow> (int \<times> ifs) option" where
  "dentry_delete dir name st = do {
     (r, _, st) \<leftarrow> dentry_scan (entry_is name) dir (id_size (in_disk (i_cache st dir))) 0 (replicate SIZE_DENTRY 0) st;
     (case r of
        None \<Rightarrow> Some (-1, st)
      | Some (off, e) \<Rightarrow> do {
          (_, st) \<leftarrow> inode_write_data dir off SIZE_DENTRY (replicate SIZE_DENTRY 0) st;
          Some (as_i32 (de_inum e), st)
        })
   }"

section \<open>Names\<close>

lemma length_new_name [simp]: "length (new_name name) = MAXLEN_FILENAME"
  by (simp add: new_name_def Let_def)

lemma nth_new_name: "i < MAXLEN_FILENAME \<Longrightarrow> new_name name ! i = (if i < length name then name ! i else 0)"
  by (auto simp: new_name_def Let_def nth_append)

text \<open>A name matches a field exactly when the field is what \<open>dentry_create\<close> stores for the name.\<close>

lemma name_match_iff: "length dname = MAXLEN_FILENAME \<Longrightarrow> name_match dname name \<longleftrightarrow> dname = new_name name"
  by (auto simp: name_match_def list_all_iff nth_new_name list_eq_iff_nth_eq)

lemma dentry_codec:
  "length (de_name e) = MAXLEN_FILENAME \<Longrightarrow> de_inum e < 2 ^ 32 \<Longrightarrow> decode_dentry (encode_dentry e) = e"
  using le_val_short [of "de_inum e" 4] by (simp add: decode_dentry_def encode_dentry_def del: le_bytes.simps)

section \<open>A directory as a list of entries\<close>

definition dir_entry :: "inode_disk \<Rightarrow> (u32 \<Rightarrow> block) \<Rightarrow> nat \<Rightarrow> dentry_disk" where
  "dir_entry d v k = decode_dentry (map (file_byte d v) [64 * k..<64 * k + 64])"

definition find_entry :: "(dentry_disk \<Rightarrow> bool) \<Rightarrow> inode_disk \<Rightarrow> (u32 \<Rightarrow> block) \<Rightarrow> nat \<Rightarrow> nat option" where
  "find_entry P d v k = List.find (\<lambda>j. P (dir_entry d v j)) [k..<id_size d div 64]"

definition dir_lookup :: "inode_disk \<Rightarrow> (u32 \<Rightarrow> block) \<Rightarrow> u8 list \<Rightarrow> u32 option" where
  "dir_lookup d v name = map_option (\<lambda>k. de_inum (dir_entry d v k)) (find_entry (entry_is name) d v 0)"

lemma read_entry:
  assumes "quiet st" and "d = in_disk (i_cache st i)" and "id_size d + BLOCK_SIZE < 2 ^ 32" and "64 * k < id_size d" and "length buf = 64"
  shows "\<exists>buf' st'. inode_read_data i (64 * k) SIZE_DENTRY buf st = Some (min 64 (id_size d - 64 * k), buf', st') \<and> length buf' = 64 \<and> same_files st st' \<and>
    (64 * k + 64 \<le> id_size d \<longrightarrow> decode_dentry buf' = dir_entry d (view (ibuf st)) k)"
proof -
  let ?n = "min 64 (id_size d - 64 * k)"
  obtain st' where r: "inode_read_data i (64 * k) SIZE_DENTRY buf st =
      Some (?n, map (file_byte d (view (ibuf st))) [64 * k..<64 * k + ?n] @ drop ?n buf, st')" "same_files st st'"
    using inode_read_spec [OF assms(1), of "64 * k" SIZE_DENTRY i buf] assms(2-5) by (auto simp: SIZE_DENTRY_def BLOCK_SIZE_def Let_def)
  have "64 * k + 64 \<le> id_size d \<Longrightarrow> ?n = 64" by simp
  then show ?thesis using r assms(5) by (auto simp: dir_entry_def)
qed

lemma dentry_scan_spec:
  assumes "quiet st" and "d = in_disk (i_cache st i)" and "id_size d + BLOCK_SIZE < 2 ^ 32" and "length buf = 64"
  shows "\<exists>buf' st'. dentry_scan P i (id_size d) (64 * k) buf st =
      Some (map_option (\<lambda>j. (64 * j, dir_entry d (view (ibuf st)) j)) (find_entry P d (view (ibuf st)) k), buf', st') \<and> same_files st st'"
  using assms
proof (induction "id_size d - 64 * k" arbitrary: k buf st rule: less_induct)
  case less
  note q = less.prems
  show ?case
  proof (cases "id_size d \<le> 64 * k")
    case True
    then have "find_entry P d v k = None" for v by (simp add: find_entry_def)
    then show ?thesis using True same_files_refl [OF q(1)] by (subst dentry_scan.simps) simp
  next
    case False
    then have lt: "64 * k < id_size d" by simp
    obtain buf1 st1 where r: "inode_read_data i (64 * k) SIZE_DENTRY buf st = Some (min 64 (id_size d - 64 * k), buf1, st1)" "length buf1 = 64"
      "same_files st st1" "64 * k + 64 \<le> id_size d \<longrightarrow> decode_dentry buf1 = dir_entry d (view (ibuf st)) k"
      using read_entry [OF q(1,2,3) lt q(4)] by blast
    have s1: "quiet st1" "view (ibuf st1) = view (ibuf st)" "d = in_disk (i_cache st1 i)" using r(3) q(2) by (auto simp: same_files_def)
    show ?thesis
    proof (cases "64 * k + 64 \<le> id_size d")
      case short: False
      then have "id_size d div 64 \<le> k" by linarith
      then have "find_entry P d v k = None" for v by (simp add: find_entry_def)
      moreover have "min 64 (id_size d - 64 * k) \<noteq> SIZE_DENTRY" using short by (simp add: SIZE_DENTRY_def)
      ultimately show ?thesis using lt r(1,3) by (subst dentry_scan.simps) simp
    next
      case full: True
      then have e: "decode_dentry buf1 = dir_entry d (view (ibuf st)) k" "min 64 (id_size d - 64 * k) = 64" using r(4) by simp_all
      have k: "[k..<id_size d div 64] = k # [Suc k..<id_size d div 64]" using full by (intro upt_conv_Cons) linarith
      show ?thesis
      proof (cases "P (dir_entry d (view (ibuf st)) k)")
        case True
        then show ?thesis using lt r(1,3) e by (subst dentry_scan.simps) (simp add: SIZE_DENTRY_def find_entry_def k)
      next
        case no: False
        have dec: "id_size d - 64 * Suc k < id_size d - 64 * k" using lt by simp
        obtain buf' st' where "dentry_scan P i (id_size d) (64 * Suc k) buf1 st1 =
            Some (map_option (\<lambda>j. (64 * j, dir_entry d (view (ibuf st)) j)) (find_entry P d (view (ibuf st)) (Suc k)), buf', st')" "same_files st1 st'"
          using less.hyps [OF dec s1(1,3) q(3) r(2)] unfolding s1(2) by blast
        moreover have "64 * k + 64 < 2 ^ 32" using full q(3) by (simp add: BLOCK_SIZE_def)
        ultimately show ?thesis
          using lt r(1) e no same_files_trans [OF r(3)] by (subst dentry_scan.simps) (simp add: SIZE_DENTRY_def find_entry_def k add.commute)
      qed
    qed
  qed
qed

lemma dentry_search_spec:
  assumes "quiet st" and "d = in_disk (i_cache st i)" and "id_size d + BLOCK_SIZE < 2 ^ 32"
  shows "\<exists>st'. dentry_search i name st = Some (dir_lookup d (view (ibuf st)) name, st') \<and> same_files st st'"
  using dentry_scan_spec [OF assms, of "replicate SIZE_DENTRY 0" "entry_is name" 0] assms(2)
  by (auto simp: dentry_search_def dir_lookup_def SIZE_DENTRY_def option.map_comp comp_def)

end
