(* ===== verification/Icache.thy ===== *)
theory Icache
  imports Inode
begin

text \<open>
  The inode cache (\<open>inode_get\<close>, \<open>inode_dup\<close> and \<open>inode_put\<close> of \<open>fs/inode.rs\<close>) as its users see it: a number of references for
  each inode number. The locale \<open>refcounted\<close> states the contract of such a cache and what a client may conclude
  from it; the model's operations satisfy it.
\<close>

section \<open>Contract of a cache with reference counts\<close>

locale refcounted =
  fixes get :: "'k \<Rightarrow> 's \<Rightarrow> ('i \<times> 's) option"
    and put :: "'i \<Rightarrow> 's \<Rightarrow> 's option"
    and good :: "'s \<Rightarrow> bool"
    and cnt :: "'s \<Rightarrow> 'k \<Rightarrow> nat"
    and own :: "'s \<Rightarrow> 'i \<Rightarrow> 'k \<Rightarrow> bool"
    and content :: "'s \<Rightarrow> 'd"
    and keep :: "'d \<Rightarrow> 'k \<Rightarrow> bool"
    and known :: "'k \<Rightarrow> bool"
    and cap max :: nat
  assumes get_law: "\<lbrakk>good s; known k; cnt s k + 1 < max; 0 < cnt s k \<or> card {k. 0 < cnt s k} < cap\<rbrakk> \<Longrightarrow>
      \<exists>i s'. get k s = Some (i, s') \<and> good s' \<and> own s' i k \<and> cnt s' = (cnt s)(k := cnt s k + 1) \<and> content s' = content s \<and>
        (\<forall>j m. own s j m \<longrightarrow> own s' j m)"
    and put_law: "\<lbrakk>good s; own s i k; keep (content s) k \<or> 1 < cnt s k\<rbrakk> \<Longrightarrow>
      \<exists>s'. put i s = Some s' \<and> good s' \<and> cnt s' = (cnt s)(k := cnt s k - 1) \<and> content s' = content s \<and>
        (\<forall>j m. own s j m \<and> (m \<noteq> k \<or> 1 < cnt s k) \<longrightarrow> own s' j m)"
    and own_cnt: "good s \<Longrightarrow> own s i k \<Longrightarrow> 0 < cnt s k"
    and finite_used: "good s \<Longrightarrow> finite {k. 0 < cnt s k}"
begin

lemma get_put:
  assumes "good s" "known k" "cnt s k + 1 < max" "0 < cnt s k \<or> card {k. 0 < cnt s k} < cap" "keep (content s) k \<or> 0 < cnt s k"
  shows "\<exists>i s1 s2. get k s = Some (i, s1) \<and> put i s1 = Some s2 \<and> good s2 \<and> cnt s2 = cnt s \<and> content s2 = content s"
proof -
  obtain i s1 where g: "get k s = Some (i, s1)" "good s1" "own s1 i k" "cnt s1 = (cnt s)(k := cnt s k + 1)" "content s1 = content s"
    using get_law [OF assms(1-4)] by blast
  have "keep (content s1) k \<or> 1 < cnt s1 k" using assms(5) g(4,5) by auto
  then obtain s2 where "put i s1 = Some s2" "good s2" "cnt s2 = (cnt s1)(k := cnt s1 k - 1)" "content s2 = content s1"
    using put_law [OF g(2,3)] by blast
  then show ?thesis using g by (auto simp: fun_eq_iff)
qed

text \<open>Walking from one object to another: the next one is taken before the current one is given back.\<close>

lemma walk_on:
  assumes good: "good s" and own: "own s i a" and keep: "keep (content s) a"
    and base: "cnt s = c(a := c a + 1)" and room: "card {k. 0 < c k} + 1 < cap" and fin: "finite {k. 0 < c k}"
    and k: "known b" and bound: "c b + 2 < max"
  shows "\<exists>j s1 s2. get b s = Some (j, s1) \<and> put i s1 = Some s2 \<and> good s2 \<and> own s2 j b \<and> cnt s2 = c(b := c b + 1) \<and> content s2 = content s"
proof -
  have "{k. 0 < cnt s k} \<subseteq> insert a {k. 0 < c k}" using base by auto
  then have "card {k. 0 < cnt s k} \<le> card (insert a {k. 0 < c k})" using fin by (intro card_mono) auto
  also have "\<dots> \<le> card {k. 0 < c k} + 1" using fin by (simp add: card_insert_if)
  finally have "card {k. 0 < cnt s k} < cap" using room by simp
  moreover have "cnt s b + 1 < max" using base bound by auto
  ultimately obtain j s1 where g: "get b s = Some (j, s1)" "good s1" "own s1 j b" "cnt s1 = (cnt s)(b := cnt s b + 1)" "content s1 = content s"
    "\<And>j m. own s j m \<Longrightarrow> own s1 j m"
    using get_law [OF good k] by blast
  have "keep (content s1) a \<or> 1 < cnt s1 a" using keep g(5) by simp
  from put_law [OF g(2) g(6) [OF own] this]
  obtain s2 where p: "put i s1 = Some s2" "good s2" "cnt s2 = (cnt s1)(a := cnt s1 a - 1)" "content s2 = content s1"
    "\<And>j m. own s1 j m \<Longrightarrow> m \<noteq> a \<or> 1 < cnt s1 a \<Longrightarrow> own s2 j m" by blast
  have "b \<noteq> a \<or> 1 < cnt s1 a" using base g(4) by auto
  then have "own s2 j b" using p(5) [OF g(3)] by blast
  moreover have "cnt s2 = c(b := c b + 1)" using base g(4) p(3) by (auto simp: fun_eq_iff)
  ultimately show ?thesis using g(1,5) p(1,2,4) by auto
qed

lemma give_up:
  assumes "good s" "own s i a" "keep (content s) a" "cnt s = c(a := c a + 1)"
  shows "\<exists>s'. put i s = Some s' \<and> good s' \<and> cnt s' = c \<and> content s' = content s"
  using put_law [OF assms(1,2)] assms(3,4) by (auto simp: fun_eq_iff)

end

section \<open>References to inodes\<close>

definition holds :: "ifs \<Rightarrow> nat \<Rightarrow> u32 \<Rightarrow> bool" where
  "holds st i k \<longleftrightarrow> i < N_INODE \<and> live st i \<and> in_num (i_cache st i) = k"

definition refs_in :: "ifs \<Rightarrow> u32 \<Rightarrow> nat \<Rightarrow> nat" where
  "refs_in st k i = (if holds st i k then in_refcnt (i_cache st i) else 0)"

definition refs :: "ifs \<Rightarrow> u32 \<Rightarrow> nat" where
  "refs st k = (\<Sum>i<N_INODE. refs_in st k i)"

text \<open>Every inode in use is in one slot, valid, and equal to its copy on the disk.\<close>

definition cache_inv :: "super_block \<Rightarrow> ifs \<Rightarrow> bool" where
  "cache_inv sb st \<longleftrightarrow> quiet st \<and> fs_sb (i_fs st) = Some sb \<and> one_slot st \<and>
     (\<forall>i < N_INODE. 0 < in_refcnt (i_cache st i) \<longrightarrow> in_valid (i_cache st i)) \<and>
     (\<forall>i k. holds st i k \<longrightarrow> in_disk (i_cache st i) = disk_inode sb (view (ibuf st)) k)"

lemma refs_split: "i < N_INODE \<Longrightarrow> refs st k = refs_in st k i + (\<Sum>j\<in>{..<N_INODE} - {i}. refs_in st k j)"
  unfolding refs_def by (rule sum.remove) auto

text \<open>A change of one slot.\<close>

lemma refs_upd:
  assumes "i < N_INODE" and "\<And>j. j \<noteq> i \<Longrightarrow> i_cache st' j = i_cache st j"
  shows "refs st' k + refs_in st k i = refs st k + refs_in st' k i"
proof -
  have "refs_in st' k j = refs_in st k j" if "j \<noteq> i" for j
    using assms(2) [OF that] by (simp add: refs_in_def holds_def live_def)
  then have "(\<Sum>j\<in>{..<N_INODE} - {i}. refs_in st' k j) = (\<Sum>j\<in>{..<N_INODE} - {i}. refs_in st k j)" by (intro sum.cong) auto
  then show ?thesis using refs_split [OF assms(1), of st k] refs_split [OF assms(1), of st' k] by simp
qed

lemma refs_holds:
  assumes "one_slot st" "holds st i k"
  shows "refs st k = in_refcnt (i_cache st i)"
proof -
  have i: "i < N_INODE" using assms(2) by (simp add: holds_def)
  have "refs_in st k j = 0" if "j \<in> {..<N_INODE} - {i}" for j
    using assms that unfolding refs_in_def holds_def one_slot_def by auto
  then have "(\<Sum>j\<in>{..<N_INODE} - {i}. refs_in st k j) = 0" by simp
  then show ?thesis using refs_split [OF i, of st k] assms(2) by (simp add: refs_in_def)
qed

lemma refs_pos: "0 < refs st k \<longleftrightarrow> (\<exists>i. holds st i k)"
proof
  assume "0 < refs st k"
  then obtain i where "i < N_INODE" "refs_in st k i \<noteq> 0" unfolding refs_def by (metis lessThan_iff less_irrefl sum.neutral)
  then show "\<exists>i. holds st i k" by (auto simp: refs_in_def split: if_splits)
next
  assume "\<exists>i. holds st i k"
  then obtain i where i: "holds st i k" by blast
  then have "0 < refs_in st k i" "i < N_INODE" by (auto simp: refs_in_def holds_def live_def)
  then show "0 < refs st k" using refs_split [of i st k] by simp
qed

lemma used_subset: "{k. 0 < refs st k} \<subseteq> (\<lambda>i. in_num (i_cache st i)) ` {..<N_INODE}"
  by (auto simp: refs_pos holds_def)

lemma finite_refs: "finite {k. 0 < refs st k}"
  by (rule finite_subset [OF used_subset]) simp

text \<open>While fewer than all inodes of the cache are in use there is a free slot.\<close>

lemma room_slot:
  assumes "cache_inv sb st" "card {k. 0 < refs st k} < N_INODE"
  shows "\<exists>i < N_INODE. in_refcnt (i_cache st i) = 0"
proof (rule ccontr)
  assume "\<not> (\<exists>i < N_INODE. in_refcnt (i_cache st i) = 0)"
  then have l: "live st i" if "i < N_INODE" for i using assms(1) that by (auto simp: cache_inv_def live_def)
  then have "inj_on (\<lambda>i. in_num (i_cache st i)) {..<N_INODE}" using assms(1) unfolding cache_inv_def one_slot_def inj_on_def by auto
  then have "card ((\<lambda>i. in_num (i_cache st i)) ` {..<N_INODE}) = N_INODE" by (simp add: card_image)
  moreover have "(\<lambda>i. in_num (i_cache st i)) ` {..<N_INODE} \<subseteq> {k. 0 < refs st k}" using l by (auto simp: refs_pos holds_def)
  ultimately have "N_INODE \<le> card {k. 0 < refs st k}" using card_mono [OF finite_refs] by metis
  then show False using assms(2) by simp
qed

lemma cache_inv_slot:
  assumes inv: "cache_inv sb st" and same: "\<And>j. j \<noteq> i \<Longrightarrow> i_cache st' j = i_cache st j"
    and q: "quiet st'" "view (ibuf st') = view (ibuf st)" "fs_sb (i_fs st') = fs_sb (i_fs st)"
    and v: "0 < in_refcnt (i_cache st' i) \<Longrightarrow> in_valid (i_cache st' i)"
    and d: "live st' i \<Longrightarrow> in_disk (i_cache st' i) = disk_inode sb (view (ibuf st)) (in_num (i_cache st' i))"
    and new: "\<And>j. j < N_INODE \<Longrightarrow> j \<noteq> i \<Longrightarrow> live st j \<Longrightarrow> in_num (i_cache st j) \<noteq> in_num (i_cache st' i)"
  shows "cache_inv sb st'"
proof -
  have h: "holds st' j k = holds st j k" if "j \<noteq> i" for j k using same [OF that] by (simp add: holds_def live_def)
  have "one_slot st'" by (rule one_slot_upd [OF _ same new]) (use inv in \<open>auto simp: cache_inv_def\<close>)
  moreover have "in_valid (i_cache st' j)" if "j < N_INODE" "0 < in_refcnt (i_cache st' j)" for j
    using that v inv same [of j] by (cases "j = i") (auto simp: cache_inv_def)
  moreover have "in_disk (i_cache st' j) = disk_inode sb (view (ibuf st')) k" if "holds st' j k" for j k
    using that d inv same [of j] h [of j] by (cases "j = i") (auto simp: cache_inv_def q(2) holds_def)
  ultimately show ?thesis using q inv by (auto simp: cache_inv_def)
qed

text \<open>The two forms a change of one slot takes: its count of references, or a fresh occupant.\<close>

lemma inode_get_law:
  assumes inv: "cache_inv sb st" and k: "inode_blk sb k < 2 ^ 32" and b: "refs st k + 1 < 2 ^ 32"
    and room: "0 < refs st k \<or> card {k. 0 < refs st k} < N_INODE"
  shows "\<exists>i st'. inode_get k st = Some (i, st') \<and> cache_inv sb st' \<and> holds st' i k \<and> refs st' = (refs st)(k := refs st k + 1) \<and>
    view (ibuf st') = view (ibuf st) \<and> (\<forall>j m. holds st j m \<longrightarrow> holds st' j m)"
proof (cases "\<exists>i. holds st i k")
  case True
  then obtain i where i: "holds st i k" by blast
  have one: "one_slot st" using inv by (simp add: cache_inv_def)
  let ?s = "upd_inode i (\<lambda>n. n\<lparr>in_refcnt := in_refcnt (i_cache st i) + 1\<rparr>) st"
  have g: "inode_get k st = Some (i, ?s)"
    using inode_get_hit [OF one, of i k] i b refs_holds [OF one i] by (simp add: holds_def)
  have h: "holds ?s j m = holds st j m" for j m using i by (auto simp: holds_def live_def)
  have "cache_inv sb ?s"
    by (rule cache_inv_slot [OF inv, of i]) (use inv i one in \<open>auto simp: cache_inv_def holds_def live_def one_slot_def\<close>)
  moreover have "refs ?s m = ((refs st)(k := refs st k + 1)) m" for m
  proof -
    have "refs_in st m i = (if m = k then in_refcnt (i_cache st i) else 0)" "refs_in ?s m i = (if m = k then in_refcnt (i_cache st i) + 1 else 0)"
      using i by (auto simp: refs_in_def holds_def live_def)
    then show ?thesis using refs_upd [of i ?s st m] i by (auto simp: holds_def)
  qed
  ultimately show ?thesis using g h i by (intro exI [of _ i] exI [of _ ?s]) (auto simp: fun_eq_iff)
next
  case False
  have q: "quiet st" "fs_sb (i_fs st) = Some sb" using inv by (auto simp: cache_inv_def)
  have miss: "\<forall>i < N_INODE. \<not> (live st i \<and> in_num (i_cache st i) = k)" using False by (auto simp: holds_def)
  have "0 < refs st k \<longleftrightarrow> False" using False refs_pos [of st k] by simp
  then have z: "refs st k = 0" "\<exists>i < N_INODE. in_refcnt (i_cache st i) = 0" using room room_slot [OF inv] by simp_all
  obtain i st1 where g: "inode_get k st = Some (i, st1)" "i < N_INODE" "in_refcnt (i_cache st i) = 0" "quiet st1" "view (ibuf st1) = view (ibuf st)"
    "fs_sb (i_fs st1) = fs_sb (i_fs st)"
    "i_cache st1 = (i_cache st)(i := \<lparr>in_disk = disk_inode sb (view (ibuf st)) k, in_valid = True, in_num = k, in_refcnt = 1\<rparr>)"
    using inode_get_miss [OF q k miss z(2)] by blast
  have h: "holds st1 j m \<longleftrightarrow> (if j = i then m = k else holds st j m)" for j m using g(2,7) by (auto simp: holds_def live_def)
  have hi: "\<not> holds st i m" for m using g(3) by (simp add: holds_def live_def)
  have "cache_inv sb st1"
    by (rule cache_inv_slot [OF inv, of i]) (use miss g(4-6) in \<open>auto simp: g(7)\<close>)
  moreover have "refs st1 m = ((refs st)(k := refs st k + 1)) m" for m
    using refs_upd [of i st1 st m] g(2,7) hi z(1) by (simp add: refs_in_def h)
  moreover have "holds st1 j m" if "holds st j m" for j m using that h hi by (cases "j = i") auto
  ultimately show ?thesis using g(1,5) h by (intro exI [of _ i] exI [of _ st1]) (auto simp: fun_eq_iff)
qed

lemma inode_put_law:
  assumes inv: "cache_inv sb st" and i: "holds st i k" and keep: "0 < id_nlink (disk_inode sb (view (ibuf st)) k) \<or> 1 < refs st k"
  shows "\<exists>st'. inode_put i st = Some st' \<and> cache_inv sb st' \<and> refs st' = (refs st)(k := refs st k - 1) \<and>
    view (ibuf st') = view (ibuf st) \<and> (\<forall>j m. holds st j m \<and> (m \<noteq> k \<or> 1 < refs st k) \<longrightarrow> holds st' j m)"
proof -
  have one: "one_slot st" and dk: "in_disk (i_cache st i) = disk_inode sb (view (ibuf st)) k" using inv i by (auto simp: cache_inv_def)
  have r: "refs st k = in_refcnt (i_cache st i)" by (rule refs_holds [OF one i])
  have p: "0 < in_refcnt (i_cache st i)" "i < N_INODE" "in_num (i_cache st i) = k" using i by (auto simp: holds_def live_def)
  let ?s = "upd_inode i (\<lambda>n. n\<lparr>in_refcnt := in_refcnt n - 1\<rparr>) st"
  have g: "inode_put i st = Some ?s" using p(1) keep r dk by (auto simp: inode_put_def Let_def)
  have h: "holds ?s j m \<longleftrightarrow> holds st j m \<and> (m \<noteq> k \<or> 1 < refs st k)" for j m
    using i one p r unfolding holds_def live_def one_slot_def by (cases "j = i") auto
  have "cache_inv sb ?s"
    by (rule cache_inv_slot [OF inv, of i]) (use inv i one in \<open>auto simp: cache_inv_def holds_def live_def one_slot_def\<close>)
  moreover have "refs ?s m = ((refs st)(k := refs st k - 1)) m" for m
  proof -
    have "refs_in st m i = (if m = k then in_refcnt (i_cache st i) else 0)" "refs_in ?s m i = (if m = k then in_refcnt (i_cache st i) - 1 else 0)"
      using i by (auto simp: refs_in_def holds_def live_def)
    then show ?thesis using refs_upd [of i ?s st m] p(1,2) r by auto
  qed
  ultimately show ?thesis using g h by (intro exI [of _ ?s]) (auto simp: fun_eq_iff)
qed

interpretation icache: refcounted inode_get inode_put "cache_inv sb" refs holds "\<lambda>st. view (ibuf st)"
    "\<lambda>v k. 0 < id_nlink (disk_inode sb v k)" "\<lambda>k. inode_blk sb k < 2 ^ 32" N_INODE "2 ^ 32" for sb
proof unfold_locales
  show "finite {k. 0 < refs s k}" for s by (rule finite_refs)
  show "0 < refs s k" if "holds s i k" for s i k using that refs_pos by blast
qed (fact inode_get_law inode_put_law)+

text \<open>Getting an inode and putting it back: as long as a slot is free or the inode is in use already, and it is still
  linked or still referred to, both succeed, and afterwards every inode has the references it had before
  and the disk is unchanged.\<close>

theorem inode_get_put:
  assumes "cache_inv sb st" and "inode_blk sb k < 2 ^ 32" and "refs st k + 1 < 2 ^ 32"
    and "0 < refs st k \<or> card {k. 0 < refs st k} < N_INODE" and "0 < id_nlink (disk_inode sb (view (ibuf st)) k) \<or> 0 < refs st k"
  shows "\<exists>i st1 st2. inode_get k st = Some (i, st1) \<and> inode_put i st1 = Some st2 \<and> cache_inv sb st2 \<and> refs st2 = refs st \<and>
    view (ibuf st2) = view (ibuf st)"
  using icache.get_put [OF assms] .


text \<open>A cache that holds one inode of an empty disk.\<close>

definition icache_example :: ifs where
  "icache_example = \<lparr>i_fs = bitmap_example, i_cache = (\<lambda>_. Inode_new)(0 := Inode_new\<lparr>in_valid := True, in_num := 7, in_refcnt := 1\<rparr>)\<rparr>"

lemma disk_inode_zero: "disk_inode sb (\<lambda>_ _. 0) k = in_disk Inode_new"
proof -
  have l: "load (\<lambda>_. 0) a 64 = replicate 64 0" for a by (simp add: load_def map_replicate_const)
  show ?thesis unfolding disk_inode_def decode_inode_def l
    by (simp add: Inode_new_def map_replicate_const)
qed

lemma icache_example_inv: "fs_sb bitmap_example = Some sb \<Longrightarrow> cache_inv sb icache_example" "refs icache_example = (\<lambda>_. 0)(7 := 1)"
proof -
  have q: "quiet icache_example" using inode_example_quiet by (simp add: quiet_def inode_example_def icache_example_def)
  have h: "holds icache_example i k \<longleftrightarrow> i = 0 \<and> k = 7" for i k
    by (auto simp: holds_def live_def icache_example_def Inode_new_def N_INODE_def)
  have one: "one_slot icache_example" unfolding one_slot_def using h unfolding holds_def by metis
  have v: "view (ibuf icache_example) = (\<lambda>_ _. 0)" using bitmap_example_ok(2) by (simp add: icache_example_def)
  show "cache_inv sb icache_example" if "fs_sb bitmap_example = Some sb"
    unfolding cache_inv_def using q one that by (auto simp: h v disk_inode_zero) (auto simp: icache_example_def Inode_new_def split: if_splits)
  show "refs icache_example = (\<lambda>_. 0)(7 := 1)"
  proof
    fix k
    show "refs icache_example k = ((\<lambda>_. 0)(7 := 1)) k"
      using refs_holds [OF one, of 0 7] refs_pos [of icache_example k] h by (auto simp: icache_example_def)
  qed
qed

theorem inode_get_put_witness:
  "\<exists>i st1 st2. inode_get 7 icache_example = Some (i, st1) \<and> inode_put i st1 = Some st2 \<and> refs st2 = (\<lambda>_. 0)(7 := 1)"
proof -
  obtain sb where sb: "fs_sb bitmap_example = Some sb" "sb_inode_start sb = 2" by (simp add: bitmap_example_def)
  have "inode_blk sb 7 < 2 ^ 32" using sb(2) by (simp add: inode_blk_def)
  then show ?thesis using inode_get_put [OF icache_example_inv(1) [OF sb(1)], of 7] unfolding icache_example_inv(2) by auto
qed

end
