(* ===== verification/Path.thy ===== *)
theory Path
  imports Dentry Icache
begin

text \<open>
  Path resolution (\<open>fs/path.rs\<close>): the elements of a path, the walk from the root or the working directory to the
  inode a path names, and the walk to the directory that holds its last element. The walks are stated
  against \<open>resolve\<close>, which follows the directories on the disk, and against the references of the inode cache.
\<close>

definition SLASH :: u8 where "SLASH = 47"

function skip_slashes :: "u8 list \<Rightarrow> nat \<Rightarrow> nat" where
  "skip_slashes path pos = (if pos < length path \<and> path ! pos = SLASH then skip_slashes path (pos + 1) else pos)"
  by pat_completeness auto
termination
  by (relation "measure (\<lambda>(path, pos). length path - pos)") auto

function skip_name :: "u8 list \<Rightarrow> nat \<Rightarrow> nat" where
  "skip_name path pos = (if pos < length path \<and> path ! pos \<noteq> SLASH then skip_name path (pos + 1) else pos)"
  by pat_completeness auto
termination
  by (relation "measure (\<lambda>(path, pos). length path - pos)") auto

declare skip_slashes.simps [simp del] skip_name.simps [simp del]

definition get_element :: "u8 list \<Rightarrow> nat \<Rightarrow> (u8 list \<times> nat) option" where
  "get_element path pos = (
     let start = skip_slashes path pos in
     if length path \<le> start then None
     else let e = skip_name path start in Some (take (e - start) (drop start path), e))"

lemma skip_slashes_drop: "pos \<le> length path \<Longrightarrow> pos \<le> skip_slashes path pos \<and> skip_slashes path pos \<le> length path \<and>
    drop (skip_slashes path pos) path = dropWhile (\<lambda>c. c = SLASH) (drop pos path)"
proof (induction path pos rule: skip_slashes.induct)
  case (1 path pos)
  show ?case
  proof (cases "pos < length path")
    case True
    then show ?thesis using 1 Cons_nth_drop_Suc [OF True, symmetric] by (subst (1 2 3) skip_slashes.simps) auto
  next
    case False
    then have "skip_slashes path pos = pos" by (subst skip_slashes.simps) simp
    then show ?thesis using False 1(2) by simp
  qed
qed

lemma skip_name_drop: "pos \<le> length path \<Longrightarrow> pos \<le> skip_name path pos \<and> skip_name path pos \<le> length path \<and>
    drop (skip_name path pos) path = dropWhile (\<lambda>c. c \<noteq> SLASH) (drop pos path) \<and>
    take (skip_name path pos - pos) (drop pos path) = takeWhile (\<lambda>c. c \<noteq> SLASH) (drop pos path)"
proof (induction path pos rule: skip_name.induct)
  case (1 path pos)
  show ?case
  proof (cases "pos < length path \<and> path ! pos \<noteq> SLASH")
    case True
    then have s: "skip_name path pos = skip_name path (pos + 1)" by (subst skip_name.simps) simp
    have d: "drop pos path = path ! pos # drop (pos + 1) path" using True Cons_nth_drop_Suc [of pos path] by simp
    have ih: "pos + 1 \<le> skip_name path (pos + 1)" "skip_name path (pos + 1) \<le> length path"
      "drop (skip_name path (pos + 1)) path = dropWhile (\<lambda>c. c \<noteq> SLASH) (drop (pos + 1) path)"
      "take (skip_name path (pos + 1) - (pos + 1)) (drop (pos + 1) path) = takeWhile (\<lambda>c. c \<noteq> SLASH) (drop (pos + 1) path)"
      using 1 True by auto
    have "skip_name path (pos + 1) - pos = Suc (skip_name path (pos + 1) - (pos + 1))" using ih(1) by simp
    then show ?thesis using True ih unfolding s d by simp
  next
    case False
    then have s: "skip_name path pos = pos" by (subst skip_name.simps) auto
    show ?thesis
    proof (cases "pos < length path")
      case True
      then have "drop pos path = SLASH # drop (Suc pos) path" using False Cons_nth_drop_Suc [of pos path] by simp
      then show ?thesis using s 1(2) by simp
    qed (use s 1(2) in simp)
  qed
qed

text \<open>An element is never empty, so every element moves the position on.\<close>

lemma get_element_moves:
  assumes "get_element path pos = Some (name, pos')" and "pos \<le> length path"
  shows "pos < pos' \<and> pos' \<le> length path"
proof -
  let ?s = "skip_slashes path pos"
  have s: "pos \<le> ?s" "?s < length path" "pos' = skip_name path ?s" "drop ?s path = dropWhile (\<lambda>c. c = SLASH) (drop pos path)"
    using assms skip_slashes_drop [OF assms(2)] by (auto simp: get_element_def Let_def split: if_splits)
  have n: "?s \<le> pos'" "pos' \<le> length path" "take (pos' - ?s) (drop ?s path) = takeWhile (\<lambda>c. c \<noteq> SLASH) (drop ?s path)"
    using skip_name_drop [of ?s path] s(2,3) by auto
  have "drop ?s path \<noteq> []" using s(2) by simp
  then have "hd (drop ?s path) \<noteq> SLASH" using hd_dropWhile [of "\<lambda>c. c = SLASH" "drop pos path"] s(4) by simp
  then have "take (pos' - ?s) (drop ?s path) \<noteq> []" using n(3) \<open>drop ?s path \<noteq> []\<close> by (cases "drop ?s path") auto
  then have "?s < pos'" by (cases "pos' \<le> ?s") auto
  then show ?thesis using s(1) n(2) by simp
qed

lemma get_element_end: "length path < pos \<Longrightarrow> get_element path pos = None"
  by (simp add: get_element_def skip_slashes.simps)

section \<open>The walks\<close>

function path_loop :: "u8 list \<Rightarrow> nat \<Rightarrow> nat \<Rightarrow> ifs \<Rightarrow> (nat option \<times> ifs) option" where
  "path_loop path pos i st =
     (case get_element path pos of
        None \<Rightarrow> Some (Some i, st)
      | Some (name, pos') \<Rightarrow>
          if id_type (in_disk (i_cache st i)) \<noteq> INODE_TYPE_DIR then do { st \<leftarrow> inode_put i st; Some (None, st) }
          else Option.bind (dentry_search i name st) (\<lambda>(r, st).
            case r of
              Some inum \<Rightarrow> Option.bind (inode_get inum st) (\<lambda>(j, st). Option.bind (inode_put i st) (\<lambda>st. path_loop path pos' j st))
            | None \<Rightarrow> do { st \<leftarrow> inode_put i st; Some (None, st) }))"
  by pat_completeness auto
termination
proof (relation "measure (\<lambda>(path, pos, _). length path - pos)")
  fix path pos i st x name pos'
  assume a: "get_element path pos = Some x" "(name, pos') = x"
  have "pos \<le> length path" using a get_element_end [of path pos] by (cases "length path < pos") auto
  then have "pos < pos' \<and> pos' \<le> length path" using a get_element_moves by metis
  then show "((path, pos', j, s), (path, pos, i, st)) \<in> measure (\<lambda>(path, pos, _). length path - pos)" for j s by (auto intro: diff_less_mono2)
qed simp

declare path_loop.simps [simp del]

definition start_inum :: "u32 \<Rightarrow> u8 list \<Rightarrow> u32" where
  "start_inum cwd_inum path = (if take 1 path = [SLASH] then ROOT_INODE else cwd_inum)"

definition path_to_inode_at :: "u32 \<Rightarrow> u8 list \<Rightarrow> ifs \<Rightarrow> (nat option \<times> ifs) option" where
  "path_to_inode_at cwd_inum path st = do {
     (i, st) \<leftarrow> inode_get (start_inum cwd_inum path) st;
     path_loop path 0 i st
   }"

definition path_to_inode :: "u8 list \<Rightarrow> ifs \<Rightarrow> (nat option \<times> ifs) option" where
  "path_to_inode path st = path_to_inode_at ROOT_INODE path st"

text \<open>The name stored into the buffer of the caller: indexing past its end panics.\<close>

definition store_name :: "u8 list \<Rightarrow> u8 list \<Rightarrow> u8 list option" where
  "store_name name name_buf = (
     let len = (if MAXLEN_FILENAME < length name then MAXLEN_FILENAME else length name) in
     if length name_buf < len then None else Some (take len name @ replicate (length name_buf - len) 0))"

function parent_loop :: "u8 list \<Rightarrow> u8 list \<Rightarrow> nat \<Rightarrow> nat \<Rightarrow> u8 list \<Rightarrow> ifs \<Rightarrow> (nat option \<times> u8 list \<times> ifs) option" where
  "parent_loop path name pos i name_buf st =
     (case get_element path pos of
        None \<Rightarrow> do { name_buf \<leftarrow> store_name name name_buf; Some (Some i, name_buf, st) }
      | Some (next_name, pos') \<Rightarrow>
          if id_type (in_disk (i_cache st i)) \<noteq> INODE_TYPE_DIR then do { st \<leftarrow> inode_put i st; Some (None, name_buf, st) }
          else Option.bind (dentry_search i name st) (\<lambda>(r, st).
            case r of
              Some inum \<Rightarrow> Option.bind (inode_get inum st) (\<lambda>(j, st). Option.bind (inode_put i st) (\<lambda>st. parent_loop path next_name pos' j name_buf st))
            | None \<Rightarrow> do { st \<leftarrow> inode_put i st; Some (None, name_buf, st) }))"
  by pat_completeness auto
termination
proof (relation "measure (\<lambda>(path, _, pos, _). length path - pos)")
  fix path name pos i name_buf st x next_name pos'
  assume a: "get_element path pos = Some x" "(next_name, pos') = x"
  have "pos \<le> length path" using a get_element_end [of path pos] by (cases "length path < pos") auto
  then have "pos < pos' \<and> pos' \<le> length path" using a get_element_moves by metis
  then show "((path, next_name, pos', j, name_buf, s), (path, name, pos, i, name_buf, st)) \<in> measure (\<lambda>(path, _, pos, _). length path - pos)" for j s by (auto intro: diff_less_mono2)
qed simp

declare parent_loop.simps [simp del]

definition path_to_parent_inode_at :: "u32 \<Rightarrow> u8 list \<Rightarrow> u8 list \<Rightarrow> ifs \<Rightarrow> (nat option \<times> u8 list \<times> ifs) option" where
  "path_to_parent_inode_at cwd_inum path name_buf st = do {
     (i, st) \<leftarrow> inode_get (start_inum cwd_inum path) st;
     (case get_element path 0 of
        None \<Rightarrow> Some (Some i, name_buf, st)
      | Some (name, pos) \<Rightarrow> parent_loop path name pos i name_buf st)
   }"


section \<open>The elements of a path\<close>

text \<open>The reference: cut the path at every slash and leave the empty pieces out.\<close>

fun split_slash :: "u8 list \<Rightarrow> u8 list list" where
  "split_slash [] = [[]]"
| "split_slash (c # cs) = (if c = SLASH then [] # split_slash cs else (c # hd (split_slash cs)) # tl (split_slash cs))"

definition path_names :: "u8 list \<Rightarrow> u8 list list" where
  "path_names path = filter (\<lambda>n. n \<noteq> []) (split_slash path)"

lemma split_slash_ne [simp]: "split_slash cs \<noteq> []"
  by (cases cs) auto

lemma split_slash_name:
  "split_slash cs = takeWhile (\<lambda>c. c \<noteq> SLASH) cs # (case dropWhile (\<lambda>c. c \<noteq> SLASH) cs of [] \<Rightarrow> [] | _ # ds \<Rightarrow> split_slash ds)"
  by (induction cs) (auto split: list.splits)

lemma path_names_slashes: "path_names (dropWhile (\<lambda>c. c = SLASH) cs) = path_names cs"
  by (induction cs) (auto simp: path_names_def)

lemma path_names_slash [simp]: "path_names (SLASH # ds) = path_names ds"
  by (simp add: path_names_def)

lemma path_names_name:
  assumes "cs \<noteq> []" "hd cs \<noteq> SLASH"
  shows "path_names cs = takeWhile (\<lambda>c. c \<noteq> SLASH) cs # path_names (dropWhile (\<lambda>c. c \<noteq> SLASH) cs)"
proof -
  let ?r = "dropWhile (\<lambda>c. c \<noteq> SLASH) cs"
  have t: "takeWhile (\<lambda>c. c \<noteq> SLASH) cs \<noteq> []" using assms by (cases cs) auto
  show ?thesis
  proof (cases ?r)
    case Nil
    then show ?thesis using t split_slash_name [of cs] unfolding path_names_def Nil by simp
  next
    case (Cons c ds)
    then have "c = SLASH" using hd_dropWhile [of "\<lambda>c. c \<noteq> SLASH" cs] by simp
    then show ?thesis using t split_slash_name [of cs] unfolding path_names_def Cons by simp
  qed
qed

lemma get_element_names:
  assumes "pos \<le> length path"
  shows "case get_element path pos of
      None \<Rightarrow> path_names (drop pos path) = []
    | Some (name, pos') \<Rightarrow> path_names (drop pos path) = name # path_names (drop pos' path)"
proof -
  let ?s = "skip_slashes path pos"
  have s: "?s \<le> length path" "drop ?s path = dropWhile (\<lambda>c. c = SLASH) (drop pos path)" using skip_slashes_drop [OF assms] by auto
  have eq: "path_names (drop pos path) = path_names (drop ?s path)" using s(2) path_names_slashes by simp
  show ?thesis
  proof (cases "length path \<le> ?s")
    case True
    then show ?thesis using eq by (simp add: get_element_def path_names_def)
  next
    case False
    then have ne: "drop ?s path \<noteq> []" by simp
    then have "hd (drop ?s path) \<noteq> SLASH" using hd_dropWhile [of "\<lambda>c. c = SLASH" "drop pos path"] s(2) by simp
    from path_names_name [OF ne this] show ?thesis
      using skip_name_drop [OF s(1)] False eq by (simp add: get_element_def Let_def)
  qed
qed

section \<open>Resolution on the disk\<close>

fun resolve :: "super_block \<Rightarrow> (u32 \<Rightarrow> block) \<Rightarrow> u32 \<Rightarrow> u8 list list \<Rightarrow> u32 option" where
  "resolve sb v k [] = Some k"
| "resolve sb v k (n # ns) =
     (if id_type (disk_inode sb v k) \<noteq> INODE_TYPE_DIR then None
      else case dir_lookup (disk_inode sb v k) v n of None \<Rightarrow> None | Some m \<Rightarrow> resolve sb v m ns)"

text \<open>Every inode the walk passes is linked and smaller than the offsets can count.\<close>

fun walk_ok :: "super_block \<Rightarrow> (u32 \<Rightarrow> block) \<Rightarrow> u32 \<Rightarrow> u8 list list \<Rightarrow> bool" where
  "walk_ok sb v k [] = True"
| "walk_ok sb v k (n # ns) =
     (0 < id_nlink (disk_inode sb v k) \<and> id_size (disk_inode sb v k) + BLOCK_SIZE < 2 ^ 32 \<and>
      (case dir_lookup (disk_inode sb v k) v n of None \<Rightarrow> True | Some m \<Rightarrow> walk_ok sb v m ns))"

text \<open>The state in which a walk holds the inode \<open>k\<close> in slot \<open>i\<close> on top of the references \<open>c\<close>.\<close>

definition at_inode :: "super_block \<Rightarrow> (u32 \<Rightarrow> nat) \<Rightarrow> ifs \<Rightarrow> nat \<Rightarrow> u32 \<Rightarrow> bool" where
  "at_inode sb c st i k \<longleftrightarrow> cache_inv sb st \<and> holds st i k \<and> refs st = c(k := c k + 1)"

definition roomy :: "super_block \<Rightarrow> (u32 \<Rightarrow> nat) \<Rightarrow> bool" where
  "roomy sb c \<longleftrightarrow> finite {k. 0 < c k} \<and> card {k. 0 < c k} + 1 < N_INODE \<and> (\<forall>k. c k + 2 < 2 ^ 32) \<and> sb_inode_start sb + 2 ^ 26 \<le> 2 ^ 32"

lemma same_files_cache:
  assumes "same_files st st'"
  shows "cache_inv sb st \<Longrightarrow> cache_inv sb st'" "refs st' = refs st" "holds st' = holds st"
proof -
  have s: "i_cache st' = i_cache st" "view (ibuf st') = view (ibuf st)" "fs_sb (i_fs st') = fs_sb (i_fs st)" "quiet st'"
    using assms by (auto simp: same_files_def)
  show h: "holds st' = holds st" by (simp add: fun_eq_iff holds_def live_def s)
  show "refs st' = refs st" unfolding fun_eq_iff refs_def refs_in_def h s(1) by simp
  show "cache_inv sb st \<Longrightarrow> cache_inv sb st'" using s h by (auto simp: cache_inv_def one_slot_def live_def)
qed

lemma at_inode_same: "at_inode sb c st i k \<Longrightarrow> same_files st st' \<Longrightarrow> at_inode sb c st' i k \<and> view (ibuf st') = view (ibuf st)"
  using same_files_cache(1) [of st st' sb] same_files_cache(2,3) [of st st'] by (simp add: at_inode_def same_files_def)

lemma at_inode_disk: "at_inode sb c st i k \<Longrightarrow> in_disk (i_cache st i) = disk_inode sb (view (ibuf st)) k"
  by (auto simp: at_inode_def cache_inv_def)

lemma dir_lookup_bound: "dir_lookup d v n = Some m \<Longrightarrow> m < 2 ^ 32"
proof -
  have "de_inum (decode_dentry bs) < 2 ^ 32" for bs
  proof -
    have "le_val (take 4 (drop MAXLEN_FILENAME bs)) < 256 ^ length (take 4 (drop MAXLEN_FILENAME bs))" by (rule le_val_bound)
    also have "\<dots> \<le> 256 ^ 4" by (rule power_increasing) auto
    finally show ?thesis by (simp add: decode_dentry_def)
  qed
  then show "dir_lookup d v n = Some m \<Longrightarrow> m < 2 ^ 32" by (auto simp: dir_lookup_def dir_entry_def)
qed

lemma roomy_known: "roomy sb c \<Longrightarrow> m < 2 ^ 32 \<Longrightarrow> inode_blk sb m < 2 ^ 32"
  by (auto simp: roomy_def inode_blk_def)

text \<open>One step of a walk, and giving up.\<close>

lemma walk_step:
  assumes a: "at_inode sb c st i k" and r: "roomy sb c" and k: "0 < id_nlink (disk_inode sb (view (ibuf st)) k)" and m: "m < 2 ^ 32"
  shows "\<exists>j st1 st2. inode_get m st = Some (j, st1) \<and> inode_put i st1 = Some st2 \<and> at_inode sb c st2 j m \<and> view (ibuf st2) = view (ibuf st)"
proof -
  have a': "cache_inv sb st" "holds st i k" "refs st = c(k := c k + 1)" using a by (auto simp: at_inode_def)
  have r': "finite {k. 0 < c k}" "card {k. 0 < c k} + 1 < N_INODE" "c m + 2 < 2 ^ 32" using r by (auto simp: roomy_def)
  show ?thesis
    using icache.walk_on [OF a'(1,2) k a'(3) r'(2,1) roomy_known [OF r m] r'(3)] unfolding at_inode_def by blast
qed

lemma walk_end:
  assumes "at_inode sb c st i k" and "0 < id_nlink (disk_inode sb (view (ibuf st)) k)"
  shows "\<exists>st'. inode_put i st = Some st' \<and> cache_inv sb st' \<and> refs st' = c \<and> view (ibuf st') = view (ibuf st)"
  using icache.give_up [of sb st i k c] assms by (auto simp: at_inode_def)

text \<open>Where a walk ends.\<close>

definition walk_result :: "super_block \<Rightarrow> (u32 \<Rightarrow> nat) \<Rightarrow> (u32 \<Rightarrow> block) \<Rightarrow> u32 option \<Rightarrow> nat option \<Rightarrow> ifs \<Rightarrow> bool" where
  "walk_result sb c v target r st \<longleftrightarrow> cache_inv sb st \<and> view (ibuf st) = v \<and>
     (case target of
        None \<Rightarrow> r = None \<and> refs st = c
      | Some m \<Rightarrow> (\<exists>j. r = Some j \<and> holds st j m \<and> refs st = c(m := c m + 1)))"


lemma search_here:
  assumes a: "at_inode sb c st i k" and sz: "id_size (disk_inode sb (view (ibuf st)) k) + BLOCK_SIZE < 2 ^ 32"
  shows "\<exists>st'. dentry_search i name st = Some (dir_lookup (disk_inode sb (view (ibuf st)) k) (view (ibuf st)) name, st') \<and>
    at_inode sb c st' i k \<and> view (ibuf st') = view (ibuf st)"
proof -
  have q: "quiet st" using a by (auto simp: at_inode_def cache_inv_def)
  obtain st' where "dentry_search i name st = Some (dir_lookup (disk_inode sb (view (ibuf st)) k) (view (ibuf st)) name, st')" "same_files st st'"
    using dentry_search_spec [OF q at_inode_disk [OF a, symmetric] sz] by blast
  then show ?thesis using at_inode_same [OF a] by blast
qed

lemma path_loop_spec:
  assumes "at_inode sb c st i k" and "roomy sb c" and "view (ibuf st) = v" and "pos \<le> length path" and "walk_ok sb v k (path_names (drop pos path))"
  shows "\<exists>r st'. path_loop path pos i st = Some (r, st') \<and> walk_result sb c v (resolve sb v k (path_names (drop pos path))) r st'"
  using assms
proof (induction "length path - pos" arbitrary: pos i k st rule: less_induct)
  case less
  note a = less.prems(1) and v = less.prems(3)
  show ?case
  proof (cases "get_element path pos")
    case None
    then have "path_names (drop pos path) = []" using get_element_names [OF less.prems(4)] by simp
    then show ?thesis using None a v by (subst path_loop.simps) (auto simp: walk_result_def at_inode_def)
  next
    case (Some e)
    then obtain name pos' where e: "get_element path pos = Some (name, pos')" by (cases e) auto
    have ns: "path_names (drop pos path) = name # path_names (drop pos' path)" using get_element_names [OF less.prems(4)] e by simp
    have p: "pos < pos'" "pos' \<le> length path" using get_element_moves [OF e less.prems(4)] by auto
    have ok: "0 < id_nlink (disk_inode sb v k)" "id_size (disk_inode sb v k) + BLOCK_SIZE < 2 ^ 32"
      "\<And>m. dir_lookup (disk_inode sb v k) v name = Some m \<Longrightarrow> walk_ok sb v m (path_names (drop pos' path))"
      using less.prems(5) by (auto simp: ns)
    have d: "in_disk (i_cache st i) = disk_inode sb v k" using at_inode_disk [OF a] v by simp
    show ?thesis
    proof (cases "id_type (disk_inode sb v k) = INODE_TYPE_DIR")
      case False
      then show ?thesis using walk_end [OF a] ok(1) v e d by (subst path_loop.simps) (auto simp: ns walk_result_def)
    next
      case True
      obtain st1 where s1: "dentry_search i name st = Some (dir_lookup (disk_inode sb v k) v name, st1)" "at_inode sb c st1 i k" "view (ibuf st1) = v"
        using search_here [OF a, of name] ok(2) unfolding v by blast
      show ?thesis
      proof (cases "dir_lookup (disk_inode sb v k) v name")
        case None
        then show ?thesis using walk_end [OF s1(2)] ok(1) s1 e d True by (subst path_loop.simps) (auto simp: ns walk_result_def)
      next
        case (Some m)
        obtain j st2 st3 where s3: "inode_get m st1 = Some (j, st2)" "inode_put i st2 = Some st3" "at_inode sb c st3 j m" "view (ibuf st3) = v"
          using walk_step [OF s1(2) less.prems(2) _ dir_lookup_bound [OF Some]] ok(1) unfolding s1(3) by blast
        have dec: "length path - pos' < length path - pos" using p by (intro diff_less_mono2) auto
        have "path_loop path pos i st = path_loop path pos' j st3"
          using e d True s1(1) Some s3(1,2) by (subst path_loop.simps) simp
        then show ?thesis using less.hyps [OF dec s3(3) less.prems(2) s3(4) p(2) ok(3) [OF Some]] True Some by (simp add: ns)
      qed
    qed
  qed
qed

lemma walk_start:
  assumes "cache_inv sb st" and "roomy sb (refs st)" and "k < 2 ^ 32"
  shows "\<exists>i st1. inode_get k st = Some (i, st1) \<and> at_inode sb (refs st) st1 i k \<and> view (ibuf st1) = view (ibuf st)"
proof -
  have r: "card {k. 0 < refs st k} < N_INODE" "refs st k + 1 < 2 ^ 32" using assms(2) unfolding roomy_def by (auto dest: spec [of _ k])
  show ?thesis using icache.get_law [OF assms(1) roomy_known [OF assms(2,3)] r(2)] r(1) unfolding at_inode_def by blast
qed

lemma path_to_inode_at_spec:
  assumes "cache_inv sb st" and "roomy sb (refs st)" and "start_inum cwd path < 2 ^ 32"
    and "walk_ok sb (view (ibuf st)) (start_inum cwd path) (path_names path)"
  shows "\<exists>r st'. path_to_inode_at cwd path st = Some (r, st') \<and>
    walk_result sb (refs st) (view (ibuf st)) (resolve sb (view (ibuf st)) (start_inum cwd path) (path_names path)) r st'"
proof -
  obtain i st1 where s1: "inode_get (start_inum cwd path) st = Some (i, st1)" "at_inode sb (refs st) st1 i (start_inum cwd path)" "view (ibuf st1) = view (ibuf st)"
    using walk_start [OF assms(1-3)] by blast
  then show ?thesis using path_loop_spec [OF s1(2) assms(2) s1(3), of 0 path] assms(4) by (simp add: path_to_inode_at_def)
qed


text \<open>C13. Resolving a path: \<open>path_to_inode_at\<close> starts at the root for a path that begins with a slash and at the
  working directory otherwise, follows the elements between slashes through the directories on the disk, and
  returns the inode they lead to with exactly one new reference; when an element is missing or is
  looked up in something that is not a directory it returns nothing and leaves every reference as it was. The disk never changes.\<close>

theorem path_to_inode_at_correct:
  assumes "cache_inv sb st" and "roomy sb (refs st)" and "start_inum cwd path < 2 ^ 32"
    and "walk_ok sb (view (ibuf st)) (start_inum cwd path) (path_names path)"
  shows "\<exists>r st'. path_to_inode_at cwd path st = Some (r, st') \<and>
    walk_result sb (refs st) (view (ibuf st)) (resolve sb (view (ibuf st)) (start_inum cwd path) (path_names path)) r st'"
  using path_to_inode_at_spec [OF assms] .

text \<open>A disk whose root directory has one entry, \<open>etc\<close>, for inode 5.\<close>

definition root_dir :: inode_disk where
  "root_dir = \<lparr>id_type = INODE_TYPE_DIR, id_major = 0, id_minor = 0, id_nlink = 1, id_size = 64, id_index = 50 # replicate 12 0\<rparr>"

definition etc_entry :: dentry_disk where
  "etc_entry = \<lparr>de_name = new_name [101, 116, 99], de_inum = 5\<rparr>"

definition path_disk :: "u32 \<Rightarrow> block" where
  "path_disk = (\<lambda>_ _. 0)(50 := store (\<lambda>_. 0) 0 (encode_dentry etc_entry), 2 := store (\<lambda>_. 0) 0 (encode_inode root_dir))"

definition path_example :: ifs where
  "path_example = \<lparr>i_fs = bitmap_example\<lparr>fs_b := buffer_init \<lparr>bs_cache = LRUCache_new, bs_disk = path_disk\<rparr>\<rparr>, i_cache = \<lambda>_. Inode_new\<rparr>"

lemma path_example_view: "view (ibuf path_example) = path_disk"
  by (simp add: view_def path_example_def buffer_init_pin fun_eq_iff) (simp add: buffer_init_def)

lemma path_example_inv:
  assumes "fs_sb bitmap_example = Some sb"
  shows "cache_inv sb path_example" "refs path_example = (\<lambda>_. 0)"
proof -
  have l: "\<not> live path_example i" "in_refcnt (i_cache path_example i) = 0" for i by (simp_all add: live_def path_example_def Inode_new_def)
  have "buf_inv (ibuf path_example)" using buffer_init_inv unfolding buf_inv_def path_example_def by auto
  moreover have "pin (ibuf path_example) = (\<lambda>_. None)" by (simp add: path_example_def buffer_init_pin)
  ultimately show "cache_inv sb path_example" using l assms by (simp add: cache_inv_def quiet_def one_slot_def holds_def) (simp add: path_example_def)
  show "refs path_example = (\<lambda>_. 0)" using l by (simp add: fun_eq_iff refs_def refs_in_def holds_def)
qed

lemma path_example_root:
  assumes "sb_inode_start sb = 2"
  shows "disk_inode sb path_disk 0 = root_dir" "dir_lookup root_dir path_disk [101, 116, 99] = Some 5"
proof -
  have "inode_disk_wf root_dir" by (simp add: inode_disk_wf_def root_dir_def INODE_TYPE_DIR_def INODE_INDEX_3_def)
  from disk_inode_store [OF this, of sb "(\<lambda>_ _. 0)(50 := store (\<lambda>_. 0) 0 (encode_dentry etc_entry))" 0 0] assms
  show "disk_inode sb path_disk 0 = root_dir" by (simp add: inode_blk_def path_disk_def)
  have n: "length (new_name [101, 116, 99]) = MAXLEN_FILENAME" "(new_name [101, 116, 99] :: u8 list) ! 0 = 101"
    by (simp_all add: nth_new_name MAXLEN_FILENAME_def)
  have "length (encode_dentry etc_entry) = 64" by (simp add: encode_dentry_def etc_entry_def MAXLEN_FILENAME_def del: le_bytes.simps)
  then have "map (file_byte root_dir path_disk) [0..<0 + 64] = encode_dentry etc_entry"
    using block_bytes [of 0 64 root_dir path_disk] load_store_same [of "\<lambda>_. 0" 0 "encode_dentry etc_entry"]
    by (simp add: file_block_def root_dir_def BLOCK_SIZE_def path_disk_def del: upt_rec_numeral)
  then have e: "dir_entry root_dir path_disk 0 = etc_entry"
    using dentry_codec [of etc_entry] n(1) by (simp add: dir_entry_def etc_entry_def del: upt_rec_numeral)
  have "entry_is [101, 116, 99] etc_entry" using n by (simp add: entry_is_def etc_entry_def name_match_iff)
  moreover have "[0..<id_size root_dir div 64] = [0]" by (simp add: root_dir_def)
  ultimately show "dir_lookup root_dir path_disk [101, 116, 99] = Some 5"
    by (simp add: dir_lookup_def find_entry_def e) (simp add: etc_entry_def)
qed

theorem path_to_inode_at_correct_witness:
  "\<exists>j st'. path_to_inode_at 3 [47, 101, 116, 99] path_example = Some (Some j, st') \<and> holds st' j 5 \<and> refs st' = (\<lambda>_. 0)(5 := 1)"
proof -
  obtain sb where sb: "fs_sb bitmap_example = Some sb" "sb_inode_start sb = 2" by (simp add: bitmap_example_def)
  have n: "path_names [47, 101, 116, 99] = [[101, 116, 99]]" "start_inum 3 [47, 101, 116, 99] = 0"
    by (simp_all add: path_names_def start_inum_def ROOT_INODE_def SLASH_def)
  have r: "resolve sb path_disk 0 [[101, 116, 99]] = Some 5" "walk_ok sb path_disk 0 [[101, 116, 99]]"
    using path_example_root [OF sb(2)] by (simp_all add: root_dir_def BLOCK_SIZE_def)
  have "roomy sb (\<lambda>_. 0)" using sb(2) by (simp add: roomy_def N_INODE_def)
  then show ?thesis
    using path_to_inode_at_correct [OF path_example_inv(1) [OF sb(1)], of 3 "[47, 101, 116, 99]"] r
    unfolding path_example_inv(2) [OF sb(1)] path_example_view n walk_result_def by auto
qed


lemma store_name_fits: "MAXLEN_FILENAME \<le> length buf \<Longrightarrow> store_name name buf = Some (take MAXLEN_FILENAME name @ replicate (length buf - min MAXLEN_FILENAME (length name)) 0)"
  by (auto simp: store_name_def Let_def min_def)

lemma parent_loop_spec:
  assumes "at_inode sb c st i k" and "roomy sb c" and "view (ibuf st) = v" and "pos \<le> length path" and "MAXLEN_FILENAME \<le> length buf"
    and "walk_ok sb v k (butlast (name # path_names (drop pos path)))"
  shows "\<exists>r buf' st'. parent_loop path name pos i buf st = Some (r, buf', st') \<and>
    walk_result sb c v (resolve sb v k (butlast (name # path_names (drop pos path)))) r st' \<and>
    Some buf' = (if r = None then Some buf else store_name (last (name # path_names (drop pos path))) buf)"
  using assms
proof (induction "length path - pos" arbitrary: pos i k st name rule: less_induct)
  case less
  note a = less.prems(1) and v = less.prems(3)
  show ?case
  proof (cases "get_element path pos")
    case None
    then have "path_names (drop pos path) = []" using get_element_names [OF less.prems(4)] by simp
    then show ?thesis using None a v store_name_fits [OF less.prems(5), of name]
      by (subst parent_loop.simps) (auto simp: walk_result_def at_inode_def)
  next
    case (Some e)
    then obtain next_name pos' where e: "get_element path pos = Some (next_name, pos')" by (cases e) auto
    have ns: "path_names (drop pos path) = next_name # path_names (drop pos' path)" using get_element_names [OF less.prems(4)] e by simp
    have p: "pos < pos'" "pos' \<le> length path" using get_element_moves [OF e less.prems(4)] by auto
    let ?rest = "butlast (next_name # path_names (drop pos' path))"
    have bl: "butlast (name # path_names (drop pos path)) = name # ?rest" "last (name # path_names (drop pos path)) = last (next_name # path_names (drop pos' path))"
      by (simp_all add: ns)
    have ok: "0 < id_nlink (disk_inode sb v k)" "id_size (disk_inode sb v k) + BLOCK_SIZE < 2 ^ 32"
      "\<And>m. dir_lookup (disk_inode sb v k) v name = Some m \<Longrightarrow> walk_ok sb v m ?rest"
      using less.prems(6) unfolding bl by (auto simp del: butlast.simps)
    have d: "in_disk (i_cache st i) = disk_inode sb v k" using at_inode_disk [OF a] v by simp
    show ?thesis
    proof (cases "id_type (disk_inode sb v k) = INODE_TYPE_DIR")
      case False
      then show ?thesis using walk_end [OF a] ok(1) v e d unfolding bl by (subst parent_loop.simps) (auto simp: walk_result_def simp del: butlast.simps)
    next
      case True
      obtain st1 where s1: "dentry_search i name st = Some (dir_lookup (disk_inode sb v k) v name, st1)" "at_inode sb c st1 i k" "view (ibuf st1) = v"
        using search_here [OF a, of name] ok(2) unfolding v by blast
      show ?thesis
      proof (cases "dir_lookup (disk_inode sb v k) v name")
        case None
        then show ?thesis using walk_end [OF s1(2)] ok(1) s1 e d True unfolding bl
          by (subst parent_loop.simps) (auto simp: walk_result_def simp del: butlast.simps)
      next
        case (Some m)
        obtain j st2 st3 where s3: "inode_get m st1 = Some (j, st2)" "inode_put i st2 = Some st3" "at_inode sb c st3 j m" "view (ibuf st3) = v"
          using walk_step [OF s1(2) less.prems(2) _ dir_lookup_bound [OF Some]] ok(1) unfolding s1(3) by blast
        have dec: "length path - pos' < length path - pos" using p by (intro diff_less_mono2) auto
        have "parent_loop path name pos i buf st = parent_loop path next_name pos' j buf st3"
          using e d True s1(1) Some s3(1,2) by (subst parent_loop.simps) simp
        moreover have "resolve sb v k (name # ?rest) = resolve sb v m ?rest" using True Some by (simp del: butlast.simps)
        ultimately show ?thesis using less.hyps [OF dec s3(3) less.prems(2) s3(4) p(2) less.prems(5) ok(3) [OF Some]] unfolding bl by metis
      qed
    qed
  qed
qed

text \<open>C15. Resolving the parent of a path: \<open>path_to_parent_inode_at\<close> resolves all elements but the last and returns that inode with
  one new reference and the last element, cut to 60 bytes and padded with zeros, in the buffer of the caller. For a
  path without elements it returns the start with the buffer untouched; when the walk fails, no reference is left behind.\<close>

theorem path_to_parent_correct:
  assumes "cache_inv sb st" and "roomy sb (refs st)" and "start_inum cwd path < 2 ^ 32" and "MAXLEN_FILENAME \<le> length buf"
    and "walk_ok sb (view (ibuf st)) (start_inum cwd path) (butlast (path_names path))"
  shows "\<exists>r buf' st'. path_to_parent_inode_at cwd path buf st = Some (r, buf', st') \<and>
    walk_result sb (refs st) (view (ibuf st)) (resolve sb (view (ibuf st)) (start_inum cwd path) (butlast (path_names path))) r st' \<and>
    Some buf' = (if r = None \<or> path_names path = [] then Some buf else store_name (last (path_names path)) buf)"
proof -
  obtain i st1 where s1: "inode_get (start_inum cwd path) st = Some (i, st1)" "at_inode sb (refs st) st1 i (start_inum cwd path)" "view (ibuf st1) = view (ibuf st)"
    using walk_start [OF assms(1-3)] by blast
  show ?thesis
  proof (cases "get_element path 0")
    case None
    then have "path_names path = []" using get_element_names [of 0 path] by simp
    then show ?thesis using s1 None by (auto simp: path_to_parent_inode_at_def walk_result_def at_inode_def)
  next
    case (Some e)
    then obtain name pos where e: "get_element path 0 = Some (name, pos)" by (cases e) auto
    have ns: "path_names path = name # path_names (drop pos path)" using get_element_names [of 0 path] e by simp
    have "pos \<le> length path" using get_element_moves [OF e] by simp
    then show ?thesis
      using parent_loop_spec [OF s1(2) assms(2) s1(3) _ assms(4)] assms(5) s1(1) e
      unfolding path_to_parent_inode_at_def ns by (simp del: butlast.simps last.simps)
  qed
qed

theorem path_to_parent_correct_witness:
  "\<exists>j st'. path_to_parent_inode_at 3 [47, 101, 116, 99, 47, 97] (replicate 60 1) path_example = Some (Some j, 97 # replicate 59 0, st') \<and> holds st' j 5"
proof -
  obtain sb where sb: "fs_sb bitmap_example = Some sb" "sb_inode_start sb = 2" by (simp add: bitmap_example_def)
  have n: "path_names [47, 101, 116, 99, 47, 97] = [[101, 116, 99], [97]]" "start_inum 3 [47, 101, 116, 99, 47, 97] = 0"
    by (simp_all add: path_names_def start_inum_def ROOT_INODE_def SLASH_def)
  have r: "resolve sb path_disk 0 [[101, 116, 99]] = Some 5" "walk_ok sb path_disk 0 [[101, 116, 99]]"
    using path_example_root [OF sb(2)] by (simp_all add: root_dir_def BLOCK_SIZE_def)
  have "roomy sb (\<lambda>_. 0)" using sb(2) by (simp add: roomy_def N_INODE_def)
  moreover have "store_name [97] (replicate 60 1) = Some (97 # replicate 59 0)" by (simp add: store_name_def MAXLEN_FILENAME_def)
  ultimately show ?thesis
    using path_to_parent_correct [OF path_example_inv(1) [OF sb(1)], of 3 "[47, 101, 116, 99, 47, 97]" "replicate 60 1"] r
    unfolding path_example_inv(2) [OF sb(1)] path_example_view n walk_result_def by (auto simp: MAXLEN_FILENAME_def)
qed

end
