(* ===== verification/File.thy ===== *)
theory File
  imports Path Uvm
begin

text \<open>
  The table of open files (\<open>fs/file.rs\<close>): 128 entries with a count of the descriptors that refer to each. The
  descriptors of a process are indices into the table. The lemmas say how many descriptors an entry has
  after each operation and when its inode is given back.
\<close>

definition NFILE :: usize where "NFILE = 128"

datatype FileType = FT_None | FT_Inode | FT_Device u16 u16 | FT_Pipe

record open_file =
  f_ty :: FileType
  f_readable :: bool
  f_writable :: bool
  f_off :: u32
  f_inum :: u32
  f_refcnt :: u32

definition File_new :: open_file where
  "File_new = \<lparr>f_ty = FT_None, f_readable = False, f_writable = False, f_off = 0, f_inum = 0, f_refcnt = 0\<rparr>"

type_synonym file_table = "nat \<Rightarrow> open_file"

definition FILE_TABLE :: file_table where
  "FILE_TABLE = (\<lambda>_. File_new)"

text \<open>An index into the table is checked.\<close>

definition file_at :: "nat \<Rightarrow> file_table \<Rightarrow> open_file option" where
  "file_at i t = (if i < NFILE then Some (t i) else None)"

definition file_alloc :: "file_table \<Rightarrow> nat option \<times> file_table" where
  "file_alloc t =
     (case List.find (\<lambda>i. f_refcnt (t i) = 0) [0..<NFILE] of
        Some i \<Rightarrow> (Some i, t(i := (t i)\<lparr>f_refcnt := 1, f_off := 0\<rparr>))
      | None \<Rightarrow> (None, t))"

definition file_dup :: "nat \<Rightarrow> file_table \<Rightarrow> file_table option" where
  "file_dup i t =
     (if f_refcnt (t i) < 1 then None
      else do { r \<leftarrow> add32 (f_refcnt (t i)) 1; Some (t(i := (t i)\<lparr>f_refcnt := r\<rparr>)) })"

definition file_close :: "nat \<Rightarrow> file_table \<Rightarrow> ifs \<Rightarrow> (file_table \<times> ifs) option" where
  "file_close f_idx t st = do {
     f \<leftarrow> file_at f_idx t;
     (if f_refcnt f < 1 then None
      else let f = f\<lparr>f_refcnt := f_refcnt f - 1\<rparr> in
      if 0 < f_refcnt f then Some (t(f_idx := f), st)
      else
        let t = t(f_idx := f\<lparr>f_ty := FT_None\<rparr>) in
        if f_ty f = FT_Inode then do {
          (i, st) \<leftarrow> inode_get (f_inum f) st;
          st \<leftarrow> inode_put i st;
          st \<leftarrow> inode_put i st;
          Some (t, st)
        }
        else Some (t, st))
   }"

section \<open>Structures shared with user programs\<close>

record stat =
  st_type :: u16
  st_nlink :: u16
  st_size :: u32
  st_major :: u16
  st_minor :: u16
  st_inum :: u32

definition encode_stat :: "stat \<Rightarrow> u8 list" where
  "encode_stat s = le_bytes 2 (st_type s) @ le_bytes 2 (st_nlink s) @ le_bytes 4 (st_size s) @ le_bytes 2 (st_major s) @
     le_bytes 2 (st_minor s) @ le_bytes 4 (st_inum s)"

record dirent =
  d_name :: "u8 list"
  d_inum :: u32

definition SIZE_DIRENT :: usize where "SIZE_DIRENT = 64"

definition encode_dirent :: "dirent \<Rightarrow> u8 list" where
  "encode_dirent e = d_name e @ le_bytes 4 (d_inum e)"

section \<open>Allocating and closing\<close>

lemma file_alloc_spec:
  "case file_alloc t of
     (Some i, t') \<Rightarrow> i < NFILE \<and> f_refcnt (t i) = 0 \<and> f_refcnt (t' i) = 1 \<and> (\<forall>j. j \<noteq> i \<longrightarrow> t' j = t j)
   | (None, t') \<Rightarrow> t' = t \<and> (\<forall>i < NFILE. 0 < f_refcnt (t i))"
proof (cases "List.find (\<lambda>i. f_refcnt (t i) = 0) [0..<NFILE]")
  case None
  moreover have "\<forall>i < NFILE. 0 < f_refcnt (t i)" using None unfolding find_upt_None by simp
  ultimately show ?thesis by (simp add: file_alloc_def)
next
  case (Some i)
  then show ?thesis using find_upt_Some [OF Some] by (simp add: file_alloc_def)
qed

text \<open>Closing the last descriptor of an inode gives back the reference that opening it took.\<close>

lemma file_close_last:
  assumes inv: "cache_inv sb st" and f: "f_idx < NFILE" "f_refcnt (t f_idx) = 1" "f_ty (t f_idx) = FT_Inode" "f_inum (t f_idx) = k"
    and r: "0 < refs st k" "refs st k + 1 < 2 ^ 32" and k: "inode_blk sb k < 2 ^ 32"
    and keep: "0 < id_nlink (disk_inode sb (view (ibuf st)) k) \<or> 1 < refs st k"
  shows "\<exists>t' st'. file_close f_idx t st = Some (t', st') \<and> f_refcnt (t' f_idx) = 0 \<and> f_ty (t' f_idx) = FT_None \<and>
    (\<forall>j. j \<noteq> f_idx \<longrightarrow> t' j = t j) \<and> cache_inv sb st' \<and> refs st' = (refs st)(k := refs st k - 1) \<and> view (ibuf st') = view (ibuf st)"
proof -
  obtain i st1 where g: "inode_get k st = Some (i, st1)" "cache_inv sb st1" "holds st1 i k" "refs st1 = (refs st)(k := refs st k + 1)" "view (ibuf st1) = view (ibuf st)"
    using icache.get_law [OF inv k r(2)] r(1) by blast
  have "1 < refs st1 k" using g(4) r(1) by simp
  then obtain st2 where p: "inode_put i st1 = Some st2" "cache_inv sb st2" "refs st2 = (refs st1)(k := refs st1 k - 1)" "view (ibuf st2) = view (ibuf st1)" "holds st2 i k"
    using icache.put_law [OF g(2,3)] g(3) by blast
  have "refs st2 = refs st" using p(3) g(4) by (auto simp: fun_eq_iff)
  then obtain st3 where "inode_put i st2 = Some st3" "cache_inv sb st3" "refs st3 = (refs st)(k := refs st k - 1)" "view (ibuf st3) = view (ibuf st2)"
    using icache.put_law [OF p(2) p(5)] keep g(5) p(4) by metis
  then show ?thesis using f g(1,5) p(1,4) by (simp add: file_close_def file_at_def Let_def)
qed

end
