(* ===== verification/Fsyscall.thy ===== *)
theory Fsyscall
  imports File
begin

unbundle bit_operations_syntax

text \<open>
  The file system calls (\<open>syscall/fs.rs\<close>): the operations on the descriptors of a process, which combine path
  resolution, directories, inodes, the file table and the copies to and from user memory, and the system
  calls around them. \<open>Err(())\<close> and \<open>usize::MAX\<close> are results; \<open>None\<close> is a panic.
\<close>

definition NOFILE :: usize where "NOFILE = 32"

record fproc = uproc +
  open_files :: "nat option list"
  cwd :: u32

text \<open>What the calls change besides the process: the file system, the file table and physical memory.\<close>

record fsys =
  sy_i :: ifs
  sy_files :: file_table
  sy_mem :: ram

definition on_ifs :: "(ifs \<Rightarrow> ('a \<times> ifs) option) \<Rightarrow> fsys \<Rightarrow> ('a \<times> fsys) option" where
  "on_ifs f s = do { (x, st) \<leftarrow> f (sy_i s); Some (x, s\<lparr>sy_i := st\<rparr>) }"

definition do_ifs :: "(ifs \<Rightarrow> ifs option) \<Rightarrow> fsys \<Rightarrow> fsys option" where
  "do_ifs f s = do { st \<leftarrow> f (sy_i s); Some (s\<lparr>sy_i := st\<rparr>) }"

abbreviation idisk :: "nat \<Rightarrow> fsys \<Rightarrow> inode_disk" where
  "idisk i s \<equiv> in_disk (i_cache (sy_i s) i)"

abbreviation inum_of :: "nat \<Rightarrow> fsys \<Rightarrow> u32" where
  "inum_of i s \<equiv> in_num (i_cache (sy_i s) i)"

definition user_out :: "usize \<Rightarrow> usize \<Rightarrow> u8 list \<Rightarrow> fsys \<Rightarrow> (bool \<times> fsys) option" where
  "user_out root va bs s = do { (r, m) \<leftarrow> copyout (sy_mem s) root va bs; Some (r = Inr (), s\<lparr>sy_mem := m\<rparr>) }"

definition upd_file :: "nat \<Rightarrow> (open_file \<Rightarrow> open_file) \<Rightarrow> fsys \<Rightarrow> fsys" where
  "upd_file i f s = s\<lparr>sy_files := (sy_files s)(i := f (sy_files s i))\<rparr>"

definition close_file :: "nat \<Rightarrow> fsys \<Rightarrow> fsys option" where
  "close_file f_idx s = do { (t, st) \<leftarrow> file_close f_idx (sy_files s) (sy_i s); Some (s\<lparr>sy_files := t, sy_i := st\<rparr>) }"

text \<open>The length of a name up to its first zero byte.\<close>

definition name_len :: "u8 list \<Rightarrow> nat" where
  "name_len name = length (takeWhile (\<lambda>b. b \<noteq> 0) name)"

definition parent_of :: "u32 \<Rightarrow> u8 list \<Rightarrow> fsys \<Rightarrow> ((nat option \<times> u8 list) \<times> fsys) option" where
  "parent_of cwd_inum path s =
     on_ifs (\<lambda>st. do { (r, name, st) \<leftarrow> path_to_parent_inode_at cwd_inum path (replicate MAXLEN_FILENAME 0) st; Some ((r, name), st) }) s"

section \<open>Descriptors\<close>

definition fs_open_inode :: "fproc \<Rightarrow> u8 list \<Rightarrow> u32 \<Rightarrow> fsys \<Rightarrow> (nat option \<times> fsys) option" where
  "fs_open_inode p path flags s =
     (if flags AND 0x40 \<noteq> 0 then do {
        ((r, name), s) \<leftarrow> parent_of (cwd p) path s;
        (case r of
           None \<Rightarrow> Some (None, s)
         | Some parent \<Rightarrow>
             if name_len name = 0 then do { s \<leftarrow> do_ifs (inode_put parent) s; Some (None, s) }
             else do {
               (found, s) \<leftarrow> on_ifs (dentry_search parent (take (name_len name) name)) s;
               (case found of
                  Some inum \<Rightarrow> do {
                    s \<leftarrow> do_ifs (inode_put parent) s;
                    (i, s) \<leftarrow> on_ifs (inode_get inum) s;
                    Some (Some i, s)
                  }
                | None \<Rightarrow> do {
                    (i, s) \<leftarrow> on_ifs (inode_create INODE_TYPE_DATA 0 0) s;
                    (_, s) \<leftarrow> on_ifs (dentry_create parent (inum_of i s) (take (name_len name) name)) s;
                    s \<leftarrow> do_ifs (inode_put parent) s;
                    Some (Some i, s)
                  })
             })
      }
      else on_ifs (path_to_inode_at (cwd p) path) s)"

text \<open>The lowest free descriptor.\<close>

definition free_fd :: "fproc \<Rightarrow> nat option" where
  "free_fd p = List.find (\<lambda>fd. open_files p ! fd = None) [0..<NOFILE]"

definition fs_open :: "fproc \<Rightarrow> u8 list \<Rightarrow> u32 \<Rightarrow> fsys \<Rightarrow> (usize option \<times> fproc \<times> fsys) option" where
  "fs_open p path flags s = do {
     (r, s) \<leftarrow> fs_open_inode p path flags s;
     (case r of
        None \<Rightarrow> Some (None, p, s)
      | Some i \<Rightarrow>
          if id_type (idisk i s) = INODE_TYPE_DIR \<and> flags AND 3 \<noteq> 0 then do { s \<leftarrow> do_ifs (inode_put i) s; Some (None, p, s) }
          else do {
            s \<leftarrow> (if flags AND 0x200 \<noteq> 0 \<and> id_type (idisk i s) = INODE_TYPE_DATA
                   then do_ifs (\<lambda>st. inode_rw i True (upd_disk i (\<lambda>d. d\<lparr>id_size := 0\<rparr>) st)) s else Some s);
            (case file_alloc (sy_files s) of
               (None, _) \<Rightarrow> Some (None, p, s)
             | (Some f_idx, t) \<Rightarrow>
                 let s = upd_file f_idx (\<lambda>f. f\<lparr>f_ty := FT_Inode, f_inum := inum_of i s, f_readable := flags AND 3 \<noteq> 1, f_writable := flags AND 3 \<noteq> 0, f_off := 0\<rparr>)
                       (s\<lparr>sy_files := t\<rparr>) in
                 (case free_fd p of
                    Some fd \<Rightarrow> Some (Some fd, p\<lparr>open_files := (open_files p)[fd := Some f_idx]\<rparr>, s)
                  | None \<Rightarrow> do { s \<leftarrow> close_file f_idx s; Some (None, p, s) }))
          })
   }"

text \<open>The guard that all calls on a descriptor share: in range and open.\<close>

definition fd_file :: "fproc \<Rightarrow> usize \<Rightarrow> nat option" where
  "fd_file p fd = (if NOFILE \<le> fd then None else open_files p ! fd)"

definition fs_close :: "fproc \<Rightarrow> usize \<Rightarrow> fsys \<Rightarrow> (unit option \<times> fproc \<times> fsys) option" where
  "fs_close p fd s =
     (case fd_file p fd of
        None \<Rightarrow> Some (None, p, s)
      | Some f_idx \<Rightarrow> do { s \<leftarrow> close_file f_idx s; Some (Some (), p\<lparr>open_files := (open_files p)[fd := None]\<rparr>, s) })"

function fs_read_loop :: "usize \<Rightarrow> nat \<Rightarrow> nat \<Rightarrow> usize \<Rightarrow> usize \<Rightarrow> usize \<Rightarrow> u8 list \<Rightarrow> fsys \<Rightarrow> (usize option \<times> fsys) option" where
  "fs_read_loop root ip f_idx u_dst len total_read buf s =
     (if len \<le> total_read then Some (Some total_read, s)
      else let chunk_len = min (len - total_read) 512 in
        Option.bind (inode_read_data ip (f_off (sy_files s f_idx)) chunk_len (take chunk_len buf) (sy_i s)) (\<lambda>(n, bs, st).
          if n = 0 then Some (Some total_read, s\<lparr>sy_i := st\<rparr>)
          else Option.bind (uadd u_dst total_read) (\<lambda>va.
            Option.bind (user_out root va (take n bs) (s\<lparr>sy_i := st\<rparr>)) (\<lambda>(ok, s).
              if \<not> ok then Some (None, s)
              else Option.bind (add32 (f_off (sy_files s f_idx)) n) (\<lambda>off.
                let s = upd_file f_idx (\<lambda>f. f\<lparr>f_off := off\<rparr>) s in
                if n < chunk_len then Some (Some (total_read + n), s)
                else fs_read_loop root ip f_idx u_dst len (total_read + n) (bs @ drop chunk_len buf) s)))))"
  by pat_completeness auto
termination
  by (relation "measure (\<lambda>(_, _, _, _, len, total, _). len - total)") auto

declare fs_read_loop.simps [simp del]

definition fs_read :: "fproc \<Rightarrow> usize \<Rightarrow> usize \<Rightarrow> usize \<Rightarrow> fsys \<Rightarrow> (usize option \<times> fsys) option" where
  "fs_read p fd u_dst len s =
     (case fd_file p fd of
        None \<Rightarrow> Some (None, s)
      | Some f_idx \<Rightarrow> do {
          f \<leftarrow> file_at f_idx (sy_files s);
          (if \<not> f_readable f then Some (None, s)
           else do {
             (ip, s) \<leftarrow> on_ifs (inode_get (f_inum f)) s;
             (r, s) \<leftarrow> fs_read_loop (root_pt_pa p) ip f_idx u_dst len 0 (replicate 512 0) s;
             s \<leftarrow> do_ifs (inode_put ip) s;
             Some (r, s)
           })
        })"

function fs_write_loop :: "usize \<Rightarrow> nat \<Rightarrow> nat \<Rightarrow> usize \<Rightarrow> usize \<Rightarrow> usize \<Rightarrow> u8 list \<Rightarrow> fsys \<Rightarrow> (usize option \<times> fsys) option" where
  "fs_write_loop root ip f_idx u_src len total_written buf s =
     (if len \<le> total_written then Some (Some total_written, s)
      else let chunk_len = min (len - total_written) 512 in
        Option.bind (uadd u_src total_written) (\<lambda>va.
          Option.bind (copyin (sy_mem s) root (take chunk_len buf) va) (\<lambda>(r, bs).
            if r \<noteq> Inr () then Some (None, s)
            else Option.bind (inode_write_data ip (f_off (sy_files s f_idx)) chunk_len bs (sy_i s)) (\<lambda>(n, st).
              Option.bind (add32 (f_off (sy_files s f_idx)) n) (\<lambda>off.
                let s = upd_file f_idx (\<lambda>f. f\<lparr>f_off := off\<rparr>) (s\<lparr>sy_i := st\<rparr>) in
                if n < chunk_len then Some (Some (total_written + n), s)
                else fs_write_loop root ip f_idx u_src len (total_written + n) (bs @ drop chunk_len buf) s)))))"
  by pat_completeness auto
termination
  by (relation "measure (\<lambda>(_, _, _, _, len, total, _). len - total)") auto

declare fs_write_loop.simps [simp del]

definition fs_write :: "fproc \<Rightarrow> usize \<Rightarrow> usize \<Rightarrow> usize \<Rightarrow> fsys \<Rightarrow> (usize option \<times> fsys) option" where
  "fs_write p fd u_src len s =
     (case fd_file p fd of
        None \<Rightarrow> Some (None, s)
      | Some f_idx \<Rightarrow> do {
          f \<leftarrow> file_at f_idx (sy_files s);
          (if \<not> f_writable f then Some (None, s)
           else do {
             (ip, s) \<leftarrow> on_ifs (inode_get (f_inum f)) s;
             (r, s) \<leftarrow> fs_write_loop (root_pt_pa p) ip f_idx u_src len 0 (replicate 512 0) s;
             s \<leftarrow> do_ifs (inode_put ip) s;
             Some (r, s)
           })
        })"

text \<open>Addition of \<open>i32\<close>: overflow panics.\<close>

definition addi32 :: "int \<Rightarrow> int \<Rightarrow> int option" where
  "addi32 a b = (if - (2 ^ 31) \<le> a + b \<and> a + b < 2 ^ 31 then Some (a + b) else None)"

definition fs_lseek :: "fproc \<Rightarrow> usize \<Rightarrow> int \<Rightarrow> u32 \<Rightarrow> fsys \<Rightarrow> (usize option \<times> fsys) option" where
  "fs_lseek p fd off whence s =
     (case fd_file p fd of
        None \<Rightarrow> Some (None, s)
      | Some f_idx \<Rightarrow> do {
          f \<leftarrow> file_at f_idx (sy_files s);
          (ip, s) \<leftarrow> on_ifs (inode_get (f_inum f)) s;
          let sz = as_i32 (id_size (idisk ip s));
          s \<leftarrow> do_ifs (inode_put ip) s;
          r \<leftarrow> (if whence = 0 then Some (Some off)
                 else if whence = 1 then map_option Some (addi32 (as_i32 (f_off f)) off)
                 else if whence = 2 then map_option Some (addi32 sz off)
                 else Some None);
          (case r of
             None \<Rightarrow> Some (None, s)
           | Some new_off \<Rightarrow>
               if new_off < 0 then Some (None, s)
               else Some (Some (nat new_off), upd_file f_idx (\<lambda>f. f\<lparr>f_off := nat new_off\<rparr>) s))
        })"

definition fs_dup :: "fproc \<Rightarrow> usize \<Rightarrow> fsys \<Rightarrow> (usize option \<times> fproc \<times> fsys) option" where
  "fs_dup p fd s =
     (case fd_file p fd of
        None \<Rightarrow> Some (None, p, s)
      | Some f_idx \<Rightarrow> do {
          f \<leftarrow> file_at f_idx (sy_files s);
          r \<leftarrow> add32 (f_refcnt f) 1;
          let s = upd_file f_idx (\<lambda>f. f\<lparr>f_refcnt := r\<rparr>) s;
          (case free_fd p of
             Some new_fd \<Rightarrow> Some (Some new_fd, p\<lparr>open_files := (open_files p)[new_fd := Some f_idx]\<rparr>, s)
           | None \<Rightarrow> do { r \<leftarrow> csub r 1; Some (None, p, upd_file f_idx (\<lambda>f. f\<lparr>f_refcnt := r\<rparr>) s) })
        })"

definition fs_fstat :: "fproc \<Rightarrow> usize \<Rightarrow> usize \<Rightarrow> fsys \<Rightarrow> (unit option \<times> fsys) option" where
  "fs_fstat p fd u_stat s =
     (case fd_file p fd of
        None \<Rightarrow> Some (None, s)
      | Some f_idx \<Rightarrow> do {
          f \<leftarrow> file_at f_idx (sy_files s);
          (ip, s) \<leftarrow> on_ifs (inode_get (f_inum f)) s;
          let d = idisk ip s;
          let st = \<lparr>st_type = id_type d, st_nlink = id_nlink d, st_size = id_size d, st_major = id_major d, st_minor = id_minor d, st_inum = inum_of ip s\<rparr>;
          s \<leftarrow> do_ifs (inode_put ip) s;
          (ok, s) \<leftarrow> user_out (root_pt_pa p) u_stat (encode_stat st) s;
          Some (if ok then Some () else None, s)
        })"

section \<open>Names\<close>

definition fs_mkdir :: "fproc \<Rightarrow> u8 list \<Rightarrow> fsys \<Rightarrow> (unit option \<times> fsys) option" where
  "fs_mkdir p path s = do {
     ((r, name), s) \<leftarrow> parent_of (cwd p) path s;
     (case r of
        None \<Rightarrow> Some (None, s)
      | Some parent \<Rightarrow>
          if name_len name = 0 then do { s \<leftarrow> do_ifs (inode_put parent) s; Some (None, s) }
          else do {
            (found, s) \<leftarrow> on_ifs (dentry_search parent (take (name_len name) name)) s;
            (if found \<noteq> None then do { s \<leftarrow> do_ifs (inode_put parent) s; Some (None, s) }
             else do {
               (i, s) \<leftarrow> on_ifs (inode_create INODE_TYPE_DIR 0 0) s;
               s \<leftarrow> do_ifs (\<lambda>st. inode_rw i True (upd_disk i (\<lambda>d. d\<lparr>id_nlink := 2\<rparr>) st)) s;
               (_, s) \<leftarrow> on_ifs (dentry_create parent (inum_of i s) (take (name_len name) name)) s;
               s \<leftarrow> do_ifs (inode_put i) s;
               s \<leftarrow> do_ifs (inode_put parent) s;
               Some (Some (), s)
             })
          })
   }"

definition fs_chdir :: "fproc \<Rightarrow> u8 list \<Rightarrow> fsys \<Rightarrow> (unit option \<times> fproc \<times> fsys) option" where
  "fs_chdir p path s = do {
     (r, s) \<leftarrow> on_ifs (path_to_inode_at (cwd p) path) s;
     (case r of
        None \<Rightarrow> Some (None, p, s)
      | Some ip \<Rightarrow>
          if id_type (idisk ip s) \<noteq> INODE_TYPE_DIR then do { s \<leftarrow> do_ifs (inode_put ip) s; Some (None, p, s) }
          else do {
            let p = p\<lparr>cwd := inum_of ip s\<rparr>;
            s \<leftarrow> do_ifs (inode_put ip) s;
            Some (Some (), p, s)
          })
   }"

definition fs_link :: "fproc \<Rightarrow> u8 list \<Rightarrow> u8 list \<Rightarrow> fsys \<Rightarrow> (unit option \<times> fsys) option" where
  "fs_link p old_path new_path s = do {
     (r, s) \<leftarrow> on_ifs (path_to_inode_at (cwd p) old_path) s;
     (case r of
        None \<Rightarrow> Some (None, s)
      | Some old_ip \<Rightarrow>
          if id_type (idisk old_ip s) = INODE_TYPE_DIR then do { s \<leftarrow> do_ifs (inode_put old_ip) s; Some (None, s) }
          else do {
            ((r, name), s) \<leftarrow> parent_of (cwd p) new_path s;
            (case r of
               None \<Rightarrow> do { s \<leftarrow> do_ifs (inode_put old_ip) s; Some (None, s) }
             | Some parent \<Rightarrow> do {
                 (refuse, s) \<leftarrow> (if name_len name = 0 then Some (True, s)
                                 else do { (found, s) \<leftarrow> on_ifs (dentry_search parent (take (name_len name) name)) s; Some (found \<noteq> None, s) });
                 (if refuse then do {
                    s \<leftarrow> do_ifs (inode_put parent) s;
                    s \<leftarrow> do_ifs (inode_put old_ip) s;
                    Some (None, s)
                  }
                  else do {
                    (_, s) \<leftarrow> on_ifs (dentry_create parent (inum_of old_ip s) (take (name_len name) name)) s;
                    n \<leftarrow> cadd 16 (id_nlink (idisk old_ip s)) 1;
                    s \<leftarrow> do_ifs (\<lambda>st. inode_rw old_ip True (upd_disk old_ip (\<lambda>d. d\<lparr>id_nlink := n\<rparr>) st)) s;
                    s \<leftarrow> do_ifs (inode_put parent) s;
                    s \<leftarrow> do_ifs (inode_put old_ip) s;
                    Some (Some (), s)
                  })
               })
          })
   }"

definition fs_unlink :: "fproc \<Rightarrow> u8 list \<Rightarrow> fsys \<Rightarrow> (unit option \<times> fsys) option" where
  "fs_unlink p path s = do {
     ((r, name), s) \<leftarrow> parent_of (cwd p) path s;
     (case r of
        None \<Rightarrow> Some (None, s)
      | Some parent \<Rightarrow>
          if name_len name = 0 then do { s \<leftarrow> do_ifs (inode_put parent) s; Some (None, s) }
          else do {
            (found, s) \<leftarrow> on_ifs (dentry_search parent (take (name_len name) name)) s;
            (case found of
               None \<Rightarrow> do { s \<leftarrow> do_ifs (inode_put parent) s; Some (None, s) }
             | Some inum \<Rightarrow> do {
                 (ip, s) \<leftarrow> on_ifs (inode_get inum) s;
                 (if id_type (idisk ip s) = INODE_TYPE_DIR then do {
                    s \<leftarrow> do_ifs (inode_put ip) s;
                    s \<leftarrow> do_ifs (inode_put parent) s;
                    Some (None, s)
                  }
                  else do {
                    (_, s) \<leftarrow> on_ifs (dentry_delete parent (take (name_len name) name)) s;
                    n \<leftarrow> csub (id_nlink (idisk ip s)) 1;
                    s \<leftarrow> do_ifs (\<lambda>st. inode_rw ip True (upd_disk ip (\<lambda>d. d\<lparr>id_nlink := n\<rparr>) st)) s;
                    s \<leftarrow> do_ifs (inode_put ip) s;
                    s \<leftarrow> do_ifs (inode_put parent) s;
                    Some (Some (), s)
                  })
               })
          })
   }"


function dentries_loop :: "usize \<Rightarrow> nat \<Rightarrow> usize \<Rightarrow> usize \<Rightarrow> u32 \<Rightarrow> usize \<Rightarrow> u8 list \<Rightarrow> fsys \<Rightarrow> (usize \<times> fsys) option" where
  "dentries_loop root ip u_buf limit off count buf s =
     (if id_size (idisk ip s) \<le> off \<or> limit \<le> count then Some (count, s)
      else Option.bind (on_ifs (\<lambda>st. do { (n, buf, st) \<leftarrow> inode_read_data ip off SIZE_DENTRY buf st; Some ((n, buf), st) }) s) (\<lambda>((n, buf), s).
        if n \<noteq> SIZE_DENTRY then Some (count, s)
        else Option.bind (if entry_free (decode_dentry buf) then Some (Some count, s)
            else do {
              k \<leftarrow> umul count SIZE_DIRENT;
              va \<leftarrow> uadd u_buf k;
              (ok, s) \<leftarrow> user_out root va (encode_dirent \<lparr>d_name = de_name (decode_dentry buf), d_inum = de_inum (decode_dentry buf)\<rparr>) s;
              Some (if ok then Some (count + 1) else None, s)
            }) (\<lambda>(r, s).
          case r of
            None \<Rightarrow> Some (count, s)
          | Some count \<Rightarrow> if 2 ^ 32 \<le> off + SIZE_DENTRY then None
              else dentries_loop root ip u_buf limit (off + SIZE_DENTRY) count buf s)))"
  by pat_completeness auto
termination
  by (relation "measure (\<lambda>(_, _, _, _, off, _). 2 ^ 32 - off)") (auto simp: SIZE_DENTRY_def)

declare dentries_loop.simps [simp del]

definition fs_get_dentries :: "fproc \<Rightarrow> usize \<Rightarrow> usize \<Rightarrow> usize \<Rightarrow> fsys \<Rightarrow> (usize option \<times> fsys) option" where
  "fs_get_dentries p fd u_buf limit s =
     (case fd_file p fd of
        None \<Rightarrow> Some (None, s)
      | Some f_idx \<Rightarrow> do {
          f \<leftarrow> file_at f_idx (sy_files s);
          (ip, s) \<leftarrow> on_ifs (inode_get (f_inum f)) s;
          (if id_type (idisk ip s) \<noteq> INODE_TYPE_DIR then do { s \<leftarrow> do_ifs (inode_put ip) s; Some (None, s) }
           else do {
             (count, s) \<leftarrow> dentries_loop (root_pt_pa p) ip u_buf limit 0 0 (replicate SIZE_DENTRY 0) s;
             s \<leftarrow> do_ifs (inode_put ip) s;
             Some (Some count, s)
           })
        })"

section \<open>System calls on blocks and inodes\<close>

text \<open>The arguments are the registers \<open>a0\<close>, \<open>a1\<close>, ... of the trap context; a cast to \<open>u32\<close> keeps the low bits.\<close>

definition on_fs :: "(fs_state \<Rightarrow> ('a \<times> fs_state) option) \<Rightarrow> fsys \<Rightarrow> ('a \<times> fsys) option" where
  "on_fs f = on_ifs (\<lambda>st. do { (x, fs) \<leftarrow> f (i_fs st); Some (x, st\<lparr>i_fs := fs\<rparr>) })"

definition on_buf :: "(bstate \<Rightarrow> ('a \<times> bstate) option) \<Rightarrow> fsys \<Rightarrow> ('a \<times> fsys) option" where
  "on_buf f = on_ifs (\<lambda>st. do { (x, b) \<leftarrow> f (ibuf st); Some (x, set_ibuf b st) })"

definition sys_alloc_block :: "fsys \<Rightarrow> (usize \<times> fsys) option" where
  "sys_alloc_block s = on_fs bitmap_alloc s"

definition sys_free_block :: "usize \<Rightarrow> fsys \<Rightarrow> (usize \<times> fsys) option" where
  "sys_free_block a0 s = on_fs (\<lambda>fs. do { fs \<leftarrow> bitmap_free (as_u32 a0) fs; Some (0, fs) }) s"

definition sys_alloc_inode :: "fsys \<Rightarrow> (usize \<times> fsys) option" where
  "sys_alloc_inode s = on_ifs inode_alloc s"

definition sys_free_inode :: "usize \<Rightarrow> fsys \<Rightarrow> (usize \<times> fsys) option" where
  "sys_free_inode a0 s = on_ifs (\<lambda>st. do { st \<leftarrow> inode_free (as_u32 a0) st; Some (0, st) }) s"

definition sys_get_block :: "usize \<Rightarrow> fsys \<Rightarrow> (usize \<times> fsys) option" where
  "sys_get_block a0 s = on_buf (buffer_read 0 (as_u32 a0)) s"

definition sys_read_block :: "usize \<Rightarrow> usize \<Rightarrow> fproc \<Rightarrow> fsys \<Rightarrow> (usize \<times> fsys) option" where
  "sys_read_block buf_idx u_dst p s = do {
     d \<leftarrow> get_data buf_idx (ibuf (sy_i s));
     (ok, s) \<leftarrow> user_out (root_pt_pa p) u_dst (load d 0 BLOCK_SIZE) s;
     Some (if ok then 0 else usize_MAX, s)
   }"

text \<open>The copy goes straight into the buffer: after an error the bytes copied so far stay in it.\<close>

definition sys_write_block :: "usize \<Rightarrow> usize \<Rightarrow> fproc \<Rightarrow> fsys \<Rightarrow> (usize \<times> fsys) option" where
  "sys_write_block buf_idx u_src p s = do {
     d \<leftarrow> get_data buf_idx (ibuf (sy_i s));
     (r, bs) \<leftarrow> copyin (sy_mem s) (root_pt_pa p) (load d 0 BLOCK_SIZE) u_src;
     (_, s) \<leftarrow> on_buf (\<lambda>b. do { b \<leftarrow> put_data buf_idx (store d 0 bs) b; Some ((), b) }) s;
     (case r of
        Inr _ \<Rightarrow> on_buf (\<lambda>b. do { b \<leftarrow> buffer_write buf_idx b; Some (0, b) }) s
      | Inl _ \<Rightarrow> Some (usize_MAX, s))
   }"

definition sys_put_block :: "usize \<Rightarrow> fsys \<Rightarrow> (usize \<times> fsys) option" where
  "sys_put_block buf_idx s = on_buf (\<lambda>b. do { b \<leftarrow> buffer_release buf_idx b; Some (0, b) }) s"

definition sys_inode_create :: "usize \<Rightarrow> usize \<Rightarrow> usize \<Rightarrow> fsys \<Rightarrow> (usize \<times> fsys) option" where
  "sys_inode_create a0 a1 a2 s = do {
     (i, s) \<leftarrow> on_ifs (inode_create (a0 AND 0xFFFF) (a1 AND 0xFFFF) (a2 AND 0xFFFF)) s;
     Some (inum_of i s, s)
   }"

definition sys_inode_dup :: "usize \<Rightarrow> fsys \<Rightarrow> (usize \<times> fsys) option" where
  "sys_inode_dup a0 s = do {
     (i, s) \<leftarrow> on_ifs (inode_get (as_u32 a0)) s;
     s \<leftarrow> do_ifs (inode_dup i) s;
     let rc = in_refcnt (i_cache (sy_i s) i);
     s \<leftarrow> do_ifs (inode_put i) s;
     Some (rc, s)
   }"

definition sys_inode_put :: "usize \<Rightarrow> fsys \<Rightarrow> (usize \<times> fsys) option" where
  "sys_inode_put a0 s = do {
     (i, s) \<leftarrow> on_ifs (inode_get (as_u32 a0)) s;
     s \<leftarrow> do_ifs (inode_put i) s;
     Some (0, s)
   }"

definition sys_inode_set_nlink :: "usize \<Rightarrow> usize \<Rightarrow> fsys \<Rightarrow> (usize \<times> fsys) option" where
  "sys_inode_set_nlink a0 a1 s = do {
     (i, s) \<leftarrow> on_ifs (inode_get (as_u32 a0)) s;
     s \<leftarrow> do_ifs (\<lambda>st. inode_rw i True (upd_disk i (\<lambda>d. d\<lparr>id_nlink := a1 AND 0xFFFF\<rparr>) st)) s;
     s \<leftarrow> do_ifs (inode_put i) s;
     Some (0, s)
   }"

definition sys_inode_get_refcnt :: "usize \<Rightarrow> fsys \<Rightarrow> usize" where
  "sys_inode_get_refcnt a0 s =
     (case List.find (\<lambda>i. 0 < in_refcnt (i_cache (sy_i s) i) \<and> inum_of i s = as_u32 a0) [0..<N_INODE] of
        Some i \<Rightarrow> in_refcnt (i_cache (sy_i s) i)
      | None \<Rightarrow> 0)"

definition sys_inode_print :: "usize \<Rightarrow> fsys \<Rightarrow> (usize \<times> fsys) option" where
  "sys_inode_print a0 s = do {
     (i, s) \<leftarrow> on_ifs (inode_get (as_u32 a0)) s;
     s \<leftarrow> do_ifs (inode_put i) s;
     Some (0, s)
   }"


section \<open>System calls on the data of an inode\<close>

text \<open>The loops end with the number of bytes, or with \<open>Inl\<close> of it when a copy fails.\<close>

function inode_write_chunks :: "usize \<Rightarrow> nat \<Rightarrow> u32 \<Rightarrow> usize \<Rightarrow> usize \<Rightarrow> usize \<Rightarrow> u8 list \<Rightarrow> fsys \<Rightarrow> ((usize + usize) \<times> fsys) option" where
  "inode_write_chunks root i off u_src len total_written buf s =
     (if len \<le> total_written then Some (Inr total_written, s)
      else let chunk_len = min (len - total_written) 512 in
        Option.bind (uadd u_src total_written) (\<lambda>va.
          Option.bind (copyin (sy_mem s) root (take chunk_len buf) va) (\<lambda>(r, bs).
            if r \<noteq> Inr () then Some (Inl total_written, s)
            else Option.bind (add32 off (as_u32 total_written)) (\<lambda>o32.
              Option.bind (inode_write_data i o32 chunk_len bs (sy_i s)) (\<lambda>(n, st).
                if n < chunk_len then Some (Inr (total_written + n), s\<lparr>sy_i := st\<rparr>)
                else inode_write_chunks root i off u_src len (total_written + n) (bs @ drop chunk_len buf) (s\<lparr>sy_i := st\<rparr>))))))"
  by pat_completeness auto
termination
  by (relation "measure (\<lambda>(_, _, _, _, len, total, _). len - total)") auto

function inode_read_chunks :: "usize \<Rightarrow> nat \<Rightarrow> u32 \<Rightarrow> usize \<Rightarrow> usize \<Rightarrow> usize \<Rightarrow> u8 list \<Rightarrow> fsys \<Rightarrow> ((usize + usize) \<times> fsys) option" where
  "inode_read_chunks root i off u_dst len total_read buf s =
     (if len \<le> total_read then Some (Inr total_read, s)
      else let chunk_len = min (len - total_read) 512 in
        Option.bind (add32 off (as_u32 total_read)) (\<lambda>o32.
          Option.bind (inode_read_data i o32 chunk_len (take chunk_len buf) (sy_i s)) (\<lambda>(n, bs, st).
            if n = 0 then Some (Inr total_read, s\<lparr>sy_i := st\<rparr>)
            else Option.bind (uadd u_dst total_read) (\<lambda>va.
              Option.bind (user_out root va (take n bs) (s\<lparr>sy_i := st\<rparr>)) (\<lambda>(ok, s).
                if \<not> ok then Some (Inl total_read, s)
                else if n < chunk_len then Some (Inr (total_read + n), s)
                else inode_read_chunks root i off u_dst len (total_read + n) (bs @ drop chunk_len buf) s)))))"
  by pat_completeness auto
termination
  by (relation "measure (\<lambda>(_, _, _, _, len, total, _). len - total)") auto

declare inode_write_chunks.simps [simp del] inode_read_chunks.simps [simp del]

definition chunks_result :: "usize + usize \<Rightarrow> usize" where
  "chunks_result r = (case r of Inr n \<Rightarrow> n | Inl n \<Rightarrow> if 0 < n then n else usize_MAX)"

definition sys_inode_write_data :: "usize \<Rightarrow> usize \<Rightarrow> usize \<Rightarrow> usize \<Rightarrow> fproc \<Rightarrow> fsys \<Rightarrow> (usize \<times> fsys) option" where
  "sys_inode_write_data a0 a1 u_src len p s = do {
     (i, s) \<leftarrow> on_ifs (inode_get (as_u32 a0)) s;
     (r, s) \<leftarrow> inode_write_chunks (root_pt_pa p) i (as_u32 a1) u_src len 0 (replicate 512 0) s;
     s \<leftarrow> do_ifs (inode_put i) s;
     Some (chunks_result r, s)
   }"

definition sys_inode_read_data :: "usize \<Rightarrow> usize \<Rightarrow> usize \<Rightarrow> usize \<Rightarrow> fproc \<Rightarrow> fsys \<Rightarrow> (usize \<times> fsys) option" where
  "sys_inode_read_data a0 a1 u_dst len p s = do {
     (i, s) \<leftarrow> on_ifs (inode_get (as_u32 a0)) s;
     (r, s) \<leftarrow> inode_read_chunks (root_pt_pa p) i (as_u32 a1) u_dst len 0 (replicate 512 0) s;
     s \<leftarrow> do_ifs (inode_put i) s;
     Some (chunks_result r, s)
   }"

section \<open>System calls on names\<close>

text \<open>A string of the user, without its zero byte, cut to \<open>limit\<close> bytes.\<close>

definition user_string :: "usize \<Rightarrow> nat \<Rightarrow> nat \<Rightarrow> usize \<Rightarrow> fsys \<Rightarrow> u8 list option option" where
  "user_string root n limit va s = do {
     (r, buf) \<leftarrow> copyin_str (sy_mem s) root (replicate n 0) va;
     Some (case r of Inr copied \<Rightarrow> Some (take (min (saturating_sub copied 1) limit) buf) | Inl _ \<Rightarrow> None)
   }"

text \<open>The same, cut at the first zero byte found in the buffer.\<close>

definition user_path :: "usize \<Rightarrow> usize \<Rightarrow> fsys \<Rightarrow> u8 list option option" where
  "user_path root va s = do {
     (r, buf) \<leftarrow> copyin_str (sy_mem s) root (replicate 256 0) va;
     Some (case r of Inr _ \<Rightarrow> Some (take (name_len buf) buf) | Inl _ \<Rightarrow> None)
   }"

definition sys_dentry_create :: "usize \<Rightarrow> usize \<Rightarrow> usize \<Rightarrow> fproc \<Rightarrow> fsys \<Rightarrow> (usize \<times> fsys) option" where
  "sys_dentry_create a0 a1 u_name p s = do {
     name \<leftarrow> user_string (root_pt_pa p) (MAXLEN_FILENAME + 1) MAXLEN_FILENAME u_name s;
     (case name of
        None \<Rightarrow> Some (usize_MAX, s)
      | Some name \<Rightarrow> do {
          (dir, s) \<leftarrow> on_ifs (inode_get (as_u32 a0)) s;
          (ret, s) \<leftarrow> on_ifs (dentry_create dir (as_u32 a1) name) s;
          s \<leftarrow> do_ifs (inode_put dir) s;
          Some (if ret < 0 then usize_MAX else 0, s)
        })
   }"

definition sys_dentry_search :: "usize \<Rightarrow> usize \<Rightarrow> fproc \<Rightarrow> fsys \<Rightarrow> (usize \<times> fsys) option" where
  "sys_dentry_search a0 u_name p s = do {
     name \<leftarrow> user_string (root_pt_pa p) (MAXLEN_FILENAME + 1) MAXLEN_FILENAME u_name s;
     (case name of
        None \<Rightarrow> Some (usize_MAX, s)
      | Some name \<Rightarrow> do {
          (dir, s) \<leftarrow> on_ifs (inode_get (as_u32 a0)) s;
          (ret, s) \<leftarrow> on_ifs (dentry_search dir name) s;
          s \<leftarrow> do_ifs (inode_put dir) s;
          Some (case ret of Some inum \<Rightarrow> inum | None \<Rightarrow> usize_MAX, s)
        })
   }"

definition sys_dentry_delete :: "usize \<Rightarrow> usize \<Rightarrow> fproc \<Rightarrow> fsys \<Rightarrow> (usize \<times> fsys) option" where
  "sys_dentry_delete a0 u_name p s = do {
     name \<leftarrow> user_string (root_pt_pa p) (MAXLEN_FILENAME + 1) MAXLEN_FILENAME u_name s;
     (case name of
        None \<Rightarrow> Some (usize_MAX, s)
      | Some name \<Rightarrow> do {
          (dir, s) \<leftarrow> on_ifs (inode_get (as_u32 a0)) s;
          (ret, s) \<leftarrow> on_ifs (dentry_delete dir name) s;
          s \<leftarrow> do_ifs (inode_put dir) s;
          Some (if ret < 0 then usize_MAX else nat ret, s)
        })
   }"

definition sys_path_to_inode :: "usize \<Rightarrow> fproc \<Rightarrow> fsys \<Rightarrow> (usize \<times> fsys) option" where
  "sys_path_to_inode u_path p s = do {
     path \<leftarrow> user_string (root_pt_pa p) 256 255 u_path s;
     (case path of
        None \<Rightarrow> Some (usize_MAX, s)
      | Some path \<Rightarrow> do {
          (r, s) \<leftarrow> on_ifs (path_to_inode_at (cwd p) path) s;
          (case r of
             Some i \<Rightarrow> do {
               let inum = inum_of i s;
               s \<leftarrow> do_ifs (inode_put i) s;
               Some (inum, s)
             }
           | None \<Rightarrow> Some (usize_MAX, s))
        })
   }"

definition sys_path_to_parent_inode :: "usize \<Rightarrow> usize \<Rightarrow> fproc \<Rightarrow> fsys \<Rightarrow> (usize \<times> fsys) option" where
  "sys_path_to_parent_inode u_path u_name_out p s = do {
     path \<leftarrow> user_string (root_pt_pa p) 256 255 u_path s;
     (case path of
        None \<Rightarrow> Some (usize_MAX, s)
      | Some path \<Rightarrow> do {
          ((r, name_buf), s) \<leftarrow> parent_of (cwd p) path s;
          (case r of
             None \<Rightarrow> Some (usize_MAX, s)
           | Some parent \<Rightarrow> do {
               (ok, s) \<leftarrow> user_out (root_pt_pa p) u_name_out name_buf s;
               let inum = inum_of parent s;
               s \<leftarrow> do_ifs (inode_put parent) s;
               Some (if ok then inum else usize_MAX, s)
             })
        })
   }"

text \<open>Whether the bit of an inode is set in the inode bitmap.\<close>

definition is_inum_set :: "u32 \<Rightarrow> ifs \<Rightarrow> (bool \<times> ifs) option" where
  "is_inum_set inum st = do {
     sb \<leftarrow> get_sb (i_fs st);
     ibmap_block \<leftarrow> csub (sb_inode_start sb) 1;
     (b, s) \<leftarrow> buffer_read 0 ibmap_block (ibuf st);
     d \<leftarrow> get_data b s;
     v \<leftarrow> block_byte d (inum div 8);
     s \<leftarrow> buffer_release b s;
     Some (v AND bit_mask (inum mod 8) \<noteq> 0, set_ibuf s st)
   }"

definition sys_prepare_root_dir :: "fsys \<Rightarrow> (usize \<times> fsys) option" where
  "sys_prepare_root_dir s = do {
     (set, s) \<leftarrow> on_ifs (is_inum_set ROOT_INODE) s;
     (if \<not> set then do {
        (root_inum, s) \<leftarrow> on_ifs inode_alloc s;
        (if root_inum \<noteq> ROOT_INODE then Some (usize_MAX, s)
         else do {
           (i, s) \<leftarrow> on_ifs (inode_get ROOT_INODE) s;
           s \<leftarrow> do_ifs (\<lambda>st. inode_rw i True (upd_disk i (\<lambda>d. d\<lparr>id_type := INODE_TYPE_DIR, id_nlink := 2, id_size := 0\<rparr>) st)) s;
           s \<leftarrow> do_ifs (inode_put i) s;
           Some (0, s)
         })
      }
      else do {
        (i, s) \<leftarrow> on_ifs (inode_get ROOT_INODE) s;
        let no_type = (id_type (idisk i s) = 0);
        let no_link = (id_nlink (idisk i s) = 0);
        let fix = (\<lambda>d. d\<lparr>id_type := if no_type then INODE_TYPE_DIR else id_type d, id_nlink := if no_link then 2 else id_nlink d\<rparr>);
        s \<leftarrow> do_ifs (\<lambda>st. if no_type \<or> no_link then inode_rw i True (upd_disk i fix st) else Some st) s;
        s \<leftarrow> do_ifs (inode_put i) s;
        Some (0, s)
      })
   }"


section \<open>System calls on files\<close>

definition result_or_max :: "usize option \<Rightarrow> usize" where
  "result_or_max r = (case r of Some n \<Rightarrow> n | None \<Rightarrow> usize_MAX)"

definition zero_or_max :: "unit option \<Rightarrow> usize" where
  "zero_or_max r = (case r of Some _ \<Rightarrow> 0 | None \<Rightarrow> usize_MAX)"

definition sys_open :: "usize \<Rightarrow> usize \<Rightarrow> fproc \<Rightarrow> fsys \<Rightarrow> (usize \<times> fproc \<times> fsys) option" where
  "sys_open u_path a1 p s = do {
     path \<leftarrow> user_string (root_pt_pa p) 256 255 u_path s;
     (case path of
        None \<Rightarrow> Some (usize_MAX, p, s)
      | Some path \<Rightarrow> do { (r, p, s) \<leftarrow> fs_open p path (as_u32 a1) s; Some (result_or_max r, p, s) })
   }"

definition sys_close :: "usize \<Rightarrow> fproc \<Rightarrow> fsys \<Rightarrow> (usize \<times> fproc \<times> fsys) option" where
  "sys_close fd p s = do { (r, p, s) \<leftarrow> fs_close p fd s; Some (zero_or_max r, p, s) }"

definition sys_read :: "usize \<Rightarrow> usize \<Rightarrow> usize \<Rightarrow> fproc \<Rightarrow> fsys \<Rightarrow> (usize \<times> fsys) option" where
  "sys_read fd u_dst len p s = do { (r, s) \<leftarrow> fs_read p fd u_dst len s; Some (result_or_max r, s) }"

definition sys_write :: "usize \<Rightarrow> usize \<Rightarrow> usize \<Rightarrow> fproc \<Rightarrow> fsys \<Rightarrow> (usize \<times> fsys) option" where
  "sys_write fd u_src len p s = do { (r, s) \<leftarrow> fs_write p fd u_src len s; Some (result_or_max r, s) }"

definition sys_lseek :: "usize \<Rightarrow> usize \<Rightarrow> usize \<Rightarrow> fproc \<Rightarrow> fsys \<Rightarrow> (usize \<times> fsys) option" where
  "sys_lseek fd a1 a2 p s = do { (r, s) \<leftarrow> fs_lseek p fd (as_i32 (as_u32 a1)) (as_u32 a2) s; Some (result_or_max r, s) }"

definition sys_dup :: "usize \<Rightarrow> fproc \<Rightarrow> fsys \<Rightarrow> (usize \<times> fproc \<times> fsys) option" where
  "sys_dup fd p s = do { (r, p, s) \<leftarrow> fs_dup p fd s; Some (result_or_max r, p, s) }"

definition sys_fstat :: "usize \<Rightarrow> usize \<Rightarrow> fproc \<Rightarrow> fsys \<Rightarrow> (usize \<times> fsys) option" where
  "sys_fstat fd u_stat p s = do { (r, s) \<leftarrow> fs_fstat p fd u_stat s; Some (zero_or_max r, s) }"

definition sys_get_dentries :: "usize \<Rightarrow> usize \<Rightarrow> usize \<Rightarrow> fproc \<Rightarrow> fsys \<Rightarrow> (usize \<times> fsys) option" where
  "sys_get_dentries fd u_buf limit p s = do { (r, s) \<leftarrow> fs_get_dentries p fd u_buf limit s; Some (result_or_max r, s) }"

definition sys_mkdir :: "usize \<Rightarrow> fproc \<Rightarrow> fsys \<Rightarrow> (usize \<times> fsys) option" where
  "sys_mkdir u_path p s = do {
     path \<leftarrow> user_path (root_pt_pa p) u_path s;
     (case path of
        None \<Rightarrow> Some (usize_MAX, s)
      | Some path \<Rightarrow> do { (r, s) \<leftarrow> fs_mkdir p path s; Some (zero_or_max r, s) })
   }"

definition sys_chdir :: "usize \<Rightarrow> fproc \<Rightarrow> fsys \<Rightarrow> (usize \<times> fproc \<times> fsys) option" where
  "sys_chdir u_path p s = do {
     path \<leftarrow> user_path (root_pt_pa p) u_path s;
     (case path of
        None \<Rightarrow> Some (usize_MAX, p, s)
      | Some path \<Rightarrow> do { (r, p, s) \<leftarrow> fs_chdir p path s; Some (zero_or_max r, p, s) })
   }"

definition sys_link :: "usize \<Rightarrow> usize \<Rightarrow> fproc \<Rightarrow> fsys \<Rightarrow> (usize \<times> fsys) option" where
  "sys_link u_old u_new p s = do {
     old \<leftarrow> user_path (root_pt_pa p) u_old s;
     (case old of
        None \<Rightarrow> Some (usize_MAX, s)
      | Some old \<Rightarrow> do {
          new \<leftarrow> user_path (root_pt_pa p) u_new s;
          (case new of
             None \<Rightarrow> Some (usize_MAX, s)
           | Some new \<Rightarrow> do { (r, s) \<leftarrow> fs_link p old new s; Some (zero_or_max r, s) })
        })
   }"

definition sys_unlink :: "usize \<Rightarrow> fproc \<Rightarrow> fsys \<Rightarrow> (usize \<times> fsys) option" where
  "sys_unlink u_path p s = do {
     path \<leftarrow> user_path (root_pt_pa p) u_path s;
     (case path of
        None \<Rightarrow> Some (usize_MAX, s)
      | Some path \<Rightarrow> do { (r, s) \<leftarrow> fs_unlink p path s; Some (zero_or_max r, s) })
   }"


section \<open>Opening and closing\<close>

lemma resolve_bound: "resolve sb v k ns = Some m \<Longrightarrow> k < 2 ^ 32 \<Longrightarrow> m < 2 ^ 32"
  by (induction ns arbitrary: k) (auto split: if_splits option.splits dest: dir_lookup_bound)

lemma on_ifs_path: "on_ifs (path_to_inode_at c path) s = Some (r, s1) \<longleftrightarrow> (\<exists>st. path_to_inode_at c path (sy_i s) = Some (r, st) \<and> s1 = s\<lparr>sy_i := st\<rparr>)"
  by (auto simp: on_ifs_def panic_simps)

text \<open>The inode a path leads to, held by the caller.\<close>

lemma open_path:
  assumes inv: "cache_inv sb (sy_i s)" "roomy sb (refs (sy_i s))" "start_inum c path < 2 ^ 32"
    and ok: "walk_ok sb (view (ibuf (sy_i s))) (start_inum c path) (path_names path)"
    and res: "resolve sb (view (ibuf (sy_i s))) (start_inum c path) (path_names path) = Some k"
  shows "\<exists>i st. on_ifs (path_to_inode_at c path) s = Some (Some i, s\<lparr>sy_i := st\<rparr>) \<and> at_inode sb (refs (sy_i s)) st i k \<and> view (ibuf st) = view (ibuf (sy_i s))"
  using path_to_inode_at_spec [OF inv ok] res by (auto simp: on_ifs_path walk_result_def at_inode_def)

definition opened :: "u32 \<Rightarrow> u32 \<Rightarrow> open_file" where
  "opened inum flags = \<lparr>f_ty = FT_Inode, f_readable = flags AND 3 \<noteq> 1, f_writable = flags AND 3 \<noteq> 0, f_off = 0, f_inum = inum, f_refcnt = 1\<rparr>"

lemma fs_open_existing:
  assumes at: "fs_open_inode p path flags s = Some (Some i, s\<lparr>sy_i := st\<rparr>)" and h: "holds st i k"
    and dir: "id_type (in_disk (i_cache st i)) = INODE_TYPE_DIR \<longrightarrow> flags AND 3 = 0" and trunc: "flags AND 0x200 = 0"
    and fd: "free_fd p = Some fd" and slot: "j < NFILE" "f_refcnt (sy_files s j) = 0"
  shows "\<exists>f_idx. f_idx < NFILE \<and> f_refcnt (sy_files s f_idx) = 0 \<and>
    fs_open p path flags s = Some (Some fd, p\<lparr>open_files := (open_files p)[fd := Some f_idx]\<rparr>, s\<lparr>sy_i := st, sy_files := (sy_files s)(f_idx := opened k flags)\<rparr>)"
proof -
  obtain f_idx where f: "List.find (\<lambda>i. f_refcnt (sy_files s i) = 0) [0..<NFILE] = Some f_idx"
    using slot find_upt_None [of "\<lambda>i. f_refcnt (sy_files s i) = 0" NFILE] by (cases "List.find (\<lambda>i. f_refcnt (sy_files s i) = 0) [0..<NFILE]") auto
  have al: "file_alloc (sy_files s) = (Some f_idx, (sy_files s)(f_idx := (sy_files s f_idx)\<lparr>f_refcnt := 1, f_off := 0\<rparr>))" using f by (simp add: file_alloc_def)
  have "fs_open p path flags s = Some (Some fd, p\<lparr>open_files := (open_files p)[fd := Some f_idx]\<rparr>, s\<lparr>sy_i := st, sy_files := (sy_files s)(f_idx := opened k flags)\<rparr>)"
    using at dir trunc fd al h by (cases "sy_files s f_idx") (auto simp: fs_open_def upd_file_def opened_def holds_def Let_def)
  then show ?thesis using find_upt_Some [OF f] by blast
qed

lemma free_fd_Some: "free_fd p = Some fd \<Longrightarrow> fd < NOFILE \<and> open_files p ! fd = None \<and> (\<forall>i < fd. open_files p ! i \<noteq> None)"
  unfolding free_fd_def find_Some_iff by auto

text \<open>C14. Opening a file and closing it: a path that leads to an inode is opened, without creation or truncation, on the
  lowest free descriptor, with the access the flags ask for and the offset zero; the inode has one more
  reference meanwhile. Closing the descriptor gives back the process and every reference, and the disk never changes.\<close>

theorem fs_open_close:
  assumes inv: "cache_inv sb (sy_i s)" "roomy sb (refs (sy_i s))" "start_inum (cwd p) path < 2 ^ 32"
    and walk: "walk_ok sb (view (ibuf (sy_i s))) (start_inum (cwd p) path) (path_names path)"
    and res: "resolve sb (view (ibuf (sy_i s))) (start_inum (cwd p) path) (path_names path) = Some k"
    and flags: "flags AND 0x40 = 0" "flags AND 0x200 = 0" and dir: "id_type (disk_inode sb (view (ibuf (sy_i s))) k) = INODE_TYPE_DIR \<longrightarrow> flags AND 3 = 0"
    and link: "0 < id_nlink (disk_inode sb (view (ibuf (sy_i s))) k)"
    and fd: "length (open_files p) = NOFILE" "free_fd p = Some fd" and slot: "\<exists>j < NFILE. f_refcnt (sy_files s j) = 0"
  shows "\<exists>f_idx s1 s2. fs_open p path flags s = Some (Some fd, p\<lparr>open_files := (open_files p)[fd := Some f_idx]\<rparr>, s1) \<and>
    f_refcnt (sy_files s f_idx) = 0 \<and> sy_files s1 = (sy_files s)(f_idx := opened k flags) \<and> refs (sy_i s1) = (refs (sy_i s))(k := refs (sy_i s) k + 1) \<and>
    fs_close (p\<lparr>open_files := (open_files p)[fd := Some f_idx]\<rparr>) fd s1 = Some (Some (), p, s2) \<and>
    cache_inv sb (sy_i s2) \<and> refs (sy_i s2) = refs (sy_i s) \<and> view (ibuf (sy_i s2)) = view (ibuf (sy_i s)) \<and> sy_mem s2 = sy_mem s"
proof -
  obtain i st where st: "on_ifs (path_to_inode_at (cwd p) path) s = Some (Some i, s\<lparr>sy_i := st\<rparr>)" "at_inode sb (refs (sy_i s)) st i k" "view (ibuf st) = view (ibuf (sy_i s))"
    using open_path [OF inv walk res] by blast
  have a: "cache_inv sb st" "holds st i k" "refs st = (refs (sy_i s))(k := refs (sy_i s) k + 1)" using st(2) by (auto simp: at_inode_def)
  have oi: "fs_open_inode p path flags s = Some (Some i, s\<lparr>sy_i := st\<rparr>)" using st(1) flags(1) by (simp add: fs_open_inode_def)
  have d: "id_type (in_disk (i_cache st i)) = INODE_TYPE_DIR \<longrightarrow> flags AND 3 = 0" using dir at_inode_disk [OF st(2)] st(3) by simp
  obtain j where j: "j < NFILE" "f_refcnt (sy_files s j) = 0" using slot by blast
  obtain f_idx where f: "f_idx < NFILE" "f_refcnt (sy_files s f_idx) = 0"
    "fs_open p path flags s = Some (Some fd, p\<lparr>open_files := (open_files p)[fd := Some f_idx]\<rparr>, s\<lparr>sy_i := st, sy_files := (sy_files s)(f_idx := opened k flags)\<rparr>)"
    using fs_open_existing [OF oi a(2) d flags(2) fd(2) j] by blast
  note fdp = free_fd_Some [OF fd(2)]
  let ?t = "(sy_files s)(f_idx := opened k flags)"
  have bounds: "0 < refs st k" "refs st k + 1 < 2 ^ 32" "inode_blk sb k < 2 ^ 32"
    using a(3) inv(2) roomy_known [OF inv(2) resolve_bound [OF res inv(3)]] by (auto simp: roomy_def)
  obtain t' st' where c: "file_close f_idx ?t st = Some (t', st')" "cache_inv sb st'" "refs st' = (refs st)(k := refs st k - 1)" "view (ibuf st') = view (ibuf st)"
    using file_close_last [OF a(1) f(1), of ?t k] bounds link st(3) by (auto simp: opened_def)
  have lst: "(open_files p)[fd := Some f_idx, fd := None] = open_files p" using fdp by (metis list_update_id list_update_overwrite)
  have "fs_close (p\<lparr>open_files := (open_files p)[fd := Some f_idx]\<rparr>) fd (s\<lparr>sy_i := st, sy_files := ?t\<rparr>) =
      Some (Some (), p, s\<lparr>sy_i := st', sy_files := t'\<rparr>)"
    using c(1) fdp fd(1) lst by (simp add: fs_close_def fd_file_def close_file_def)
  moreover have "refs st' = refs (sy_i s)" using c(3) a(3) by (auto simp: fun_eq_iff)
  ultimately show ?thesis using f c(2,4) st(3) a(3)
    by (intro exI [of _ f_idx] exI [of _ "s\<lparr>sy_i := st, sy_files := ?t\<rparr>"] exI [of _ "s\<lparr>sy_i := st', sy_files := t'\<rparr>"]) simp
qed


definition idle_proc :: fproc where
  "idle_proc = \<lparr>root_pt_pa = 0, heap_base = 0, heap_top = 0, mmap_head = None, open_files = replicate NOFILE None, cwd = 3\<rparr>"

definition fsys_example :: fsys where
  "fsys_example = \<lparr>sy_i = path_example, sy_files = FILE_TABLE, sy_mem = \<lambda>_. 0\<rparr>"

theorem fs_open_close_witness:
  "\<exists>f_idx s1 s2. fs_open idle_proc [47] 0 fsys_example = Some (Some 0, idle_proc\<lparr>open_files := (open_files idle_proc)[0 := Some f_idx]\<rparr>, s1) \<and>
    refs (sy_i s1) = (\<lambda>_. 0)(0 := 1) \<and>
    fs_close (idle_proc\<lparr>open_files := (open_files idle_proc)[0 := Some f_idx]\<rparr>) 0 s1 = Some (Some (), idle_proc, s2) \<and> refs (sy_i s2) = (\<lambda>_. 0)"
proof -
  obtain sb where sb: "fs_sb bitmap_example = Some sb" "sb_inode_start sb = 2" by (simp add: bitmap_example_def)
  have v: "view (ibuf (sy_i fsys_example)) = path_disk" "refs (sy_i fsys_example) = (\<lambda>_. 0)" "cache_inv sb (sy_i fsys_example)"
    using path_example_view path_example_inv [OF sb(1)] by (simp_all add: fsys_example_def)
  have n: "path_names [47] = []" "start_inum (cwd idle_proc) [47] = 0"
    by (simp_all add: path_names_def start_inum_def ROOT_INODE_def SLASH_def)
  have r: "roomy sb (\<lambda>_. 0)" using sb(2) by (simp add: roomy_def N_INODE_def)
  have d: "id_nlink (disk_inode sb path_disk 0) = 1" using path_example_root(1) [OF sb(2)] by (simp add: root_dir_def)
  have "[0..<NOFILE] = 0 # [1..<NOFILE]" by (simp add: NOFILE_def upt_rec)
  then have fd: "free_fd idle_proc = Some 0" "length (open_files idle_proc) = NOFILE" by (simp_all add: free_fd_def idle_proc_def NOFILE_def)
  have "\<exists>j < NFILE. f_refcnt (sy_files fsys_example j) = 0"
    by (intro exI [of _ 0]) (simp add: fsys_example_def FILE_TABLE_def File_new_def NFILE_def)
  then show ?thesis
    using fs_open_close [of sb fsys_example idle_proc "[47]" 0 0 0] r d fd unfolding v n by (simp add: v(3)) blast
qed

text \<open>Getting an inode and putting it back, with a look at it in between.\<close>

lemma get_look_put:
  assumes inv: "cache_inv sb (sy_i s)" and k: "inode_blk sb k < 2 ^ 32" and r: "0 < refs (sy_i s) k" "refs (sy_i s) k + 1 < 2 ^ 32"
  shows "\<exists>i st st'. on_ifs (inode_get k) s = Some (i, s\<lparr>sy_i := st\<rparr>) \<and> in_disk (i_cache st i) = disk_inode sb (view (ibuf (sy_i s))) k \<and>
    do_ifs (inode_put i) (s\<lparr>sy_i := st\<rparr>) = Some (s\<lparr>sy_i := st'\<rparr>) \<and> cache_inv sb st' \<and> refs st' = refs (sy_i s) \<and> view (ibuf st') = view (ibuf (sy_i s))"
proof -
  obtain i st where g: "inode_get k (sy_i s) = Some (i, st)" "cache_inv sb st" "holds st i k" "refs st = (refs (sy_i s))(k := refs (sy_i s) k + 1)"
    "view (ibuf st) = view (ibuf (sy_i s))"
    using icache.get_law [OF inv k r(2)] r(1) by blast
  have "1 < refs st k" using g(4) r(1) by simp
  then obtain st' where p: "inode_put i st = Some st'" "cache_inv sb st'" "refs st' = (refs st)(k := refs st k - 1)" "view (ibuf st') = view (ibuf st)"
    using icache.put_law [OF g(2,3)] by blast
  have "refs st' = refs (sy_i s)" using p(3) g(4) by (auto simp: fun_eq_iff)
  moreover have "in_disk (i_cache st i) = disk_inode sb (view (ibuf (sy_i s))) k" using g(2,3,5) by (auto simp: cache_inv_def)
  ultimately show ?thesis using g(1,5) p(1,2,4) by (intro exI [of _ i] exI [of _ st] exI [of _ st']) (simp add: on_ifs_def do_ifs_def)
qed

text \<open>The offset \<open>lseek\<close> asks for; an unknown \<open>whence\<close> has none.\<close>

definition seek_target :: "u32 \<Rightarrow> int \<Rightarrow> u32 \<Rightarrow> u32 \<Rightarrow> int option" where
  "seek_target whence off cur sz =
     (if whence = 0 then Some off else if whence = 1 then Some (as_i32 cur + off) else if whence = 2 then Some (as_i32 sz + off) else None)"

text \<open>C23. Moving the offset of an open file: a negative target and an unknown \<open>whence\<close> are refused with the offset kept, a
  target of at most \<open>i32::MAX\<close> becomes the offset and is returned, and a sum past \<open>i32::MAX\<close> or
  below \<open>i32::MIN\<close>, which a user program can choose, overflows and panics.\<close>

theorem fs_lseek_correct:
  assumes fd: "fd_file p fd = Some f_idx" "f_idx < NFILE" and inv: "cache_inv sb (sy_i s)" and k: "k = f_inum (sy_files s f_idx)" "inode_blk sb k < 2 ^ 32"
    and r: "0 < refs (sy_i s) k" "refs (sy_i s) k + 1 < 2 ^ 32" and off: "- (2 ^ 31) \<le> off" "off < 2 ^ 31"
  shows "case seek_target whence off (f_off (sy_files s f_idx)) (id_size (disk_inode sb (view (ibuf (sy_i s))) k)) of
      None \<Rightarrow> (\<exists>st'. fs_lseek p fd off whence s = Some (None, s\<lparr>sy_i := st'\<rparr>) \<and> refs st' = refs (sy_i s))
    | Some t \<Rightarrow>
        if t < - (2 ^ 31) \<or> 2 ^ 31 \<le> t then fs_lseek p fd off whence s = None
        else if t < 0 then (\<exists>st'. fs_lseek p fd off whence s = Some (None, s\<lparr>sy_i := st'\<rparr>) \<and> refs st' = refs (sy_i s))
        else (\<exists>st'. fs_lseek p fd off whence s = Some (Some (nat t), upd_file f_idx (\<lambda>f. f\<lparr>f_off := nat t\<rparr>) (s\<lparr>sy_i := st'\<rparr>)) \<and> refs st' = refs (sy_i s))"
proof -
  obtain i st st' where g: "on_ifs (inode_get k) s = Some (i, s\<lparr>sy_i := st\<rparr>)" "in_disk (i_cache st i) = disk_inode sb (view (ibuf (sy_i s))) k"
    "do_ifs (inode_put i) (s\<lparr>sy_i := st\<rparr>) = Some (s\<lparr>sy_i := st'\<rparr>)" "refs st' = refs (sy_i s)"
    using get_look_put [OF inv k(2) r] by blast
  let ?sz = "id_size (disk_inode sb (view (ibuf (sy_i s))) k)" and ?cur = "f_off (sy_files s f_idx)"
  have eq: "fs_lseek p fd off whence s = do {
      r \<leftarrow> (if whence = 0 then Some (Some off) else if whence = 1 then map_option Some (addi32 (as_i32 ?cur) off)
            else if whence = 2 then map_option Some (addi32 (as_i32 ?sz) off) else Some None);
      (case r of None \<Rightarrow> Some (None, s\<lparr>sy_i := st'\<rparr>)
       | Some new_off \<Rightarrow> if new_off < 0 then Some (None, s\<lparr>sy_i := st'\<rparr>)
           else Some (Some (nat new_off), upd_file f_idx (\<lambda>f. f\<lparr>f_off := nat new_off\<rparr>) (s\<lparr>sy_i := st'\<rparr>)))
    }"
    using fd g(1-3) k(1) by (simp add: fs_lseek_def file_at_def Let_def)
  consider "whence = 0" | "whence = 1" | "whence = 2" | "2 < whence" by linarith
  then show ?thesis
  proof cases
    case 1
    then show ?thesis using off g(4) unfolding eq by (auto simp: seek_target_def)
  next
    case 2
    then show ?thesis using g(4) unfolding eq by (auto simp: seek_target_def addi32_def)
  next
    case 3
    then show ?thesis using g(4) unfolding eq by (auto simp: seek_target_def addi32_def)
  next
    case 4
    then show ?thesis using g(4) unfolding eq by (auto simp: seek_target_def)
  qed
qed


definition seek_example :: fsys where
  "seek_example = \<lparr>sy_i = icache_example, sy_files = FILE_TABLE(0 := (opened 7 0)\<lparr>f_off := 1\<rparr>), sy_mem = \<lambda>_. 0\<rparr>"

theorem fs_lseek_correct_witness: "fs_lseek (idle_proc\<lparr>open_files := (open_files idle_proc)[0 := Some 0]\<rparr>) 0 2147483647 1 seek_example = None"
proof -
  let ?p = "idle_proc\<lparr>open_files := (open_files idle_proc)[0 := Some 0]\<rparr>"
  obtain sb where sb: "fs_sb bitmap_example = Some sb" "sb_inode_start sb = 2" by (simp add: bitmap_example_def)
  have i: "cache_inv sb (sy_i seek_example)" "refs (sy_i seek_example) 7 = 1" using icache_example_inv(1) [OF sb(1)] icache_example_inv(2) by (simp_all add: seek_example_def)
  have f: "f_inum (sy_files seek_example 0) = 7" "f_off (sy_files seek_example 0) = 1" by (simp_all add: seek_example_def opened_def)
  have fd: "fd_file ?p 0 = Some 0" "0 < NFILE" by (simp_all add: fd_file_def idle_proc_def NOFILE_def NFILE_def)
  have b: "inode_blk sb 7 < 2 ^ 32" using sb(2) by (simp add: inode_blk_def)
  have "seek_target 1 2147483647 (f_off (sy_files seek_example 0)) sz = Some 2147483648" for sz by (simp add: seek_target_def f as_i32_def)
  then show ?thesis using fs_lseek_correct [OF fd i(1) f(1) [symmetric] b, of 2147483647 1] i(2) by simp
qed

end
