(* ===== verification/Proc.thy ===== *)
theory Proc
  imports Vm Fsyscall
begin

unbundle bit_operations_syntax

text \<open>
  Processes (\<open>proc/table.rs\<close>, \<open>proc/runnable_queue.rs\<close> and the life cycle of \<open>proc/process.rs\<close>): the process table, the
  bitmap of runnable processes, allocation, release and exit. A pointer to a process is its address; the
  address of the table and the size of an entry are part of the configuration. A lock is a flag: taking one that is held
  never returns, which is \<open>None\<close> like a panic.
\<close>

section \<open>State\<close>

definition NPROC :: usize where "NPROC = 64"

datatype ProcState = Unused | Zombie | Dying | Sleeping | Runnable | Running

record proc_context =
  ctx_ra :: usize
  ctx_sp :: usize
  ctx_s :: "usize list"

definition ProcContext_new :: proc_context where
  "ProcContext_new = \<lparr>ctx_ra = 0, ctx_sp = 0, ctx_s = replicate 12 0\<rparr>"

record process = fproc +
  pr_name :: "u8 list"
  pr_state :: ProcState
  pr_parent :: usize
  pr_exit_code :: int
  pr_sleep_chan :: usize
  pr_pid :: usize
  pr_root_frame :: "phys_frame option"
  pr_stack_pages :: usize
  pr_trapframe :: usize
  pr_tf_frame :: "phys_frame option"
  pr_tf_va :: usize
  pr_context :: proc_context
  pr_kstack :: "kernel_stack option"
  pr_entry_va :: usize
  pr_user_sp :: usize

definition Process_new :: process where
  "Process_new = \<lparr>root_pt_pa = 0, heap_base = 0, heap_top = 0, mmap_head = None,
     open_files = replicate NOFILE None, cwd = ROOT_INODE,
     pr_name = replicate 16 0, pr_state = Unused, pr_parent = 0, pr_exit_code = 0, pr_sleep_chan = 0, pr_pid = 0,
     pr_root_frame = None, pr_stack_pages = 0, pr_trapframe = 0, pr_tf_frame = None, pr_tf_va = 0,
     pr_context = ProcContext_new, pr_kstack = None, pr_entry_va = 0, pr_user_sp = 0\<rparr>"

text \<open>Addresses fixed by the linker and the hardware.\<close>

record kconf =
  cf_kpt :: usize
  cf_table :: usize
  cf_proc_size :: usize
  cf_tramp :: usize
  cf_proc_return :: usize
  cf_user_return :: usize
  cf_fs_init :: usize
  cf_satp :: usize
  cf_hartid :: usize

record kernel =
  k_pm :: pmem
  k_wh :: warehouse
  k_ifs :: ifs
  k_files :: file_table
  k_procs :: "nat \<Rightarrow> process"
  k_bitmap :: "64 word"
  k_table_lock :: bool
  k_queue_lock :: bool
  k_next_pid :: usize
  k_hart_proc :: usize
  k_sie :: bool
  k_user_satp :: "usize option"
  k_sscratch :: usize

definition upd_proc :: "nat \<Rightarrow> (process \<Rightarrow> process) \<Rightarrow> kernel \<Rightarrow> kernel" where
  "upd_proc i f k = k\<lparr>k_procs := (k_procs k)(i := f (k_procs k i))\<rparr>"

definition proc_ptr :: "kconf \<Rightarrow> nat \<Rightarrow> usize" where
  "proc_ptr cf i = cf_table cf + i * cf_proc_size cf"

text \<open>The entry a pointer refers to; following any other pointer is not defined.\<close>

definition slot_of :: "kconf \<Rightarrow> usize \<Rightarrow> nat option" where
  "slot_of cf p =
     (if p < cf_table cf then None
      else let i = (p - cf_table cf) div cf_proc_size cf in
        if i < NPROC \<and> proc_ptr cf i = p then Some i else None)"

section \<open>Locks\<close>

definition lock_table :: "kernel \<Rightarrow> kernel option" where
  "lock_table k = (if k_table_lock k then None else Some (k\<lparr>k_table_lock := True\<rparr>))"

definition unlock_table :: "kernel \<Rightarrow> kernel" where
  "unlock_table k = k\<lparr>k_table_lock := False\<rparr>"

definition lock_queue :: "kernel \<Rightarrow> kernel option" where
  "lock_queue k = (if k_queue_lock k then None else Some (k\<lparr>k_queue_lock := True\<rparr>))"

definition unlock_queue :: "kernel \<Rightarrow> kernel" where
  "unlock_queue k = k\<lparr>k_queue_lock := False\<rparr>"

section \<open>The bitmap of runnable processes\<close>

definition mark_runnable :: "nat \<Rightarrow> kernel \<Rightarrow> kernel" where
  "mark_runnable proc_idx k = (if NPROC \<le> proc_idx then k else k\<lparr>k_bitmap := k_bitmap k OR push_bit proc_idx 1\<rparr>)"

definition mark_not_runnable :: "nat \<Rightarrow> kernel \<Rightarrow> kernel" where
  "mark_not_runnable proc_idx k = (if NPROC \<le> proc_idx then k else k\<lparr>k_bitmap := k_bitmap k AND NOT (push_bit proc_idx 1)\<rparr>)"

definition clear_runnable_bit :: "nat \<Rightarrow> kernel \<Rightarrow> kernel" where
  "clear_runnable_bit proc_idx k = (if NPROC \<le> proc_idx then k else k\<lparr>k_bitmap := k_bitmap k AND NOT (push_bit proc_idx 1)\<rparr>)"

definition trailing_zeros :: "64 word \<Rightarrow> nat" where
  "trailing_zeros w = (case List.find (\<lambda>i. bit w i) [0..<64] of Some i \<Rightarrow> i | None \<Rightarrow> 64)"

definition find_runnable :: "kernel \<Rightarrow> nat option" where
  "find_runnable k =
     (if k_bitmap k = 0 then None
      else let idx = trailing_zeros (k_bitmap k) in if idx < NPROC then Some idx else None)"

definition has_runnable :: "kernel \<Rightarrow> bool" where
  "has_runnable k \<longleftrightarrow> k_bitmap k \<noteq> 0"

definition clear_all :: "kernel \<Rightarrow> kernel" where
  "clear_all k = k\<lparr>k_bitmap := 0\<rparr>"

text \<open>The search for the index of a process takes the lock of the table.\<close>

definition find_proc_index :: "kconf \<Rightarrow> usize \<Rightarrow> kernel \<Rightarrow> (nat option \<times> kernel) option" where
  "find_proc_index cf p k = do {
     k \<leftarrow> lock_table k;
     (if p < cf_table cf then Some (None, unlock_table k)
      else
        let idx = (p - cf_table cf) div cf_proc_size cf in
        Some (if idx < NPROC \<and> cf_table cf + idx * cf_proc_size cf = p then Some idx else None, unlock_table k))
   }"

section \<open>Life cycle\<close>

definition drop_frame :: "phys_frame option \<Rightarrow> pmem \<Rightarrow> pmem option" where
  "drop_frame f s = (case f of None \<Rightarrow> Some s | Some f \<Rightarrow> PhysFrame_drop f s)"

definition drop_kstack :: "kconf \<Rightarrow> kernel_stack option \<Rightarrow> pmem \<Rightarrow> pmem option" where
  "drop_kstack cf ks s = (case ks of None \<Rightarrow> Some s | Some ks \<Rightarrow> KernelStack_drop (cf_kpt cf) ks s)"

text \<open>\<open>satp\<close> of a process: Sv39, the process number as address space, the page number of the root table.\<close>

definition root_satp :: "process \<Rightarrow> usize" where
  "root_satp p = push_bit 60 8 OR (push_bit 44 (pr_pid p) mod 2 ^ 64) OR (drop_bit 12 (root_pt_pa p) AND mask 52)"

definition Process_free :: "kconf \<Rightarrow> process \<Rightarrow> warehouse \<Rightarrow> pmem \<Rightarrow> (process \<times> warehouse \<times> pmem) option" where
  "Process_free cf p w s = do {
     s \<leftarrow> pt_destroy (root_pt_pa p) s;
     s \<leftarrow> drop_frame (pr_root_frame p) s;
     let w = region_free (mmap_head p) w;
     s \<leftarrow> drop_kstack cf (pr_kstack p) s;
     Some (p\<lparr>pr_root_frame := None, pr_kstack := None\<rparr>, w, s)
   }"

definition proc_alloc :: "kconf \<Rightarrow> kernel \<Rightarrow> (nat option \<times> kernel) option" where
  "proc_alloc cf k = do {
     let sie_enabled = k_sie k;
     k \<leftarrow> lock_table (k\<lparr>k_sie := False\<rparr>);
     (case List.find (\<lambda>i. pr_state (k_procs k i) = Unused) [0..<NPROC] of
        Some i \<Rightarrow> do {
          let pid = k_next_pid k;
          let k = k\<lparr>k_next_pid := (pid + 1) mod 2 ^ 64\<rparr>;
          let k = upd_proc i (\<lambda>p. p\<lparr>pr_pid := pid, pr_parent := 0, pr_exit_code := 0, pr_sleep_chan := 0,
                pr_context := ProcContext_new\<lparr>ctx_ra := cf_proc_return cf, ctx_sp := 0\<rparr>, pr_state := Runnable\<rparr>) k;
          let k = mark_runnable i k;
          Some (Some i, unlock_table (k\<lparr>k_sie := sie_enabled\<rparr>))
        }
      | None \<Rightarrow> Some (None, unlock_table (k\<lparr>k_sie := sie_enabled\<rparr>)))
   }"

text \<open>Waking the sleepers on a channel.\<close>

fun wakeup_loop :: "usize \<Rightarrow> nat list \<Rightarrow> kernel \<Rightarrow> kernel" where
  "wakeup_loop channel [] k = k"
| "wakeup_loop channel (i # is) k =
     wakeup_loop channel is
       (if pr_state (k_procs k i) = Sleeping \<and> pr_sleep_chan (k_procs k i) = channel
        then mark_runnable i (upd_proc i (\<lambda>p. p\<lparr>pr_state := Runnable, pr_sleep_chan := 0\<rparr>) k)
        else k)"

definition wakeup :: "usize \<Rightarrow> kernel \<Rightarrow> kernel option" where
  "wakeup channel k = do {
     let sie_enabled = k_sie k;
     k \<leftarrow> lock_queue (k\<lparr>k_sie := False\<rparr>);
     k \<leftarrow> lock_table k;
     let k = wakeup_loop channel [0..<NPROC] k;
     Some (unlock_queue (unlock_table (if sie_enabled then k\<lparr>k_sie := True\<rparr> else k)))
   }"

fun close_all :: "nat \<Rightarrow> nat list \<Rightarrow> kernel \<Rightarrow> kernel option" where
  "close_all i [] k = Some k"
| "close_all i (fd # fds) k = do {
     k \<leftarrow> (case open_files (k_procs k i) ! fd of
             None \<Rightarrow> Some k
           | Some f_idx \<Rightarrow> do {
               (t, st) \<leftarrow> file_close f_idx (k_files k) (k_ifs k);
               Some (upd_proc i (\<lambda>p. p\<lparr>open_files := (open_files p)[fd := None]\<rparr>) (k\<lparr>k_files := t, k_ifs := st\<rparr>))
             });
     close_all i fds k
   }"

definition adopt :: "kconf \<Rightarrow> usize \<Rightarrow> kernel \<Rightarrow> kernel" where
  "adopt cf self k = k\<lparr>k_procs := (\<lambda>j. if j < NPROC \<and> pr_parent (k_procs k j) = self
     then (k_procs k j)\<lparr>pr_parent := proc_ptr cf 0\<rparr> else k_procs k j)\<rparr>"

definition proc_exit :: "kconf \<Rightarrow> nat \<Rightarrow> kernel \<Rightarrow> kernel option" where
  "proc_exit cf i k = do {
     let sie_enabled = k_sie k;
     let k = k\<lparr>k_sie := False\<rparr>;
     k \<leftarrow> (if pr_parent (k_procs k i) \<noteq> 0 then wakeup (pr_parent (k_procs k i)) k else Some k);
     k \<leftarrow> lock_table k;
     let k = adopt cf (proc_ptr cf i) k;
     let k = unlock_table (mark_not_runnable i k);
     let k = upd_proc i (\<lambda>p. p\<lparr>pr_state := Dying\<rparr>) k;
     k \<leftarrow> close_all i [0..<NOFILE] k;
     Some (if sie_enabled then k\<lparr>k_sie := True\<rparr> else k)
   }"

end
