(* ===== verification/Exec.thy ===== *)
theory Exec
  imports Proc
begin

unbundle bit_operations_syntax

text \<open>
  Creating processes and loading programs (\<open>proc/process.rs\<close>: \<open>create\<close>, \<open>fork\<close>, \<open>exec\<close>, \<open>proc_exec\<close>; \<open>syscall/proc.rs\<close>:
  \<open>sys_fork\<close>, \<open>sys_exec\<close>). A trap frame lies in physical memory at the address the process keeps; the kernel reaches physical
  memory at the same addresses. A frame that goes out of scope is given back, also on the error paths.
\<close>

section \<open>Trap frames\<close>

definition tf_fields :: "string list" where
  "tf_fields = [''kernel_satp'', ''kernel_sp'', ''kernel_trapvector'', ''kernel_epc'', ''kernel_hartid'', ''ra'', ''sp'', ''gp'', ''tp'',
     ''t0'', ''t1'', ''t2'', ''s0'', ''s1'', ''a0'', ''a1'', ''a2'', ''a3'', ''a4'', ''a5'', ''a6'', ''a7'',
     ''s2'', ''s3'', ''s4'', ''s5'', ''s6'', ''s7'', ''s8'', ''s9'', ''s10'', ''s11'', ''t3'', ''t4'', ''t5'', ''t6'']"

definition tf_off :: "string \<Rightarrow> usize" where
  "tf_off f = 8 * length (takeWhile (\<lambda>x. x \<noteq> f) tf_fields)"

definition TF_SIZE :: usize where "TF_SIZE = 8 * length tf_fields"

definition tf_get :: "string \<Rightarrow> usize \<Rightarrow> ram \<Rightarrow> usize" where
  "tf_get f tf m = read_u64 m (tf + tf_off f)"

definition tf_set :: "string \<Rightarrow> usize \<Rightarrow> usize \<Rightarrow> ram \<Rightarrow> ram" where
  "tf_set f v tf m = write_u64 m (tf + tf_off f) v"

definition upd_mem :: "(ram \<Rightarrow> ram) \<Rightarrow> pmem \<Rightarrow> pmem" where
  "upd_mem f s = s\<lparr>mem := f (mem s)\<rparr>"

definition round_up_page :: "usize \<Rightarrow> usize option" where
  "round_up_page n = do { m \<leftarrow> uadd n PGSIZE; Some ((m - 1) AND cnot 64 (PGSIZE - 1)) }"

section \<open>A zeroed user page at an address\<close>

definition zero_page :: "usize \<Rightarrow> usize \<Rightarrow> nat \<Rightarrow> pmem \<Rightarrow> (usize \<times> pmem) option" where
  "zero_page pt va perm s = do {
     (pa, s) \<leftarrow> pmem_alloc False s;
     s \<leftarrow> mappages pt va pa PGSIZE perm (upd_mem (\<lambda>m. write_bytes m pa 0 PGSIZE) s);
     Some (pa, s)
   }"

section \<open>Loading a payload\<close>

definition code_va :: usize where "code_va = PGSIZE"

definition code_perm :: nat where
  "code_perm = PTE_U OR PTE_R OR PTE_W OR PTE_X OR PTE_A"

function payload_loop :: "usize \<Rightarrow> u8 list \<Rightarrow> usize \<Rightarrow> pmem \<Rightarrow> (usize \<times> pmem) option" where
  "payload_loop pt payload mapped_len s =
     (if mapped_len < length payload then do {
        (pa, s) \<leftarrow> pmem_alloc False s;
        let this_len = min PGSIZE (length payload - mapped_len);
        let s = upd_mem (\<lambda>m. store (write_bytes m pa 0 PGSIZE) pa (take this_len (drop mapped_len payload))) s;
        va \<leftarrow> uadd code_va mapped_len;
        s \<leftarrow> mappages pt va pa PGSIZE (code_perm OR PTE_D) s;
        payload_loop pt payload (mapped_len + this_len) s
      }
      else Some (mapped_len, s))"
  by pat_completeness auto
termination
  by (relation "measure (\<lambda>(_, payload, mapped_len, _). length payload - mapped_len)") (auto simp: PGSIZE_def)

declare payload_loop.simps [simp del]

definition Process_exec :: "u8 list \<Rightarrow> process \<Rightarrow> pmem \<Rightarrow> (process \<times> pmem) option" where
  "Process_exec payload p s = do {
     (mapped_len, s) \<leftarrow> (if payload = [] then do { (_, s) \<leftarrow> zero_page (root_pt_pa p) code_va code_perm s; Some (PGSIZE, s) }
                         else payload_loop (root_pt_pa p) payload 0 s);
     len \<leftarrow> round_up_page mapped_len;
     e \<leftarrow> uadd code_va len;
     Some (p\<lparr>pr_entry_va := code_va, heap_top := align_down e, heap_base := align_down e\<rparr>, s)
   }"

section \<open>A fresh address space\<close>

definition tramp_va :: usize where "tramp_va = VA_MAX - PGSIZE"
definition tf_va :: usize where "tf_va = tramp_va - PGSIZE"

definition tramp_perm :: nat where "tramp_perm = PTE_R OR PTE_X OR PTE_A"

definition map_trampoline :: "kconf \<Rightarrow> usize \<Rightarrow> pmem \<Rightarrow> pmem option" where
  "map_trampoline cf pt s = mappages pt tramp_va (align_down (cf_tramp cf)) PGSIZE tramp_perm (upd_mem (\<lambda>m. write_bytes m pt 0 PGSIZE) s)"

definition frame_expect :: "pmem \<Rightarrow> (phys_frame \<times> pmem) option" where
  "frame_expect s = do { (f, s) \<leftarrow> PhysFrame_alloc s; (case f of Some f \<Rightarrow> Some (f, s) | None \<Rightarrow> None) }"

definition set_user_satp :: "kconf \<Rightarrow> nat \<Rightarrow> kernel \<Rightarrow> kernel" where
  "set_user_satp cf i k = k\<lparr>k_user_satp := Some (root_satp (k_procs k i)), k_sscratch := pr_tf_va (k_procs k i)\<rparr>"

definition create_tf :: "kconf \<Rightarrow> usize \<Rightarrow> process \<Rightarrow> ram \<Rightarrow> ram" where
  "create_tf cf ksp p m = (
     let tf = pr_trapframe p in
     tf_set ''a0'' (pr_tf_va p) tf (tf_set ''kernel_sp'' ksp tf (tf_set ''kernel_hartid'' (cf_hartid cf) tf
       (tf_set ''kernel_satp'' (cf_satp cf) tf (tf_set ''kernel_epc'' (pr_entry_va p) tf (tf_set ''sp'' (pr_user_sp p) tf m))))))"

definition proc_create :: "kconf \<Rightarrow> u8 list \<Rightarrow> kernel \<Rightarrow> (nat \<times> kernel) option" where
  "proc_create cf payload k = do {
     (r, k) \<leftarrow> proc_alloc cf k;
     (case r of
        None \<Rightarrow> None
      | Some i \<Rightarrow> do {
          let p = k_procs k i;
          (root, s) \<leftarrow> frame_expect (k_pm k);
          s \<leftarrow> drop_frame (pr_root_frame p) s;
          let p = p\<lparr>root_pt_pa := frame_addr root, pr_root_frame := Some root\<rparr>;
          s \<leftarrow> map_trampoline cf (root_pt_pa p) s;
          (tf, s) \<leftarrow> frame_expect s;
          s \<leftarrow> drop_frame (pr_tf_frame p) s;
          let p = p\<lparr>pr_tf_va := tf_va, pr_trapframe := frame_addr tf, pr_tf_frame := Some tf\<rparr>;
          s \<leftarrow> mappages (root_pt_pa p) tf_va (frame_addr tf) PGSIZE kernel_rw s;
          (p, s) \<leftarrow> Process_exec payload p s;
          (ks, s) \<leftarrow> KernelStack_new (cf_kpt cf) (pr_pid p) s;
          s \<leftarrow> drop_kstack cf (pr_kstack p) s;
          let p = p\<lparr>pr_kstack := Some ks, pr_user_sp := STACK_TOP\<rparr>;
          let s = upd_mem (create_tf cf (ks_top ks) p) s;
          let p = p\<lparr>pr_context := (pr_context p)\<lparr>ctx_ra := if pr_pid p = 1 then cf_fs_init cf else cf_user_return cf, ctx_sp := ks_top ks\<rparr>,
                pr_state := Runnable\<rparr>;
          Some (i, set_user_satp cf i (upd_proc i (\<lambda>_. p) (k\<lparr>k_pm := s\<rparr>)))
        })
   }"

section \<open>Fork\<close>

text \<open>One more holder for every open file.\<close>

fun dup_files :: "nat option list \<Rightarrow> file_table \<Rightarrow> file_table option" where
  "dup_files [] t = Some t"
| "dup_files (None # fs) t = dup_files fs t"
| "dup_files (Some f_idx # fs) t = do {
     f \<leftarrow> file_at f_idx t;
     n \<leftarrow> add32 (f_refcnt f) 1;
     dup_files fs (t(f_idx := f\<lparr>f_refcnt := n\<rparr>))
   }"

definition fork_tf :: "usize \<Rightarrow> usize \<Rightarrow> usize \<Rightarrow> usize \<Rightarrow> ram \<Rightarrow> ram" where
  "fork_tf parent_tf child_tf ksp child_pid m = (
     let m = store m child_tf (load m parent_tf TF_SIZE);
         m = tf_set ''a0'' 0 child_tf m;
         m = tf_set ''kernel_epc'' ((tf_get ''kernel_epc'' child_tf m + 4) mod 2 ^ 64) child_tf m;
         m = tf_set ''kernel_sp'' ksp child_tf m
     in tf_set ''a0'' child_pid parent_tf m)"

definition proc_fork :: "kconf \<Rightarrow> nat \<Rightarrow> kernel \<Rightarrow> (nat \<times> kernel) option" where
  "proc_fork cf self k = do {
     (r, k) \<leftarrow> proc_alloc cf k;
     (case r of
        None \<Rightarrow> None
      | Some i \<Rightarrow> do {
          let p = k_procs k self;
          let c = (k_procs k i)\<lparr>pr_parent := proc_ptr cf self, pr_entry_va := pr_entry_va p, pr_user_sp := pr_user_sp p, pr_tf_va := pr_tf_va p\<rparr>;
          (root, s) \<leftarrow> pt_copy (root_pt_pa p) (k_pm k);
          (case root of
             Inl _ \<Rightarrow> None
           | Inr root \<Rightarrow> do {
               s \<leftarrow> drop_frame (pr_root_frame c) s;
               t \<leftarrow> dup_files (open_files p) (k_files k);
               let c = c\<lparr>root_pt_pa := root, pr_root_frame := Some (PhysFrame_from_raw root), heap_base := heap_base p, heap_top := heap_top p,
                     pr_stack_pages := pr_stack_pages p, open_files := open_files p, cwd := cwd p\<rparr>;
               (tf, s) \<leftarrow> frame_expect s;
               s \<leftarrow> drop_frame (pr_tf_frame c) s;
               let c = c\<lparr>pr_trapframe := frame_addr tf, pr_tf_frame := Some tf\<rparr>;
               (ks, s) \<leftarrow> KernelStack_new (cf_kpt cf) (pr_pid c) s;
               s \<leftarrow> drop_kstack cf (pr_kstack c) s;
               let c = c\<lparr>pr_kstack := Some ks\<rparr>;
               s \<leftarrow> unmappages root (pr_tf_va c) PGSIZE True s;
               s \<leftarrow> mappages root (pr_tf_va c) (frame_addr tf) PGSIZE kernel_rw s;
               let s = upd_mem (fork_tf (pr_trapframe p) (pr_trapframe c) (ks_top ks) (pr_pid c)) s;
               let c = c\<lparr>pr_context := (pr_context c)\<lparr>ctx_ra := cf_user_return cf, ctx_sp := ks_top ks\<rparr>, pr_state := Runnable\<rparr>;
               Some (i, upd_proc i (\<lambda>_. c) (k\<lparr>k_pm := s, k_files := t\<rparr>))
             })
        })
   }"

definition sys_fork :: "kconf \<Rightarrow> kernel \<Rightarrow> (usize \<times> kernel) option" where
  "sys_fork cf k = do {
     i \<leftarrow> slot_of cf (k_hart_proc k);
     (c, k) \<leftarrow> proc_fork cf i k;
     Some (pr_pid (k_procs k c), k)
   }"


section \<open>Loading a program from the file system\<close>

text \<open>The file-system calls on the process in slot \<open>i\<close> and on the state of the kernel.\<close>

definition kfs :: "kernel \<Rightarrow> fsys" where
  "kfs k = \<lparr>sy_i = k_ifs k, sy_files = k_files k, sy_mem = mem (k_pm k)\<rparr>"

definition put_kfs :: "fsys \<Rightarrow> kernel \<Rightarrow> kernel" where
  "put_kfs s k = k\<lparr>k_ifs := sy_i s, k_files := sy_files s, k_pm := upd_mem (\<lambda>_. sy_mem s) (k_pm k)\<rparr>"

definition on_fproc :: "nat \<Rightarrow> (fproc \<Rightarrow> fsys \<Rightarrow> ('a \<times> fproc \<times> fsys) option) \<Rightarrow> kernel \<Rightarrow> ('a \<times> kernel) option" where
  "on_fproc i f k = do {
     (r, p, s) \<leftarrow> f (fproc.truncate (k_procs k i)) (kfs k);
     Some (r, upd_proc i (\<lambda>q. q\<lparr>open_files := open_files p, cwd := cwd p\<rparr>) (put_kfs s k))
   }"

definition le_at :: "nat \<Rightarrow> nat \<Rightarrow> u8 list \<Rightarrow> nat" where
  "le_at a n bs = le_val (take n (drop a bs))"

definition elf_magic :: "u8 list" where "elf_magic = [0x7f, 0x45, 0x4c, 0x46]"

record phdr =
  p_type :: u32
  p_flags :: u32
  p_offset :: usize
  p_vaddr :: usize
  p_filesz :: usize
  p_memsz :: usize

definition decode_phdr :: "u8 list \<Rightarrow> phdr" where
  "decode_phdr ph = \<lparr>p_type = le_at 0 4 ph, p_flags = le_at 4 4 ph, p_offset = le_at 8 8 ph, p_vaddr = le_at 16 8 ph,
     p_filesz = le_at 32 8 ph, p_memsz = le_at 40 8 ph\<rparr>"

definition seg_perm :: "u32 \<Rightarrow> nat" where
  "seg_perm flags = (PTE_U OR PTE_A OR PTE_D OR PTE_W) OR (if flags AND 1 \<noteq> 0 then PTE_X else 0) OR (if flags AND 4 \<noteq> 0 then PTE_R else 0)"

function seg_pages :: "usize \<Rightarrow> nat \<Rightarrow> usize \<Rightarrow> usize \<Rightarrow> pmem \<Rightarrow> pmem option" where
  "seg_pages pt perm end_va va s =
     (if va < end_va then do {
        (_, s) \<leftarrow> zero_page pt va perm s;
        va \<leftarrow> uadd va PGSIZE;
        seg_pages pt perm end_va va s
      }
      else Some s)"
  by pat_completeness auto
termination
  by (relation "measure (\<lambda>(_, _, end_va, va, _). end_va - va)") (auto simp: cadd_Some_iff PGSIZE_def)

declare seg_pages.simps [simp del]

text \<open>The bytes of a segment, 512 at a time. A short read ends the loop, a page that may not be written ends the load.\<close>

function seg_data :: "usize \<Rightarrow> nat \<Rightarrow> phdr \<Rightarrow> usize \<Rightarrow> ifs \<Rightarrow> pmem \<Rightarrow> (bool \<times> ifs \<times> pmem) option" where
  "seg_data pt ip ph read_off st s =
     (if read_off < p_filesz ph then do {
        let chunk = min (p_filesz ph - read_off) 512;
        off \<leftarrow> uadd (p_offset ph) read_off;
        (n, kbuf, st) \<leftarrow> inode_read_data ip (as_u32 off) chunk (replicate chunk 0) st;
        (if n \<noteq> chunk then Some (True, st, s)
         else do {
           va \<leftarrow> uadd (p_vaddr ph) read_off;
           (r, m) \<leftarrow> copyout (mem s) pt va kbuf;
           (case r of
              Inl _ \<Rightarrow> Some (False, st, s\<lparr>mem := m\<rparr>)
            | Inr _ \<Rightarrow> seg_data pt ip ph (read_off + chunk) st (s\<lparr>mem := m\<rparr>))
         })
      }
      else Some (True, st, s))"
  by pat_completeness auto
termination
  by (relation "measure (\<lambda>(_, _, ph, read_off, _, _). p_filesz ph - read_off)") auto

declare seg_data.simps [simp del]

fun load_segments :: "usize \<Rightarrow> nat \<Rightarrow> u32 \<Rightarrow> usize \<Rightarrow> nat list \<Rightarrow> usize \<Rightarrow> ifs \<Rightarrow> pmem \<Rightarrow> (usize option \<times> ifs \<times> pmem) option" where
  "load_segments pt ip phoff phentsize [] max_va st s = Some (Some max_va, st, s)"
| "load_segments pt ip phoff phentsize (i # is) max_va st s = do {
     off \<leftarrow> add32 phoff (as_u32 (i * phentsize));
     (n, bytes, st) \<leftarrow> inode_read_data ip off 56 (replicate 56 0) st;
     (if n \<noteq> 56 then Some (Some max_va, st, s)
      else
        let ph = decode_phdr bytes in
        if p_type ph \<noteq> 1 then load_segments pt ip phoff phentsize is max_va st s
        else do {
          e \<leftarrow> uadd (p_vaddr ph) (p_memsz ph);
          end_va \<leftarrow> round_up_page e;
          s \<leftarrow> seg_pages pt (seg_perm (p_flags ph)) end_va (align_down (p_vaddr ph)) s;
          (ok, st, s) \<leftarrow> seg_data pt ip ph 0 st s;
          (if ok then load_segments pt ip phoff phentsize is (max max_va end_va) st s else Some (None, st, s))
        })
   }"

text \<open>The stack pages, from the top down; a page is skipped when its table exists.\<close>

definition stack_page_list :: "usize list" where
  "stack_page_list = map (\<lambda>j. STACK_TOP - (j + 1) * PGSIZE) [0..<STACK_SIZE div PGSIZE]"

fun exec_stack :: "usize \<Rightarrow> usize list \<Rightarrow> pmem \<Rightarrow> pmem option" where
  "exec_stack pt [] s = Some s"
| "exec_stack pt (va # vas) s =
     (if pt_lookup (mem s) pt va = None
      then do { (_, s) \<leftarrow> zero_page pt va user_rw s; exec_stack pt vas s }
      else exec_stack pt vas s)"

text \<open>The strings of the arguments, last first, then the array of their addresses.\<close>

fun push_args :: "usize \<Rightarrow> usize \<Rightarrow> (nat \<times> usize) list \<Rightarrow> usize \<Rightarrow> usize list \<Rightarrow> ram \<Rightarrow> ((usize \<times> usize list) option \<times> ram) option" where
  "push_args old pt [] sp stack_argv m = Some (Some (sp, stack_argv), m)"
| "push_args old pt ((i, ua) # as) sp stack_argv m = do {
     (r, arg_buf) \<leftarrow> copyin_str m old (replicate 128 0) ua;
     (case r of
        Inl _ \<Rightarrow> Some (None, m)
      | Inr len \<Rightarrow> do {
          sp \<leftarrow> csub sp len;
          let sp = sp AND cnot 64 7;
          (if length arg_buf < len then None
           else do {
             (r, m) \<leftarrow> copyout m pt sp (take len arg_buf);
             (case r of
                Inl _ \<Rightarrow> Some (None, m)
              | Inr _ \<Rightarrow> if i < length stack_argv then push_args old pt as sp (stack_argv[i := sp]) m else None)
           })
        })
   }"

fun push_ptrs :: "usize \<Rightarrow> usize \<Rightarrow> (nat \<times> usize) list \<Rightarrow> ram \<Rightarrow> (bool \<times> ram) option" where
  "push_ptrs pt sp [] m = Some (True, m)"
| "push_ptrs pt sp ((i, a) # as) m = do {
     va \<leftarrow> uadd sp (i * 8);
     (r, m) \<leftarrow> copyout m pt va (le_bytes 8 a);
     (case r of Inl _ \<Rightarrow> Some (False, m) | Inr _ \<Rightarrow> push_ptrs pt sp as m)
   }"

definition exec_args :: "usize \<Rightarrow> usize \<Rightarrow> usize list \<Rightarrow> ram \<Rightarrow> (usize option \<times> ram) option" where
  "exec_args old pt u_argv m = do {
     (r, m) \<leftarrow> push_args old pt (rev (enumerate 0 u_argv)) STACK_TOP (replicate 16 0) m;
     (case r of
        None \<Rightarrow> Some (None, m)
      | Some (sp, stack_argv) \<Rightarrow> do {
          sp \<leftarrow> csub sp (length u_argv * 8);
          let sp = sp AND cnot 64 7;
          (ok, m) \<leftarrow> push_ptrs pt sp (enumerate 0 (take (length u_argv) stack_argv)) m;
          Some (if ok then Some sp else None, m)
        })
   }"


section \<open>Replacing the image of a process\<close>

text \<open>Leaving \<open>proc_exec\<close> with an error drops the two frames; the rest of the new address space is lost.\<close>

definition exec_fail :: "phys_frame \<Rightarrow> phys_frame \<Rightarrow> kernel \<Rightarrow> (bool \<times> kernel) option" where
  "exec_fail root tf k = do {
     s \<leftarrow> PhysFrame_drop tf (k_pm k);
     s \<leftarrow> PhysFrame_drop root s;
     Some (False, k\<lparr>k_pm := s\<rparr>)
   }"

definition exec_tf :: "kconf \<Rightarrow> usize \<Rightarrow> nat \<Rightarrow> usize \<Rightarrow> process \<Rightarrow> ram \<Rightarrow> ram" where
  "exec_tf cf sp argc ksp p m = (
     let tf = pr_trapframe p in
     tf_set ''kernel_sp'' ksp tf (tf_set ''kernel_hartid'' (cf_hartid cf) tf (tf_set ''kernel_satp'' (cf_satp cf) tf
       (tf_set ''a1'' sp tf (tf_set ''a0'' argc tf (tf_set ''kernel_epc'' (pr_entry_va p) tf (tf_set ''sp'' sp tf m)))))))"

definition exec_commit :: "kconf \<Rightarrow> nat \<Rightarrow> phys_frame \<Rightarrow> phys_frame \<Rightarrow> u8 list \<Rightarrow> usize \<Rightarrow> usize \<Rightarrow> nat \<Rightarrow> kernel \<Rightarrow> (bool \<times> kernel) option" where
  "exec_commit cf self root tf elf_header max_va sp argc k = do {
     let p = k_procs k self;
     s \<leftarrow> (case pr_root_frame p of
             None \<Rightarrow> Some (k_pm k)
           | Some f \<Rightarrow> do { s \<leftarrow> pt_destroy (frame_addr f) (k_pm k); PhysFrame_drop f s });
     let old_tf = pr_tf_frame p;
     let p = p\<lparr>root_pt_pa := frame_addr root, pr_root_frame := Some root, pr_trapframe := frame_addr tf, pr_tf_frame := Some tf, pr_tf_va := tf_va,
           heap_base := max_va, heap_top := max_va, pr_stack_pages := STACK_SIZE div PGSIZE, pr_entry_va := le_at 24 8 elf_header, pr_user_sp := sp\<rparr>;
     ks \<leftarrow> pr_kstack p;
     let s = upd_mem (exec_tf cf sp argc (ks_top ks) p) s;
     let k = set_user_satp cf self (upd_proc self (\<lambda>_. p) k);
     s \<leftarrow> drop_frame old_tf s;
     Some (True, k\<lparr>k_pm := s\<rparr>)
   }"

text \<open>The address space of the new image, up to the point where the old one is given up.\<close>

definition exec_image :: "kconf \<Rightarrow> nat \<Rightarrow> nat \<Rightarrow> usize \<Rightarrow> u8 list \<Rightarrow> usize list \<Rightarrow> kernel \<Rightarrow> (bool \<times> kernel) option" where
  "exec_image cf self ip fd elf_header u_argv k = do {
     (root, s) \<leftarrow> PhysFrame_alloc (k_pm k);
     (case root of
        None \<Rightarrow> Some (False, k\<lparr>k_pm := s\<rparr>)
      | Some root \<Rightarrow> do {
          let pt = frame_addr root;
          s \<leftarrow> map_trampoline cf pt s;
          (tf, s) \<leftarrow> PhysFrame_alloc s;
          (case tf of
             None \<Rightarrow> do { s \<leftarrow> PhysFrame_drop root s; Some (False, k\<lparr>k_pm := s\<rparr>) }
           | Some tf \<Rightarrow> do {
               s \<leftarrow> mappages pt tf_va (frame_addr tf) PGSIZE kernel_rw s;
               (r, st, s) \<leftarrow> load_segments pt ip (as_u32 (le_at 32 8 elf_header)) (le_at 54 2 elf_header) [0..<le_at 56 2 elf_header] 0 (k_ifs k) s;
               (case r of
                  None \<Rightarrow> exec_fail root tf (k\<lparr>k_ifs := st, k_pm := s\<rparr>)
                | Some max_va \<Rightarrow> do {
                    st \<leftarrow> inode_put ip st;
                    (r, k) \<leftarrow> on_fproc self (\<lambda>p. fs_close p fd) (k\<lparr>k_ifs := st, k_pm := s\<rparr>);
                    (case r of
                       None \<Rightarrow> exec_fail root tf k
                     | Some _ \<Rightarrow> do {
                         s \<leftarrow> exec_stack pt stack_page_list (k_pm k);
                         (r, m) \<leftarrow> exec_args (root_pt_pa (k_procs k self)) pt u_argv (mem s);
                         let k = k\<lparr>k_pm := s\<lparr>mem := m\<rparr>\<rparr>;
                         (case r of
                            None \<Rightarrow> exec_fail root tf k
                          | Some sp \<Rightarrow> exec_commit cf self root tf elf_header max_va sp (length u_argv) k)
                       })
                  })
             })
        })
   }"

definition proc_exec :: "kconf \<Rightarrow> nat \<Rightarrow> u8 list \<Rightarrow> usize list \<Rightarrow> kernel \<Rightarrow> (bool \<times> kernel) option" where
  "proc_exec cf self path u_argv k = do {
     (r, k) \<leftarrow> on_fproc self (\<lambda>p. fs_open p path 0) k;
     (case r of
        None \<Rightarrow> Some (False, k)
      | Some fd \<Rightarrow>
          (case open_files (k_procs k self) ! fd of
             None \<Rightarrow> Some (False, k)
           | Some f_idx \<Rightarrow> do {
               f \<leftarrow> file_at f_idx (k_files k);
               (ip, st) \<leftarrow> inode_get (f_inum f) (k_ifs k);
               (n, elf_header, st) \<leftarrow> inode_read_data ip 0 64 (replicate 64 0) st;
               (if n \<noteq> 64 \<or> take 4 elf_header \<noteq> elf_magic then do {
                  st \<leftarrow> inode_put ip st;
                  (_, k) \<leftarrow> on_fproc self (\<lambda>p. fs_close p fd) (k\<lparr>k_ifs := st\<rparr>);
                  Some (False, k)
                }
                else exec_image cf self ip fd elf_header u_argv (k\<lparr>k_ifs := st\<rparr>))
             }))
   }"

section \<open>System calls\<close>

text \<open>At most fifteen arguments; the list ends at a null pointer or where it cannot be read.\<close>

function read_argv :: "usize \<Rightarrow> usize \<Rightarrow> usize list \<Rightarrow> ram \<Rightarrow> usize list option" where
  "read_argv pt u_argv argv m = do {
     va \<leftarrow> uadd u_argv (length argv * 8);
     (r, bytes) \<leftarrow> copyin m pt (replicate 8 0) va;
     (case r of
        Inl _ \<Rightarrow> Some argv
      | Inr _ \<Rightarrow>
          if le_val bytes = 0 \<or> 15 \<le> length argv then Some argv
          else read_argv pt u_argv (argv @ [le_val bytes]) m)
   }"
  by pat_completeness auto
termination
  by (relation "measure (\<lambda>(_, _, argv, _). 15 - length argv)") auto

declare read_argv.simps [simp del]

definition sys_exec :: "kconf \<Rightarrow> usize \<Rightarrow> usize \<Rightarrow> kernel \<Rightarrow> (usize \<times> kernel) option" where
  "sys_exec cf u_path u_argv k = do {
     self \<leftarrow> slot_of cf (k_hart_proc k);
     let pt = root_pt_pa (k_procs k self);
     path \<leftarrow> user_path pt u_path (kfs k);
     (case path of
        None \<Rightarrow> Some (usize_MAX, k)
      | Some path \<Rightarrow> do {
          argv \<leftarrow> read_argv pt u_argv [] (mem (k_pm k));
          (ok, k) \<leftarrow> proc_exec cf self path argv k;
          Some (if ok then 0 else usize_MAX, k)
        })
   }"

definition Process_ustack_grow :: "usize \<Rightarrow> process \<Rightarrow> pmem \<Rightarrow> (bool \<times> pmem) option" where
  "Process_ustack_grow fault_va p s = do {
     (r, s) \<leftarrow> ustack_grow (root_pt_pa p) fault_va s;
     Some (case r of Inr _ \<Rightarrow> True | Inl _ \<Rightarrow> False, s)
   }"

definition Process_launch :: "kconf \<Rightarrow> nat \<Rightarrow> kernel \<Rightarrow> kernel" where
  "Process_launch cf i k = k\<lparr>k_hart_proc := proc_ptr cf i\<rparr>"

end
