(* ===== verification/Sched.thy ===== *)
theory Sched
  imports Exec
begin

unbundle bit_operations_syntax

text \<open>
  The scheduler (\<open>proc/scheduler.rs\<close>), cut at the context switches: \<open>scheduler_pick\<close> and \<open>scheduler_resume\<close> are the code of
  the scheduler loop before and after it runs a process, \<open>yield_proc\<close>, \<open>sleep\<close> and \<open>wait_round\<close> the code a
  process runs before it switches back. \<open>kstep\<close> composes them into the steps of one hart; its invariant says that the
  bitmap and the states of the processes agree.
\<close>

definition scheduler_pick :: "kconf \<Rightarrow> kernel \<Rightarrow> (nat option \<times> kernel) option" where
  "scheduler_pick cf k = (
     let k = k\<lparr>k_sie := False\<rparr> in
     case find_runnable k of
       None \<Rightarrow> Some (None, k\<lparr>k_sie := True\<rparr>)
     | Some i \<Rightarrow> do {
         k \<leftarrow> lock_queue k;
         k \<leftarrow> lock_table k;
         (if pr_state (k_procs k i) = Runnable
          then let k = clear_runnable_bit i (upd_proc i (\<lambda>p. p\<lparr>pr_state := Running\<rparr>) k) in
            Some (Some i, (unlock_queue (unlock_table k))\<lparr>k_hart_proc := proc_ptr cf i\<rparr>)
          else Some (None, unlock_queue (unlock_table (clear_runnable_bit i k))))
       })"

definition scheduler_resume :: "nat \<Rightarrow> kernel \<Rightarrow> kernel option" where
  "scheduler_resume i k = do {
     k \<leftarrow> lock_queue (k\<lparr>k_hart_proc := 0\<rparr>);
     k \<leftarrow> lock_table k;
     let k = (if pr_state (k_procs k i) = Dying then upd_proc i (\<lambda>p. p\<lparr>pr_state := Zombie\<rparr>) k
              else if pr_state (k_procs k i) = Runnable then mark_runnable i k
              else k);
     Some (unlock_queue (unlock_table k))
   }"

definition sched :: "kconf \<Rightarrow> kernel \<Rightarrow> kernel option" where
  "sched cf k = do {
     i \<leftarrow> slot_of cf (k_hart_proc k);
     (if pr_state (k_procs k i) = Running then do {
        (r, k) \<leftarrow> find_proc_index cf (k_hart_proc k) (upd_proc i (\<lambda>p. p\<lparr>pr_state := Runnable\<rparr>) k);
        Some (case r of Some idx \<Rightarrow> mark_runnable idx k | None \<Rightarrow> k)
      }
      else Some k)
   }"

definition yield_proc :: "kconf \<Rightarrow> kernel \<Rightarrow> kernel option" where
  "yield_proc cf k = do {
     i \<leftarrow> slot_of cf (k_hart_proc k);
     (if pr_state (k_procs k i) = Running then do {
        (r, k) \<leftarrow> find_proc_index cf (k_hart_proc k) (upd_proc i (\<lambda>p. p\<lparr>pr_state := Runnable\<rparr>) k);
        Some (case r of Some idx \<Rightarrow> mark_runnable idx k | None \<Rightarrow> k)
      }
      else Some k)
   }"

text \<open>Both ways to sleep look for the index of the process while they hold the lock of the table.\<close>

definition sleep :: "kconf \<Rightarrow> usize \<Rightarrow> kernel \<Rightarrow> kernel option" where
  "sleep cf channel k = do {
     i \<leftarrow> slot_of cf (k_hart_proc k);
     k \<leftarrow> lock_table (k\<lparr>k_sie := False\<rparr>);
     let k = upd_proc i (\<lambda>p. p\<lparr>pr_state := Sleeping, pr_sleep_chan := channel\<rparr>) k;
     (r, k) \<leftarrow> find_proc_index cf (k_hart_proc k) k;
     Some (unlock_table (case r of Some idx \<Rightarrow> mark_not_runnable idx k | None \<Rightarrow> k))
   }"

datatype wait_outcome = Reaped usize int | NoKids | Blocked

definition wait_round :: "kconf \<Rightarrow> kernel \<Rightarrow> (wait_outcome \<times> kernel) option" where
  "wait_round cf k = do {
     cur \<leftarrow> slot_of cf (k_hart_proc k);
     let sie_enabled = k_sie k;
     k \<leftarrow> lock_table (k\<lparr>k_sie := False\<rparr>);
     let kids = filter (\<lambda>i. pr_parent (k_procs k i) = k_hart_proc k) [0..<NPROC];
     (case List.find (\<lambda>i. pr_state (k_procs k i) = Zombie) kids of
        Some i \<Rightarrow> do {
          let pid = pr_pid (k_procs k i);
          let code = pr_exit_code (k_procs k i);
          (p, w, s) \<leftarrow> Process_free cf (k_procs k i) (k_wh k) (k_pm k);
          s \<leftarrow> drop_frame (pr_tf_frame p) s;
          let k = upd_proc i (\<lambda>_. Process_new) (k\<lparr>k_wh := w, k_pm := s\<rparr>);
          Some (Reaped pid code, (unlock_table k)\<lparr>k_sie := sie_enabled\<rparr>)
        }
      | None \<Rightarrow>
          if kids = [] then Some (NoKids, (unlock_table k)\<lparr>k_sie := sie_enabled\<rparr>)
          else do {
            let k = upd_proc cur (\<lambda>p. p\<lparr>pr_state := Sleeping, pr_sleep_chan := k_hart_proc k\<rparr>) k;
            (r, k) \<leftarrow> find_proc_index cf (k_hart_proc k) k;
            Some (Blocked, unlock_table (case r of Some idx \<Rightarrow> mark_not_runnable idx k | None \<Rightarrow> k))
          })
   }"

section \<open>System calls\<close>

definition sys_getpid :: "kconf \<Rightarrow> kernel \<Rightarrow> usize option" where
  "sys_getpid cf k = do { i \<leftarrow> slot_of cf (k_hart_proc k); Some (pr_pid (k_procs k i)) }"

definition sys_exit :: "kconf \<Rightarrow> usize \<Rightarrow> kernel \<Rightarrow> kernel option" where
  "sys_exit cf a0 k = do {
     i \<leftarrow> slot_of cf (k_hart_proc k);
     k \<leftarrow> proc_exit cf i (upd_proc i (\<lambda>p. p\<lparr>pr_exit_code := as_i32 (as_u32 a0)\<rparr>) k);
     yield_proc cf k
   }"

definition sys_wait :: "kconf \<Rightarrow> usize \<Rightarrow> kernel \<Rightarrow> (usize option \<times> kernel) option" where
  "sys_wait cf addr k = do {
     self \<leftarrow> slot_of cf (k_hart_proc k);
     (r, k) \<leftarrow> wait_round cf k;
     (case r of
        Reaped pid code \<Rightarrow>
          if addr \<noteq> 0 then do {
            (_, m) \<leftarrow> copyout (mem (k_pm k)) (root_pt_pa (k_procs k self)) addr (le_bytes 4 (nat (code mod 2 ^ 32)));
            Some (Some pid, k\<lparr>k_pm := upd_mem (\<lambda>_. m) (k_pm k)\<rparr>)
          }
          else Some (Some pid, k)
      | NoKids \<Rightarrow> Some (Some usize_MAX, k)
      | Blocked \<Rightarrow> Some (None, k))
   }"

section \<open>Bits\<close>

lemma bit_one: "i < NPROC \<Longrightarrow> bit (push_bit i 1 :: 64 word) j \<longleftrightarrow> j = i"
  by (auto simp: bit_exp_iff possible_bit_def NPROC_def)

lemma bit_mark: "i < NPROC \<Longrightarrow> bit (k_bitmap (mark_runnable i k)) j \<longleftrightarrow> bit (k_bitmap k) j \<or> j = i"
  using bit_one [of i j] by (simp add: mark_runnable_def bit_or_iff del: push_bit_of_1)

lemma bit_word_bound: "bit (w :: 64 word) j \<Longrightarrow> j < NPROC"
  using bit_imp_le_length [of w j] by (simp add: NPROC_def)

lemma bit_clear:
  assumes "i < NPROC"
  shows "bit (k_bitmap (clear_runnable_bit i k)) j \<longleftrightarrow> bit (k_bitmap k) j \<and> j \<noteq> i"
    and "bit (k_bitmap (mark_not_runnable i k)) j \<longleftrightarrow> bit (k_bitmap k) j \<and> j \<noteq> i"
  using bit_one [OF assms, of j] assms bit_word_bound [of "k_bitmap k" j]
  by (auto simp: clear_runnable_bit_def mark_not_runnable_def bit_and_iff bit_not_iff NPROC_def simp del: push_bit_of_1)

text \<open>The first runnable process is the set bit with the lowest number.\<close>

lemma find_runnable_Some: "find_runnable k = Some i \<longleftrightarrow> bit (k_bitmap k) i \<and> (\<forall>j < i. \<not> bit (k_bitmap k) j)"
proof (cases "k_bitmap k = 0")
  case False
  then obtain j where j: "bit (k_bitmap k) j" by (auto simp: bit_eq_iff [of _ "0 :: 64 word"])
  then have "j < 64" using bit_word_bound [OF j] by (simp add: NPROC_def)
  then obtain m where m: "List.find (\<lambda>i. bit (k_bitmap k) i) [0..<64] = Some m"
    using j find_upt_None [of "\<lambda>i. bit (k_bitmap k) i" 64] by (cases "List.find (\<lambda>i. bit (k_bitmap k) i) [0..<64]") auto
  have p: "m < 64" "bit (k_bitmap k) m" "\<forall>j < m. \<not> bit (k_bitmap k) j" using m unfolding find_Some_iff by auto
  then have f: "find_runnable k = Some m" using m False by (simp add: find_runnable_def trailing_zeros_def NPROC_def Let_def)
  show ?thesis
  proof
    assume "find_runnable k = Some i"
    then show "bit (k_bitmap k) i \<and> (\<forall>j < i. \<not> bit (k_bitmap k) j)" using f p by simp
  next
    assume i: "bit (k_bitmap k) i \<and> (\<forall>j < i. \<not> bit (k_bitmap k) j)"
    then have "i = m" using p(2,3) by (meson linorder_neqE_nat)
    then show "find_runnable k = Some i" using f by simp
  qed
qed (simp add: find_runnable_def)


section \<open>Steps of a hart\<close>

inductive kstep :: "kconf \<Rightarrow> kernel \<Rightarrow> kernel \<Rightarrow> bool" for cf where
  step_pick: "k_hart_proc k = 0 \<Longrightarrow> scheduler_pick cf k = Some (r, k') \<Longrightarrow> kstep cf k k'"
| step_yield: "slot_of cf (k_hart_proc k) = Some i \<Longrightarrow> yield_proc cf k = Some k1 \<Longrightarrow> scheduler_resume i k1 = Some k' \<Longrightarrow> kstep cf k k'"
| step_sched: "slot_of cf (k_hart_proc k) = Some i \<Longrightarrow> sched cf k = Some k1 \<Longrightarrow> scheduler_resume i k1 = Some k' \<Longrightarrow> kstep cf k k'"
| step_exit: "slot_of cf (k_hart_proc k) = Some i \<Longrightarrow> sys_exit cf code k = Some k1 \<Longrightarrow> scheduler_resume i k1 = Some k' \<Longrightarrow> kstep cf k k'"
| step_sleep: "slot_of cf (k_hart_proc k) = Some i \<Longrightarrow> sleep cf ch k = Some k1 \<Longrightarrow> scheduler_resume i k1 = Some k' \<Longrightarrow> kstep cf k k'"
| step_wait: "sys_wait cf addr k = Some (Some r, k') \<Longrightarrow> kstep cf k k'"
| step_block: "slot_of cf (k_hart_proc k) = Some i \<Longrightarrow> wait_round cf k = Some (Blocked, k1) \<Longrightarrow> scheduler_resume i k1 = Some k' \<Longrightarrow> kstep cf k k'"
| step_wakeup: "wakeup ch k = Some k' \<Longrightarrow> kstep cf k k'"
| step_create: "proc_create cf payload k = Some (i, k') \<Longrightarrow> kstep cf k k'"
| step_fork: "sys_fork cf k = Some (pid, k') \<Longrightarrow> kstep cf k k'"
| step_exec: "sys_exec cf u_path u_argv k = Some (r, k') \<Longrightarrow> kstep cf k k'"

inductive_cases kstepE: "kstep cf k k'"

definition conf_ok :: "kconf \<Rightarrow> bool" where
  "conf_ok cf \<longleftrightarrow> 0 < cf_table cf \<and> 0 < cf_proc_size cf"

abbreviation pst :: "kernel \<Rightarrow> nat \<Rightarrow> ProcState" where
  "pst k i \<equiv> pr_state (k_procs k i)"

text \<open>The bitmap and the states agree.\<close>

definition bits_ok :: "kernel \<Rightarrow> bool" where
  "bits_ok k \<longleftrightarrow> (\<forall>i < NPROC. bit (k_bitmap k) i \<longleftrightarrow> pst k i = Runnable)"

definition unlocked :: "kernel \<Rightarrow> bool" where
  "unlocked k \<longleftrightarrow> \<not> k_table_lock k \<and> \<not> k_queue_lock k"

definition sched_inv :: "kconf \<Rightarrow> kernel \<Rightarrow> bool" where
  "sched_inv cf k \<longleftrightarrow> unlocked k \<and> bits_ok k \<and> (\<forall>i < NPROC. pst k i \<noteq> Dying) \<and> (\<forall>i < NPROC. pst k i = Running \<longleftrightarrow> k_hart_proc k = proc_ptr cf i)"

lemma sched_invD:
  assumes "sched_inv cf k"
  shows "unlocked k" "bits_ok k" "\<And>i. i < NPROC \<Longrightarrow> pst k i \<noteq> Dying" "\<And>i. i < NPROC \<Longrightarrow> pst k i = Running \<longleftrightarrow> k_hart_proc k = proc_ptr cf i"
  using assms by (auto simp: sched_inv_def)

lemma slot_of_ptr: "conf_ok cf \<Longrightarrow> slot_of cf p = Some i \<longleftrightarrow> i < NPROC \<and> p = proc_ptr cf i"
  by (auto simp: slot_of_def proc_ptr_def conf_ok_def Let_def split: if_splits)

lemma ptr_inj: "conf_ok cf \<Longrightarrow> proc_ptr cf i = proc_ptr cf j \<longleftrightarrow> i = j"
  by (auto simp: proc_ptr_def conf_ok_def)

lemma ptr_pos: "conf_ok cf \<Longrightarrow> proc_ptr cf i \<noteq> 0"
  by (simp add: proc_ptr_def conf_ok_def)

lemma upd_proc_simps [simp]:
  "k_procs (upd_proc i f k) = (k_procs k)(i := f (k_procs k i))" "k_bitmap (upd_proc i f k) = k_bitmap k" "k_hart_proc (upd_proc i f k) = k_hart_proc k"
  "k_table_lock (upd_proc i f k) = k_table_lock k" "k_queue_lock (upd_proc i f k) = k_queue_lock k"
  by (simp_all add: upd_proc_def)

lemma bitmap_ops_simps [simp]:
  "k_procs (mark_runnable i k) = k_procs k" "k_hart_proc (mark_runnable i k) = k_hart_proc k" "k_table_lock (mark_runnable i k) = k_table_lock k"
  "k_queue_lock (mark_runnable i k) = k_queue_lock k"
  "k_procs (mark_not_runnable i k) = k_procs k" "k_hart_proc (mark_not_runnable i k) = k_hart_proc k" "k_table_lock (mark_not_runnable i k) = k_table_lock k"
  "k_queue_lock (mark_not_runnable i k) = k_queue_lock k"
  "k_procs (clear_runnable_bit i k) = k_procs k" "k_hart_proc (clear_runnable_bit i k) = k_hart_proc k" "k_table_lock (clear_runnable_bit i k) = k_table_lock k"
  "k_queue_lock (clear_runnable_bit i k) = k_queue_lock k"
  by (simp_all add: mark_runnable_def mark_not_runnable_def clear_runnable_bit_def)

lemmas lock_simps = lock_table_def lock_queue_def unlock_table_def unlock_queue_def unlocked_def

text \<open>Changing the state of one process together with its bit.\<close>

lemma bits_ok_set:
  assumes "bits_ok k" "i < NPROC" "\<And>j. pst k' j = (if j = i then st else pst k j)"
    and "\<And>j. bit (k_bitmap k') j \<longleftrightarrow> (if j = i then st = Runnable else bit (k_bitmap k) j)"
  shows "bits_ok k'"
  using assms by (simp add: bits_ok_def)

lemma find_runnable_sie [simp]: "find_runnable (k\<lparr>k_sie := b\<rparr>) = find_runnable k"
  by (simp add: find_runnable_def)

lemma pick_inv:
  assumes inv: "sched_inv cf k" and cf: "conf_ok cf" and idle: "k_hart_proc k = 0" and p: "scheduler_pick cf k = Some (r, k')"
  shows "sched_inv cf k'"
proof (cases "find_runnable k")
  case None
  then have "k' = k\<lparr>k_sie := True\<rparr>" using p by (simp add: scheduler_pick_def)
  then show ?thesis using inv by (simp add: sched_inv_def unlocked_def bits_ok_def)
next
  case (Some i)
  note d = sched_invD [OF inv]
  have b: "bit (k_bitmap k) i" using Some by (simp add: find_runnable_Some)
  have i: "i < NPROC" using bit_word_bound [OF b] .
  have st: "pst k i = Runnable" using d(2) b i by (simp add: bits_ok_def)
  have k': "k_procs k' = (k_procs k)(i := (k_procs k i)\<lparr>pr_state := Running\<rparr>)" "k_hart_proc k' = proc_ptr cf i" "unlocked k'"
    "k_bitmap k' = k_bitmap (clear_runnable_bit i k)"
    using p Some st d(1) by (auto simp: scheduler_pick_def lock_simps Let_def clear_runnable_bit_def)
  have "bits_ok k'" by (rule bits_ok_set [OF d(2) i, of k' Running]) (simp_all add: k' bit_clear [OF i])
  then show ?thesis using k' d(3,4) idle ptr_inj [OF cf] ptr_pos [OF cf] by (auto simp: sched_inv_def)
qed

text \<open>Back in the scheduler, the process that ran is runnable again or has become a zombie.\<close>

lemma resume_inv:
  assumes cf: "conf_ok cf" and i: "i < NPROC" and u: "unlocked k1" and b: "bits_ok k1" and s: "pst k1 i \<in> {Runnable, Dying, Sleeping}"
    and o: "\<And>j. j < NPROC \<Longrightarrow> j \<noteq> i \<Longrightarrow> pst k1 j \<noteq> Dying \<and> pst k1 j \<noteq> Running" and r: "scheduler_resume i k1 = Some k'"
  shows "sched_inv cf k'"
proof -
  let ?st = "if pst k1 i = Dying then Zombie else pst k1 i"
  have k': "unlocked k'" "k_hart_proc k' = 0" "\<And>j. pst k' j = (if j = i then ?st else pst k1 j)"
    "k_bitmap k' = (if pst k1 i = Runnable then k_bitmap (mark_runnable i k1) else k_bitmap k1)"
    using r u by (auto simp: scheduler_resume_def lock_simps Let_def mark_runnable_def split: if_splits)
  have "bit (k_bitmap k') j \<longleftrightarrow> (if j = i then ?st = Runnable else bit (k_bitmap k1) j)" for j
    using b i by (auto simp: k'(4) bit_mark [OF i] bits_ok_def)
  then have "bits_ok k'" using bits_ok_set [OF b i k'(3)] by blast
  then show ?thesis using k' s o by (auto simp: sched_inv_def ptr_pos [OF cf] split: if_splits)
qed


lemma find_proc_index_eq:
  assumes "conf_ok cf" "i < NPROC" "\<not> k_table_lock k"
  shows "find_proc_index cf (proc_ptr cf i) k = Some (Some i, k)"
  using assms by (cases k) (auto simp: find_proc_index_def lock_simps proc_ptr_def conf_ok_def Let_def)

lemma find_proc_index_locked: "k_table_lock k \<Longrightarrow> find_proc_index cf p k = None"
  by (simp add: find_proc_index_def lock_table_def)

text \<open>Giving up the processor.\<close>

lemma yield_eq:
  assumes "conf_ok cf" "i < NPROC" "k_hart_proc k = proc_ptr cf i" "\<not> k_table_lock k"
  shows "yield_proc cf k = Some (if pst k i = Running then mark_runnable i (upd_proc i (\<lambda>p. p\<lparr>pr_state := Runnable\<rparr>) k) else k)"
    and "sched cf k = yield_proc cf k"
proof -
  have s: "slot_of cf (proc_ptr cf i) = Some i" using slot_of_ptr [OF assms(1)] assms(2) by blast
  show "yield_proc cf k = Some (if pst k i = Running then mark_runnable i (upd_proc i (\<lambda>p. p\<lparr>pr_state := Runnable\<rparr>) k) else k)"
    using assms(3,4) s find_proc_index_eq [OF assms(1,2), of "upd_proc i (\<lambda>p. p\<lparr>pr_state := Runnable\<rparr>) k"] by (simp add: yield_proc_def)
  show "sched cf k = yield_proc cf k" by (simp add: sched_def yield_proc_def)
qed

lemma yield_inv:
  assumes inv: "sched_inv cf k" and cf: "conf_ok cf" and i: "slot_of cf (k_hart_proc k) = Some i"
    and y: "yield_proc cf k = Some k1" and r: "scheduler_resume i k1 = Some k'"
  shows "sched_inv cf k'"
proof -
  note d = sched_invD [OF inv]
  have p: "i < NPROC" "k_hart_proc k = proc_ptr cf i" using i slot_of_ptr [OF cf] by auto
  then have run: "pst k i = Running" using d(4) by blast
  have k1: "k1 = mark_runnable i (upd_proc i (\<lambda>p. p\<lparr>pr_state := Runnable\<rparr>) k)" using y yield_eq(1) [OF cf p] d(1) run by (simp add: unlocked_def)
  have "bits_ok k1" by (rule bits_ok_set [OF d(2) p(1), of k1 Runnable]) (simp_all add: k1 bit_mark [OF p(1)])
  then show ?thesis
    by (rule resume_inv [OF cf p(1) _ _ _ _ r, rotated]) (use d p ptr_inj [OF cf] in \<open>auto simp: k1 unlocked_def\<close>)
qed

text \<open>Waking up turns sleepers into runnable processes and sets their bits.\<close>

lemma wakeup_loop_inv:
  assumes "set is \<subseteq> {..<NPROC}" "bits_ok k" "k' = wakeup_loop ch is k"
  shows "bits_ok k' \<and> k_table_lock k' = k_table_lock k \<and> k_queue_lock k' = k_queue_lock k \<and> k_hart_proc k' = k_hart_proc k \<and>
    (\<forall>j. pst k' j = pst k j \<or> pst k j = Sleeping \<and> pst k' j = Runnable) \<and>
    (\<forall>j \<in> set is. pst k j = Sleeping \<and> pr_sleep_chan (k_procs k j) = ch \<longrightarrow> pst k' j = Runnable)"
  using assms
proof (induction "is" arbitrary: k)
  case (Cons i "is")
  let ?k1 = "if pst k i = Sleeping \<and> pr_sleep_chan (k_procs k i) = ch then mark_runnable i (upd_proc i (\<lambda>p. p\<lparr>pr_state := Runnable, pr_sleep_chan := 0\<rparr>) k) else k"
  have i: "i < NPROC" using Cons.prems(1) by simp
  have b1: "bits_ok ?k1"
  proof (cases "pst k i = Sleeping \<and> pr_sleep_chan (k_procs k i) = ch")
    case True
    then show ?thesis by (intro bits_ok_set [OF Cons.prems(2) i, of _ Runnable]) (simp_all add: bit_mark [OF i])
  qed (use Cons.prems(2) in auto)
  have ih: "bits_ok k'" "k_table_lock k' = k_table_lock ?k1" "k_queue_lock k' = k_queue_lock ?k1" "k_hart_proc k' = k_hart_proc ?k1"
    "\<forall>j. pst k' j = pst ?k1 j \<or> pst ?k1 j = Sleeping \<and> pst k' j = Runnable"
    "\<forall>j \<in> set is. pst ?k1 j = Sleeping \<and> pr_sleep_chan (k_procs ?k1 j) = ch \<longrightarrow> pst k' j = Runnable"
    using Cons.IH [OF _ b1] Cons.prems by (simp_all del: fun_upd_apply)
  have "pst k' j = pst k j \<or> pst k j = Sleeping \<and> pst k' j = Runnable" for j
    using ih(5) [THEN spec, of j] by (auto split: if_splits)
  moreover have "pst k' j = Runnable" if "j \<in> set (i # is)" "pst k j = Sleeping" "pr_sleep_chan (k_procs k j) = ch" for j
    using that ih(5) [THEN spec, of j] ih(6) by (cases "j = i") (auto split: if_splits)
  ultimately show ?case using ih(1-4) by auto
qed simp

lemma wakeup_inv:
  assumes b: "bits_ok k" and w: "wakeup ch k = Some k'"
  shows "bits_ok k' \<and> (unlocked k' \<longleftrightarrow> unlocked k) \<and> k_hart_proc k' = k_hart_proc k \<and>
    (\<forall>j. pst k' j = pst k j \<or> pst k j = Sleeping \<and> pst k' j = Runnable)"
proof -
  let ?k1 = "k\<lparr>k_sie := False, k_queue_lock := True, k_table_lock := True\<rparr>"
  have k1: "bits_ok ?k1" "unlocked k"
    "k' = unlock_queue (unlock_table (if k_sie k then (wakeup_loop ch [0..<NPROC] ?k1)\<lparr>k_sie := True\<rparr> else wakeup_loop ch [0..<NPROC] ?k1))"
    using w b by (auto simp: wakeup_def lock_simps bits_ok_def unlocked_def Let_def split: if_splits)
  have "set [0..<NPROC] \<subseteq> {..<NPROC}" by auto
  from wakeup_loop_inv [OF this k1(1) refl] k1 show ?thesis by (auto simp: lock_simps bits_ok_def unlocked_def)
qed

lemma sched_inv_wake:
  assumes inv: "sched_inv cf k" and b: "bits_ok k'" "unlocked k'" "k_hart_proc k' = k_hart_proc k"
    and s: "\<forall>j. pst k' j = pst k j \<or> pst k j = Sleeping \<and> pst k' j = Runnable"
  shows "sched_inv cf k'"
proof -
  have "pst k' j = Running \<longleftrightarrow> pst k j = Running" "pst k' j = Dying \<longleftrightarrow> pst k j = Dying" for j
    using s [THEN spec, of j] by auto
  then show ?thesis using inv b by (simp add: sched_inv_def)
qed

section \<open>Exit\<close>

lemma close_all_frame:
  "close_all i fds k = Some k' \<Longrightarrow> k_bitmap k' = k_bitmap k \<and> k_table_lock k' = k_table_lock k \<and> k_queue_lock k' = k_queue_lock k \<and>
    k_hart_proc k' = k_hart_proc k \<and> (\<forall>j. pst k' j = pst k j)"
proof (induction fds arbitrary: k)
  case (Cons fd fds)
  then obtain k1 where k1: "(case open_files (k_procs k i) ! fd of None \<Rightarrow> Some k
      | Some f_idx \<Rightarrow> do { (t, st) \<leftarrow> file_close f_idx (k_files k) (k_ifs k);
          Some (upd_proc i (\<lambda>p. p\<lparr>open_files := (open_files p)[fd := None]\<rparr>) (k\<lparr>k_files := t, k_ifs := st\<rparr>)) }) = Some k1" "close_all i fds k1 = Some k'"
    by (auto simp: panic_simps)
  have "k_bitmap k1 = k_bitmap k \<and> k_table_lock k1 = k_table_lock k \<and> k_queue_lock k1 = k_queue_lock k \<and> k_hart_proc k1 = k_hart_proc k \<and> (\<forall>j. pst k1 j = pst k j)"
    using k1(1) by (auto simp: panic_simps split: option.splits)
  then show ?case using Cons.IH [OF k1(2)] by simp
qed simp


lemma adopt_simps [simp]:
  "k_bitmap (adopt cf p k) = k_bitmap k" "k_table_lock (adopt cf p k) = k_table_lock k" "k_queue_lock (adopt cf p k) = k_queue_lock k"
  "k_hart_proc (adopt cf p k) = k_hart_proc k" "pst (adopt cf p k) j = pst k j"
  by (simp_all add: adopt_def)

text \<open>The process that exits is dying, its bit is clear, and nobody else but sleepers woken for it changes state.\<close>

lemma proc_exit_spec:
  assumes b: "bits_ok k" and u: "unlocked k" and i: "i < NPROC" and run: "pst k i = Running" and e: "proc_exit cf i k = Some k'"
  shows "bits_ok k' \<and> unlocked k' \<and> k_hart_proc k' = k_hart_proc k \<and> pst k' i = Dying \<and>
    (\<forall>j. j \<noteq> i \<longrightarrow> pst k' j = pst k j \<or> pst k j = Sleeping \<and> pst k' j = Runnable)"
proof -
  let ?k0 = "k\<lparr>k_sie := False\<rparr>"
  let ?d = "\<lambda>k1. upd_proc i (\<lambda>p. p\<lparr>pr_state := Dying\<rparr>) (unlock_table (mark_not_runnable i (adopt cf (proc_ptr cf i) (k1\<lparr>k_table_lock := True\<rparr>))))"
  obtain k1 k2 where k1: "(if pr_parent (k_procs k i) \<noteq> 0 then wakeup (pr_parent (k_procs k i)) ?k0 else Some ?k0) = Some k1"
    and k2: "close_all i [0..<NOFILE] (?d k1) = Some k2" and k': "k' = (if k_sie k then k2\<lparr>k_sie := True\<rparr> else k2)"
    using e by (auto simp: proc_exit_def lock_table_def Let_def panic_simps split: if_splits)
  have b0: "bits_ok ?k0" "unlocked ?k0" using b u by (simp_all add: bits_ok_def unlocked_def)
  have w: "bits_ok k1 \<and> unlocked k1 \<and> k_hart_proc k1 = k_hart_proc k \<and> (\<forall>j. pst k1 j = pst k j \<or> pst k j = Sleeping \<and> pst k1 j = Runnable)"
  proof (cases "pr_parent (k_procs k i) = 0")
    case False
    then show ?thesis using k1 wakeup_inv [OF b0(1)] b0(2) by auto
  qed (use k1 b0 in auto)
  have "bits_ok (?d k1)"
    by (rule bits_ok_set [OF _ i, of k1 _ Dying]) (use w in \<open>simp_all add: bit_clear(2) [OF i] unlock_table_def\<close>)
  moreover note close_all_frame [OF k2]
  ultimately show ?thesis using w by (auto simp: k' bits_ok_def unlocked_def unlock_table_def split: if_splits)
qed


lemma exit_inv:
  assumes inv: "sched_inv cf k" and cf: "conf_ok cf" and i: "slot_of cf (k_hart_proc k) = Some i"
    and e: "sys_exit cf code k = Some k1" and r: "scheduler_resume i k1 = Some k'"
  shows "sched_inv cf k'"
proof -
  note d = sched_invD [OF inv]
  let ?k0 = "upd_proc i (\<lambda>p. p\<lparr>pr_exit_code := as_i32 (as_u32 code)\<rparr>) k"
  have p: "i < NPROC" "k_hart_proc k = proc_ptr cf i" using i slot_of_ptr [OF cf] by auto
  then have run: "pst k i = Running" using d(4) by blast
  have st: "pst ?k0 j = pst k j" for j by simp
  obtain k2 where k2: "proc_exit cf i ?k0 = Some k2" "yield_proc cf k2 = Some k1" using e i by (auto simp: sys_exit_def panic_simps)
  have "bits_ok ?k0" "unlocked ?k0" "pst ?k0 i = Running" using d(1,2) run by (simp_all add: bits_ok_def unlocked_def)
  from proc_exit_spec [OF this(1,2) p(1) this(3) k2(1)]
  have s: "bits_ok k2" "unlocked k2" "k_hart_proc k2 = proc_ptr cf i" "pst k2 i = Dying"
    "\<And>j. j \<noteq> i \<Longrightarrow> pst k2 j = pst k j \<or> pst k j = Sleeping \<and> pst k2 j = Runnable"
    using p by (auto simp: st)
  have "k1 = k2" using k2(2) yield_eq(1) [OF cf p(1) s(3)] s(2,4) by (simp add: unlocked_def)
  moreover have "pst k2 j \<noteq> Dying \<and> pst k2 j \<noteq> Running" if "j < NPROC" "j \<noteq> i" for j
    using s(5) [OF that(2)] d(3,4) [OF that(1)] p ptr_inj [OF cf] that(2) by auto
  ultimately show ?thesis using resume_inv [OF cf p(1) s(2,1) _ _ r [unfolded \<open>k1 = k2\<close>]] s(4) by blast
qed

section \<open>Wait and creation\<close>

text \<open>The search for its own index is made under the lock it takes: neither way to sleep returns.\<close>

lemma sleep_stuck: "sleep cf ch k = None"
  by (cases "slot_of cf (k_hart_proc k)") (auto simp: sleep_def lock_table_def find_proc_index_locked)

abbreviation kids :: "kernel \<Rightarrow> nat list" where
  "kids k \<equiv> filter (\<lambda>i. pr_parent (k_procs k i) = k_hart_proc k) [0..<NPROC]"

lemma wait_round_eq:
  assumes "slot_of cf (k_hart_proc k) = Some cur" "\<not> k_table_lock k"
  shows "wait_round cf k =
    (case List.find (\<lambda>i. pst k i = Zombie) (kids k) of
       Some i \<Rightarrow> do {
         (p, w, s) \<leftarrow> Process_free cf (k_procs k i) (k_wh k) (k_pm k);
         s \<leftarrow> drop_frame (pr_tf_frame p) s;
         Some (Reaped (pr_pid (k_procs k i)) (pr_exit_code (k_procs k i)), upd_proc i (\<lambda>_. Process_new) (k\<lparr>k_wh := w, k_pm := s\<rparr>)) }
     | None \<Rightarrow> if kids k = [] then Some (NoKids, k) else None)"
proof (cases "List.find (\<lambda>i. pst k i = Zombie) (kids k)")
  case None
  then show ?thesis using assms by (cases k) (simp add: wait_round_def lock_simps find_proc_index_locked)
next
  case (Some i)
  have "(unlock_table (upd_proc i f (k\<lparr>k_sie := False, k_table_lock := True, k_wh := w, k_pm := s\<rparr>)))\<lparr>k_sie := k_sie k\<rparr> = upd_proc i f (k\<lparr>k_wh := w, k_pm := s\<rparr>)" for f w s
    using assms(2) by (cases k) (simp add: unlock_table_def upd_proc_def)
  then show ?thesis using Some assms by (simp add: wait_round_def lock_table_def)
qed

lemma wait_round_slot: "wait_round cf k = Some r \<Longrightarrow> \<exists>cur. slot_of cf (k_hart_proc k) = Some cur \<and> \<not> k_table_lock k"
  by (cases "slot_of cf (k_hart_proc k)") (auto simp: wait_round_def lock_table_def split: if_splits)

lemma wait_round_result:
  assumes w: "wait_round cf k = Some (r, k')"
  shows "k' = k \<and> r = NoKids \<or> (\<exists>i wh s pid code. i < NPROC \<and> pst k i = Zombie \<and> r = Reaped pid code \<and> k' = upd_proc i (\<lambda>_. Process_new) (k\<lparr>k_wh := wh, k_pm := s\<rparr>))"
proof (cases "List.find (\<lambda>i. pst k i = Zombie) (kids k)")
  case None
  then show ?thesis using wait_round_slot [OF w] w by (auto simp: wait_round_eq split: if_splits)
next
  case (Some i)
  then have "i \<in> set (kids k)" "pst k i = Zombie" unfolding find_Some_iff by (metis nth_mem, blast)
  moreover obtain wh s where "k' = upd_proc i (\<lambda>_. Process_new) (k\<lparr>k_wh := wh, k_pm := s\<rparr>)" "r = Reaped (pr_pid (k_procs k i)) (pr_exit_code (k_procs k i))"
    using wait_round_slot [OF w] w Some by (auto simp: wait_round_eq bind_eq_Some_conv)
  ultimately show ?thesis by auto
qed

lemma wait_round_blocks: "wait_round cf k \<noteq> Some (Blocked, k')"
  using wait_round_result [of cf k Blocked k'] by auto

lemma wait_inv:
  assumes inv: "sched_inv cf k" and w: "wait_round cf k = Some (r, k')"
  shows "sched_inv cf k'"
  using wait_round_result [OF w]
proof (elim disjE exE conjE)
  fix i wh s
  assume i: "i < NPROC" "pst k i = Zombie" "k' = upd_proc i (\<lambda>_. Process_new) (k\<lparr>k_wh := wh, k_pm := s\<rparr>)"
  then have "pst k' j = (if j = i then Unused else pst k j)" for j by (simp add: Process_new_def)
  then show ?thesis using i sched_invD [OF inv] sched_invD(4) [OF inv i(1)] by (auto simp: sched_inv_def bits_ok_def unlocked_def)
qed (use inv in simp)

lemma alloc_inv:
  assumes inv: "sched_inv cf k" and a: "proc_alloc cf k = Some (r, k')"
  shows "sched_inv cf k'"
proof (cases r)
  case None
  then have "unlocked k' \<and> k_procs k' = k_procs k \<and> k_bitmap k' = k_bitmap k \<and> k_hart_proc k' = k_hart_proc k"
    using a sched_invD(1) [OF inv] by (auto simp: proc_alloc_def lock_simps Let_def split: option.splits if_splits)
  then show ?thesis using inv by (simp add: sched_inv_def bits_ok_def)
next
  case (Some i)
  note d = sched_invD [OF inv]
  have "List.find (\<lambda>i. pst k i = Unused) [0..<NPROC] = Some i"
    using a Some d(1) by (auto simp: proc_alloc_def lock_simps Let_def split: option.splits if_splits)
  then have i: "i < NPROC" "pst k i = Unused" by (auto simp: find_Some_iff)
  have k': "unlocked k'" "\<And>j. pst k' j = (if j = i then Runnable else pst k j)" "k_bitmap k' = k_bitmap (mark_runnable i k)" "k_hart_proc k' = k_hart_proc k"
    using a Some d(1) by (auto simp: proc_alloc_def lock_simps Let_def mark_runnable_def split: option.splits if_splits)
  have "bits_ok k'" by (rule bits_ok_set [OF d(2) i(1) k'(2)]) (simp add: k'(3) bit_mark [OF i(1)])
  then show ?thesis using k' d(3,4) d(4) [OF i(1)] i by (auto simp: sched_inv_def)
qed

text \<open>What the rest of \<open>create\<close> and \<open>fork\<close> does to the new process keeps it runnable.\<close>

definition same_sched :: "kernel \<Rightarrow> kernel \<Rightarrow> bool" where
  "same_sched k k' \<longleftrightarrow> k_bitmap k' = k_bitmap k \<and> k_table_lock k' = k_table_lock k \<and> k_queue_lock k' = k_queue_lock k \<and>
     k_hart_proc k' = k_hart_proc k \<and> (\<forall>j. pst k' j = pst k j)"

lemma same_sched_trans: "same_sched k k1 \<Longrightarrow> same_sched k1 k2 \<Longrightarrow> same_sched k k2"
  by (simp add: same_sched_def)

lemma same_sched_inv: "same_sched k k' \<Longrightarrow> sched_inv cf k \<Longrightarrow> sched_inv cf k'"
  by (simp add: same_sched_def sched_inv_def bits_ok_def unlocked_def)

lemma alloc_runnable: "proc_alloc cf k = Some (Some i, k') \<Longrightarrow> pst k' i = Runnable"
  by (auto simp: proc_alloc_def lock_simps Let_def split: option.splits if_splits)

lemma create_inv:
  assumes inv: "sched_inv cf k" and c: "proc_create cf payload k = Some (i, k')"
  shows "sched_inv cf k'"
proof -
  obtain r k1 where k1: "proc_alloc cf k = Some (r, k1)" using c by (auto simp: proc_create_def panic_simps)
  have r: "r = Some i" using c by (auto simp: k1 proc_create_def Let_def panic_simps split: option.splits)
  have "same_sched k1 k'"
    using c alloc_runnable [OF k1 [unfolded r]] unfolding proc_create_def k1 r by (auto simp: Let_def panic_simps set_user_satp_def same_sched_def)
  then show ?thesis using alloc_inv [OF inv k1] by (rule same_sched_inv)
qed

lemma fork_inv:
  assumes inv: "sched_inv cf k" and f: "proc_fork cf self k = Some (i, k')"
  shows "sched_inv cf k'"
proof -
  obtain r k1 where k1: "proc_alloc cf k = Some (r, k1)" using f by (auto simp: proc_fork_def panic_simps)
  then obtain j where r: "r = Some j" using f by (cases r) (auto simp: proc_fork_def)
  obtain root s where s: "pt_copy (root_pt_pa (k_procs k1 self)) (k_pm k1) = Some (Inr root, s)"
    using f by (auto simp: proc_fork_def k1 r Let_def panic_simps split: sum.splits) (metis option.distinct(1) sum.exhaust sum.simps(5))
  have "same_sched k1 k'"
    using f alloc_runnable [OF k1 [unfolded r]] unfolding proc_fork_def k1 r by (auto simp: s Let_def panic_simps same_sched_def)
  then show ?thesis using alloc_inv [OF inv k1] by (rule same_sched_inv)
qed

lemma sys_fork_inv: "sys_fork cf k = Some (pid, k') \<Longrightarrow> sched_inv cf k \<Longrightarrow> sched_inv cf k'"
  using fork_inv by (auto simp: sys_fork_def panic_simps)

lemma sys_wait_inv:
  assumes "sched_inv cf k" "sys_wait cf addr k = Some (r, k')"
  shows "sched_inv cf k'"
proof -
  obtain out k1 where k1: "wait_round cf k = Some (out, k1)" using assms(2) by (auto simp: sys_wait_def panic_simps)
  have "same_sched k1 k'" using assms(2) by (cases out) (auto simp: sys_wait_def k1 same_sched_def panic_simps split: if_splits)
  then show ?thesis using wait_inv [OF assms(1) k1] by (rule same_sched_inv)
qed

section \<open>Replacing an image leaves the scheduler alone\<close>

lemma same_sched_refl: "same_sched k k"
  by (simp add: same_sched_def)

lemma same_sched_upd:
  assumes "pr_state (f (k_procs k i)) = pst k i"
  shows "same_sched k (upd_proc i f k)"
  using assms by (simp add: same_sched_def)

lemma same_sched_mem: "same_sched k (k\<lparr>k_pm := s\<rparr>)" "same_sched k (k\<lparr>k_ifs := st\<rparr>)"
  by (simp_all add: same_sched_def)

lemma on_fproc_same: "on_fproc i f k = Some (r, k') \<Longrightarrow> same_sched k k'"
  by (auto simp: on_fproc_def same_sched_def put_kfs_def panic_simps)

lemma exec_fail_same: "exec_fail root tf k = Some (r, k') \<Longrightarrow> same_sched k k'"
  by (auto simp: exec_fail_def same_sched_def panic_simps)

lemma exec_commit_same: "exec_commit cf self root tf hdr max_va sp argc k = Some (r, k') \<Longrightarrow> same_sched k k'"
  by (auto simp: exec_commit_def same_sched_def set_user_satp_def Let_def panic_simps)

lemma same_sched_kernel_upd: "same_sched (k\<lparr>k_pm := s\<rparr>) k' \<longleftrightarrow> same_sched k k'" "same_sched (k\<lparr>k_ifs := st\<rparr>) k' \<longleftrightarrow> same_sched k k'"
  by (simp_all add: same_sched_def)

lemma bind_SomeE: "Option.bind e f = Some y \<Longrightarrow> (\<And>x. e = Some x \<Longrightarrow> f x = Some y \<Longrightarrow> R) \<Longrightarrow> R"
  by (cases e) auto

lemma exec_image_same: "exec_image cf self ip fd hdr u_argv k = Some (r, k') \<Longrightarrow> same_sched k k'"
  unfolding exec_image_def Let_def
  by (auto elim!: bind_SomeE simp: same_sched_mem same_sched_kernel_upd split: option.split_asm
      dest!: exec_fail_same exec_commit_same on_fproc_same) (erule same_sched_trans, assumption)+

lemma proc_exec_same: "proc_exec cf self path u_argv k = Some (r, k') \<Longrightarrow> same_sched k k'"
  unfolding proc_exec_def
  by (auto elim!: bind_SomeE simp: same_sched_kernel_upd split: option.split_asm if_split_asm
      dest!: on_fproc_same exec_image_same) (erule same_sched_trans, assumption | erule same_sched_trans, erule same_sched_trans, assumption)+

lemma sys_exec_same: "sys_exec cf u_path u_argv k = Some (r, k') \<Longrightarrow> same_sched k k'"
  by (auto elim!: bind_SomeE simp: sys_exec_def Let_def same_sched_refl split: option.split_asm dest!: proc_exec_same)

section \<open>Reachable states\<close>

lemma kstep_inv:
  assumes "kstep cf k k'" "conf_ok cf" "sched_inv cf k"
  shows "sched_inv cf k'"
  using assms(1)
proof cases
  case (step_wakeup ch)
  then show ?thesis using wakeup_inv [OF sched_invD(2) [OF assms(3)]] sched_inv_wake [OF assms(3)] sched_invD(1) [OF assms(3)] by blast
next
  case (step_sched i k1)
  then have "yield_proc cf k = Some k1" using yield_eq(2) by (simp add: sched_def yield_proc_def)
  then show ?thesis using step_sched yield_inv [OF assms(3,2)] by blast
next
  case (step_pick r)
  then show ?thesis using pick_inv [OF assms(3,2)] by blast
next
  case (step_yield i k1)
  then show ?thesis using yield_inv [OF assms(3,2)] by blast
next
  case (step_exit i code k1)
  then show ?thesis using exit_inv [OF assms(3,2)] by blast
next
  case (step_wait addr r)
  then show ?thesis using sys_wait_inv [OF assms(3)] by blast
next
  case (step_create payload i)
  then show ?thesis using create_inv [OF assms(3)] by blast
next
  case (step_fork pid)
  then show ?thesis using sys_fork_inv assms(3) by blast
next
  case (step_exec u_path u_argv r)
  then show ?thesis using sys_exec_same same_sched_inv assms(3) by blast
qed (simp_all add: sleep_stuck wait_round_blocks)

lemma kstep_reach_inv: "(kstep cf)\<^sup>*\<^sup>* k k' \<Longrightarrow> conf_ok cf \<Longrightarrow> sched_inv cf k \<Longrightarrow> sched_inv cf k'"
  by (induction rule: rtranclp_induct) (auto intro: kstep_inv)

text \<open>The tables as the kernel image has them.\<close>

definition proc_init :: "kernel \<Rightarrow> kernel" where
  "proc_init k = k\<lparr>k_next_pid := 1\<rparr>"

definition proc_boot :: "kernel \<Rightarrow> kernel" where
  "proc_boot k = proc_init (k\<lparr>k_procs := (\<lambda>_. Process_new), k_bitmap := 0, k_table_lock := False, k_queue_lock := False, k_hart_proc := 0\<rparr>)"

lemma boot_inv: "conf_ok cf \<Longrightarrow> sched_inv cf (proc_boot k)"
  by (simp add: proc_boot_def proc_init_def sched_inv_def unlocked_def bits_ok_def Process_new_def ptr_pos)


text \<open>C1. From the tables of the kernel image, whatever processes are created, forked, replaced, preempted, woken, reaped or
  exit, the bitmap of runnable processes names exactly the runnable processes, the process the hart points
  to is the only running one, a dying process has become a zombie by the time the scheduler is back, and no lock is left held.\<close>

theorem sched_reachable:
  assumes "conf_ok cf" "(kstep cf)\<^sup>*\<^sup>* (proc_boot k) k'"
  shows "(\<forall>i < NPROC. bit (k_bitmap k') i \<longleftrightarrow> pst k' i = Runnable) \<and>
    (\<forall>i < NPROC. pst k' i = Running \<longleftrightarrow> k_hart_proc k' = proc_ptr cf i) \<and>
    (\<forall>i < NPROC. \<forall>j < NPROC. pst k' i = Running \<and> pst k' j = Running \<longrightarrow> i = j) \<and>
    (\<forall>i < NPROC. pst k' i \<noteq> Dying) \<and> \<not> k_table_lock k' \<and> \<not> k_queue_lock k'"
proof -
  have d: "sched_inv cf k'" using kstep_reach_inv [OF assms(2,1)] boot_inv [OF assms(1)] by blast
  then have "i = j" if "i < NPROC" "j < NPROC" "pst k' i = Running" "pst k' j = Running" for i j
    using that sched_invD(4) [OF d] ptr_inj [OF assms(1)] by metis
  then show ?thesis using d by (simp add: sched_inv_def bits_ok_def unlocked_def)
qed

section \<open>The choice of the scheduler\<close>

lemma pick_spec:
  assumes inv: "sched_inv cf k" and i: "i < NPROC" "pst k i = Runnable" "\<forall>j < i. pst k j \<noteq> Runnable"
  shows "\<exists>k'. scheduler_pick cf k = Some (Some i, k') \<and> (\<forall>j. pst k' j = (if j = i then Running else pst k j)) \<and>
    k_hart_proc k' = proc_ptr cf i \<and> \<not> bit (k_bitmap k') i"
proof -
  note d = sched_invD [OF inv]
  have "find_runnable k = Some i" using d(2) i by (auto simp: find_runnable_Some bits_ok_def)
  then show ?thesis using d(1) i bit_clear(1) [OF i(1), of _ i] by (auto simp: scheduler_pick_def lock_simps Let_def clear_runnable_bit_def)
qed

lemma pick_none:
  assumes inv: "sched_inv cf k" and n: "\<forall>j < NPROC. pst k j \<noteq> Runnable"
  shows "scheduler_pick cf k = Some (None, k\<lparr>k_sie := True\<rparr>)"
proof -
  have "find_runnable k \<noteq> Some i" for i using sched_invD(2) [OF inv] n bit_word_bound [of "k_bitmap k" i] by (auto simp: find_runnable_Some bits_ok_def)
  then show ?thesis by (cases "find_runnable k") (auto simp: scheduler_pick_def)
qed

text \<open>C8. The scheduler always returns from its search: when some process is runnable it switches to the runnable process
  with the lowest slot, which is then the running one, and otherwise it enables interrupts and waits.\<close>

theorem scheduler_pick_correct:
  assumes "sched_inv cf k"
  shows "(if \<exists>j < NPROC. pst k j = Runnable
     then \<exists>i k'. scheduler_pick cf k = Some (Some i, k') \<and> i < NPROC \<and> pst k i = Runnable \<and> (\<forall>j < i. pst k j \<noteq> Runnable) \<and>
       (\<forall>j. pst k' j = (if j = i then Running else pst k j)) \<and> k_hart_proc k' = proc_ptr cf i \<and> \<not> bit (k_bitmap k') i
     else scheduler_pick cf k = Some (None, k\<lparr>k_sie := True\<rparr>))"
proof (cases "\<exists>j < NPROC. pst k j = Runnable")
  case True
  then obtain i where i: "i < NPROC" "pst k i = Runnable" "\<forall>j < i. pst k j \<noteq> Runnable"
    using exists_least_iff [of "\<lambda>j. j < NPROC \<and> pst k j = Runnable"] by (metis order.strict_trans)
  then show ?thesis unfolding if_P [OF True] using pick_spec [OF assms i] by blast
next
  case False
  then show ?thesis using pick_none [OF assms] by simp
qed

text \<open>C9. A process that gives up the processor while no process in a lower slot is runnable gets it back at once,
  whatever waits in the higher slots.\<close>

theorem yield_same_process:
  assumes cf: "conf_ok cf" and inv: "sched_inv cf k" and i: "i < NPROC" "k_hart_proc k = proc_ptr cf i" and low: "\<forall>j < i. pst k j \<noteq> Runnable"
  shows "\<exists>k1 k2 k3. yield_proc cf k = Some k1 \<and> scheduler_resume i k1 = Some k2 \<and> scheduler_pick cf k2 = Some (Some i, k3) \<and>
    (\<forall>j. pst k3 j = pst k j) \<and> k_hart_proc k3 = k_hart_proc k"
proof -
  note d = sched_invD [OF inv]
  let ?k1 = "mark_runnable i (upd_proc i (\<lambda>p. p\<lparr>pr_state := Runnable\<rparr>) k)"
  have run: "pst k i = Running" using d(4) i by blast
  then have y: "yield_proc cf k = Some ?k1" using yield_eq(1) [OF cf i] d(1) by (simp add: unlocked_def)
  obtain k2 where k2: "scheduler_resume i ?k1 = Some k2" "\<forall>j. pst k2 j = (if j = i then Runnable else pst k j)"
    using d(1) by (auto simp: scheduler_resume_def lock_simps Let_def)
  have inv2: "sched_inv cf k2" using yield_inv [OF inv cf _ y k2(1)] slot_of_ptr [OF cf] i by blast
  have "\<forall>j < i. pst k2 j \<noteq> Runnable" using k2(2) low by simp
  from pick_spec [OF inv2 i(1) _ this] k2(2)
  obtain k3 where "scheduler_pick cf k2 = Some (Some i, k3)" "\<forall>j. pst k3 j = (if j = i then Running else pst k2 j)" "k_hart_proc k3 = proc_ptr cf i" by auto
  then show ?thesis using y k2 run i by (intro exI [of _ ?k1] exI [of _ k2] exI [of _ k3]) auto
qed

text \<open>C6. A process that goes to sleep does not come back from the attempt, and neither does the kernel: with all locks free, \<open>sleep\<close>, and \<open>wait\<close>
  with children of which none has exited, take the lock of the process table and then wait for it themselves.\<close>

theorem sleep_never_returns:
  assumes "sched_inv cf k" "slot_of cf (k_hart_proc k) = Some i" "kids k \<noteq> []" "\<forall>j \<in> set (kids k). pst k j \<noteq> Zombie"
  shows "lock_table k \<noteq> None \<and> sleep cf ch k = None \<and> wait_round cf k = None \<and> sys_wait cf addr k = None"
proof -
  have "List.find (\<lambda>j. pst k j = Zombie) (kids k) = None" using assms(4) by (simp add: find_None_iff)
  moreover have u: "\<not> k_table_lock k" using assms(1) by (simp add: sched_inv_def unlocked_def)
  ultimately have "wait_round cf k = None" using assms(2,3) by (simp add: wait_round_eq)
  then show ?thesis using u by (simp add: sleep_stuck lock_table_def sys_wait_def assms(2))
qed


section \<open>The exit code reaches the parent\<close>

text \<open>What of a process survives its exit: everything but its state, its channel and its open files.\<close>

definition core :: "process \<Rightarrow> process" where
  "core p = p\<lparr>pr_state := Unused, pr_sleep_chan := 0, open_files := []\<rparr>"

lemma core_fields: "core p = core q \<Longrightarrow> pr_pid p = pr_pid q \<and> pr_exit_code p = pr_exit_code q \<and> pr_parent p = pr_parent q \<and>
  root_pt_pa p = root_pt_pa q \<and> pr_root_frame p = pr_root_frame q \<and> mmap_head p = mmap_head q \<and> pr_kstack p = pr_kstack q \<and> pr_tf_frame p = pr_tf_frame q"
  by (cases p; cases q) (simp add: core_def)

lemma core_upd [simp]:
  "core (p\<lparr>pr_state := st\<rparr>) = core p" "core (p\<lparr>pr_state := st, pr_sleep_chan := ch\<rparr>) = core p" "core (p\<lparr>open_files := fs\<rparr>) = core p"
  by (cases p; simp add: core_def)+

lemma wakeup_core: "wakeup ch k = Some k' \<Longrightarrow> core (k_procs k' j) = core (k_procs k j)"
proof -
  have "core (k_procs (wakeup_loop ch is k) j) = core (k_procs k j)" for "is" k
    by (induction "is" arbitrary: k) auto
  then show "wakeup ch k = Some k' \<Longrightarrow> core (k_procs k' j) = core (k_procs k j)"
    by (auto elim!: bind_SomeE simp: wakeup_def lock_simps Let_def split: if_split_asm)
qed

lemma close_all_core: "close_all i fds k = Some k' \<Longrightarrow> core (k_procs k' j) = core (k_procs k j)"
  by (induction fds arbitrary: k) (fastforce elim!: bind_SomeE split: option.split_asm)+

lemma proc_exit_core:
  assumes "proc_exit cf i k = Some k'" "pr_parent (k_procs k i) \<noteq> proc_ptr cf i"
  shows "core (k_procs k' i) = core (k_procs k i)"
proof -
  let ?k0 = "k\<lparr>k_sie := False\<rparr>"
  obtain k1 k2 where k1: "(if pr_parent (k_procs k i) \<noteq> 0 then wakeup (pr_parent (k_procs k i)) ?k0 else Some ?k0) = Some k1"
    and k2: "close_all i [0..<NOFILE] (upd_proc i (\<lambda>p. p\<lparr>pr_state := Dying\<rparr>) (unlock_table (mark_not_runnable i (adopt cf (proc_ptr cf i) (k1\<lparr>k_table_lock := True\<rparr>))))) = Some k2"
    and k': "k' = (if k_sie k then k2\<lparr>k_sie := True\<rparr> else k2)"
    using assms(1) by (auto elim!: bind_SomeE simp: proc_exit_def lock_table_def Let_def split: if_split_asm)
  have c1: "core (k_procs k1 i) = core (k_procs k i)" using k1 wakeup_core [of _ ?k0 k1 i] by (auto split: if_split_asm)
  then have "k_procs (adopt cf (proc_ptr cf i) (k1\<lparr>k_table_lock := True\<rparr>)) i = k_procs k1 i" using assms(2) core_fields [OF c1] by (simp add: adopt_def)
  then show ?thesis using close_all_core [OF k2, of i] c1 by (simp add: k' unlock_table_def)
qed

lemma exit_zombie:
  assumes cf: "conf_ok cf" and inv: "sched_inv cf k" and i: "slot_of cf (k_hart_proc k) = Some i"
    and e: "sys_exit cf a0 k = Some k1" "scheduler_resume i k1 = Some k2" and par: "pr_parent (k_procs k i) \<noteq> proc_ptr cf i"
  shows "pst k2 i = Zombie \<and> core (k_procs k2 i) = core ((k_procs k i)\<lparr>pr_exit_code := as_i32 (as_u32 a0)\<rparr>)"
proof -
  note d = sched_invD [OF inv]
  let ?k0 = "upd_proc i (\<lambda>p. p\<lparr>pr_exit_code := as_i32 (as_u32 a0)\<rparr>) k"
  have p: "i < NPROC" "k_hart_proc k = proc_ptr cf i" using i slot_of_ptr [OF cf] by auto
  then have run: "pst k i = Running" using d(4) by blast
  obtain k' where k': "proc_exit cf i ?k0 = Some k'" "yield_proc cf k' = Some k1" using e(1) i by (auto elim!: bind_SomeE simp: sys_exit_def)
  have "bits_ok ?k0" "unlocked ?k0" "pst ?k0 i = Running" using d(1,2) run by (simp_all add: bits_ok_def unlocked_def)
  from proc_exit_spec [OF this(1,2) p(1) this(3) k'(1)] p
  have s: "unlocked k'" "k_hart_proc k' = proc_ptr cf i" "pst k' i = Dying" by auto
  then have "k1 = k'" using k'(2) yield_eq(1) [OF cf p(1) s(2)] by (simp add: unlocked_def)
  moreover have "core (k_procs k' i) = core ((k_procs k i)\<lparr>pr_exit_code := as_i32 (as_u32 a0)\<rparr>)" using proc_exit_core [OF k'(1)] par by simp
  ultimately show ?thesis using e(2) s by (auto simp: scheduler_resume_def lock_simps Let_def)
qed

lemma find_filter: "List.find P (filter Q xs) = List.find (\<lambda>x. Q x \<and> P x) xs"
  by (induction xs) auto

lemma find_upt_first: "i < n \<Longrightarrow> P i \<Longrightarrow> \<forall>m < i. \<not> P m \<Longrightarrow> List.find P [0..<n] = Some i"
  by (auto simp: find_Some_iff intro!: exI [of _ i])

text \<open>C7. The parent that waits gets the number of the child that exited and the low 32 bits of what it passed to \<open>exit\<close> as a signed
  number, and the child's slot is free again, once the child's memory has been released.\<close>

theorem exit_wait:
  assumes "conf_ok cf" "sched_inv cf k" "slot_of cf (k_hart_proc k) = Some i"
    and "sys_exit cf a0 k = Some k1" "scheduler_resume i k1 = Some k2"
    and par: "pr_parent (k_procs k i) = proc_ptr cf j" "j < NPROC" "j \<noteq> i"
    and k3: "k_procs k3 i = k_procs k2 i" "k_hart_proc k3 = proc_ptr cf j" "\<not> k_table_lock k3"
    and first: "\<forall>m < i. pr_parent (k_procs k3 m) = proc_ptr cf j \<longrightarrow> pst k3 m \<noteq> Zombie"
    and free: "Process_free cf (k_procs k3 i) (k_wh k3) (k_pm k3) = Some (p, w, s)" "drop_frame (pr_tf_frame p) s = Some s'"
  shows "\<exists>k4. wait_round cf k3 = Some (Reaped (pr_pid (k_procs k i)) (as_i32 (as_u32 a0)), k4) \<and>
    pst k4 i = Unused \<and> (\<forall>m. m \<noteq> i \<longrightarrow> k_procs k4 m = k_procs k3 m)"
proof -
  have i: "i < NPROC" using assms(1,3) slot_of_ptr by blast
  have "pr_parent (k_procs k i) \<noteq> proc_ptr cf i" using par ptr_inj [OF assms(1)] by simp
  from exit_zombie [OF assms(1-5) this]
  have z: "pst k3 i = Zombie" "pr_pid (k_procs k3 i) = pr_pid (k_procs k i)" "pr_exit_code (k_procs k3 i) = as_i32 (as_u32 a0)" "pr_parent (k_procs k3 i) = proc_ptr cf j"
    using k3(1) par(1) by (auto dest!: core_fields)
  have "List.find (\<lambda>m. pst k3 m = Zombie) (kids k3) = Some i"
    unfolding find_filter by (rule find_upt_first) (use i z first k3(2) in auto)
  moreover have "slot_of cf (k_hart_proc k3) = Some j" using k3(2) par(2) slot_of_ptr [OF assms(1)] by blast
  ultimately have "wait_round cf k3 = Some (Reaped (pr_pid (k_procs k i)) (as_i32 (as_u32 a0)), upd_proc i (\<lambda>_. Process_new) (k3\<lparr>k_wh := w, k_pm := s'\<rparr>))"
    using wait_round_eq k3(3) free z by simp
  then show ?thesis by (auto simp: Process_new_def)
qed


section \<open>Examples\<close>

definition kconf_example :: kconf where
  "kconf_example = \<lparr>cf_kpt = 0x80001000, cf_table = 0x80200000, cf_proc_size = 0x200, cf_tramp = 0x80100000, cf_proc_return = 0x80101000,
     cf_user_return = 0x80102000, cf_fs_init = 0x80103000, cf_satp = 0x8000000000080001, cf_hartid = 0\<rparr>"

definition kernel_example :: kernel where
  "kernel_example = proc_boot \<lparr>k_pm = pmem_boot (\<lambda>_. 0), k_wh = warehouse_new, k_ifs = icache_example, k_files = FILE_TABLE,
     k_procs = (\<lambda>_. Process_new), k_bitmap = 0, k_table_lock = False, k_queue_lock = False, k_next_pid = 0, k_hart_proc = 0, k_sie = False,
     k_user_satp = None, k_sscratch = 0\<rparr>"

text \<open>A parent in slot 0 and its child in slot 1, in given states.\<close>

definition family :: "ProcState \<Rightarrow> ProcState \<Rightarrow> 64 word \<Rightarrow> usize \<Rightarrow> kernel" where
  "family st0 st1 bits cur = kernel_example\<lparr>k_procs := (\<lambda>_. Process_new)(0 := Process_new\<lparr>pr_state := st0, pr_pid := 1\<rparr>,
     1 := Process_new\<lparr>pr_state := st1, pr_pid := 2, pr_parent := proc_ptr kconf_example 0\<rparr>), k_bitmap := bits, k_hart_proc := cur\<rparr>"

lemma conf_example: "conf_ok kconf_example" "proc_ptr kconf_example i = 0x80200000 + i * 0x200"
  by (simp_all add: conf_ok_def kconf_example_def proc_ptr_def)

lemma family_fields [simp]:
  "pst (family a b c d) 0 = a" "pst (family a b c d) 1 = b" "pst (family a b c d) (Suc 0) = b" "k_hart_proc (family a b c d) = d" "k_bitmap (family a b c d) = c"
  "\<not> k_table_lock (family a b c d)" "\<not> k_queue_lock (family a b c d)"
  "i \<noteq> 0 \<Longrightarrow> i \<noteq> Suc 0 \<Longrightarrow> k_procs (family a b c d) i = Process_new"
  by (simp_all add: family_def kernel_example_def proc_boot_def proc_init_def)

lemma family_inv:
  assumes "\<And>i. bit c i \<longleftrightarrow> (i = 0 \<and> a = Runnable) \<or> (i = 1 \<and> b = Runnable)" "a \<noteq> Dying" "b \<noteq> Dying"
    and "a = Running \<longleftrightarrow> d = proc_ptr kconf_example 0" "b = Running \<longleftrightarrow> d = proc_ptr kconf_example 1" "d = 0 \<or> d = proc_ptr kconf_example 0 \<or> d = proc_ptr kconf_example 1"
  shows "sched_inv kconf_example (family a b c d)"
proof -
  have "pst (family a b c d) i = (if i = 0 then a else if i = 1 then b else Unused)" for i by (auto simp: Process_new_def)
  then show ?thesis using assms by (auto simp: sched_inv_def bits_ok_def unlocked_def conf_example)
qed

lemma bit_two: "bit (2 :: 64 word) i \<longleftrightarrow> i = 1" "bit (3 :: 64 word) i \<longleftrightarrow> i = 0 \<or> i = 1" "bit (1 :: 64 word) i \<longleftrightarrow> i = 0"
proof -
  have "2 = (push_bit 1 1 :: 64 word)" "3 = (push_bit 0 1 OR push_bit 1 1 :: 64 word)" by simp_all
  then show "bit (2 :: 64 word) i \<longleftrightarrow> i = 1" "bit (3 :: 64 word) i \<longleftrightarrow> i = 0 \<or> i = 1"
    using bit_one [of 0 i] bit_one [of 1 i] by (simp_all only: bit_or_iff NPROC_def)
  show "bit (1 :: 64 word) i \<longleftrightarrow> i = 0" by (simp add: bit_1_iff)
qed

lemma family_examples:
  "sched_inv kconf_example (family Running Runnable 2 (proc_ptr kconf_example 0))"
  "sched_inv kconf_example (family Runnable Runnable 3 0)"
  "sched_inv kconf_example (family Runnable Running 1 (proc_ptr kconf_example 1))"
  by (rule family_inv, unfold bit_two, simp_all add: conf_example)+

theorem sched_reachable_witness:
  "\<exists>k'. (kstep kconf_example)\<^sup>*\<^sup>* (proc_boot kernel_example) k' \<and> k_sie k' \<and> (\<forall>i < NPROC. bit (k_bitmap k') i \<longleftrightarrow> pst k' i = Runnable)"
proof -
  have "scheduler_pick kconf_example (proc_boot kernel_example) = Some (None, (proc_boot kernel_example)\<lparr>k_sie := True\<rparr>)"
    by (simp add: scheduler_pick_def find_runnable_def proc_boot_def proc_init_def)
  moreover have "k_hart_proc (proc_boot kernel_example) = 0" by (simp add: proc_boot_def proc_init_def)
  ultimately have r: "(kstep kconf_example)\<^sup>*\<^sup>* (proc_boot kernel_example) ((proc_boot kernel_example)\<lparr>k_sie := True\<rparr>)" by (blast intro: step_pick)
  show ?thesis by (intro exI [of _ "(proc_boot kernel_example)\<lparr>k_sie := True\<rparr>"]) (use r sched_reachable [OF conf_example(1) r] in simp)
qed

theorem scheduler_pick_correct_witness:
  "\<exists>k'. scheduler_pick kconf_example (family Runnable Runnable 3 0) = Some (Some 0, k') \<and> pst k' 0 = Running"
proof -
  have r: "\<exists>j < NPROC. pst (family Runnable Runnable 3 0) j = Runnable" by (intro exI [of _ 0]) (simp add: NPROC_def)
  obtain i k' where "scheduler_pick kconf_example (family Runnable Runnable 3 0) = Some (Some i, k')" "\<forall>j < i. pst (family Runnable Runnable 3 0) j \<noteq> Runnable" "pst k' i = Running"
    using scheduler_pick_correct [OF family_examples(2)] unfolding if_P [OF r] by auto
  moreover from this(2) have "i = 0" by (metis family_fields(1) not_gr_zero)
  ultimately show ?thesis by blast
qed

theorem yield_same_process_witness:
  "\<exists>k1 k2 k3. yield_proc kconf_example (family Running Runnable 2 (proc_ptr kconf_example 0)) = Some k1 \<and>
     scheduler_resume 0 k1 = Some k2 \<and> scheduler_pick kconf_example k2 = Some (Some 0, k3) \<and> pst k3 1 = Runnable"
proof -
  have "0 < NPROC" by (simp add: NPROC_def)
  from yield_same_process [OF conf_example(1) family_examples(1) this] show ?thesis by simp (metis family_fields(3))
qed

theorem sleep_never_returns_witness:
  "sleep kconf_example 5 (family Running Runnable 2 (proc_ptr kconf_example 0)) = None \<and>
   wait_round kconf_example (family Running Runnable 2 (proc_ptr kconf_example 0)) = None"
proof -
  let ?k = "family Running Runnable 2 (proc_ptr kconf_example 0)"
  have s: "slot_of kconf_example (k_hart_proc ?k) = Some 0" using slot_of_ptr [OF conf_example(1)] by (simp add: NPROC_def)
  have k: "pr_parent (k_procs ?k i) = k_hart_proc ?k \<longleftrightarrow> i = 1" for i
    by (cases "i = 0 \<or> i = 1") (auto simp: family_def Process_new_def conf_example)
  have "1 \<in> set (kids ?k)" "\<forall>j \<in> set (kids ?k). pst ?k j \<noteq> Zombie" unfolding k by (auto simp: NPROC_def)
  then show ?thesis using sleep_never_returns [OF family_examples(1) s] by (metis empty_iff empty_set)
qed


lemma close_all_none: "\<forall>fd \<in> set fds. open_files (k_procs k i) ! fd = None \<Longrightarrow> close_all i fds k = Some k"
  by (induction fds) auto

lemma wakeup_returns:
  assumes "unlocked k"
  shows "\<exists>k'. wakeup ch k = Some k' \<and> unlocked k' \<and> k_hart_proc k' = k_hart_proc k \<and> (\<forall>j. open_files (k_procs k' j) = open_files (k_procs k j))"
proof -
  have "k_hart_proc (wakeup_loop ch is k) = k_hart_proc k \<and> (\<forall>j. open_files (k_procs (wakeup_loop ch is k) j) = open_files (k_procs k j))" for "is" k
    by (induction "is" arbitrary: k) auto
  then show ?thesis using assms by (simp add: wakeup_def lock_simps Let_def)
qed

lemma wakeup_if_returns:
  assumes "unlocked k"
  shows "\<exists>k'. (if p \<noteq> 0 then wakeup p k else Some k) = Some k' \<and> unlocked k' \<and> k_hart_proc k' = k_hart_proc k \<and> open_files (k_procs k' i) = open_files (k_procs k i)"
proof (cases "p = 0")
  case False
  then show ?thesis using wakeup_returns [OF assms, of p] by auto
qed (use assms in simp)

lemma proc_exit_returns:
  assumes "unlocked k" "\<forall>fd < NOFILE. open_files (k_procs k i) ! fd = None"
  shows "\<exists>k'. proc_exit cf i k = Some k' \<and> unlocked k' \<and> pst k' i = Dying \<and> k_hart_proc k' = k_hart_proc k"
proof -
  let ?k0 = "k\<lparr>k_sie := False\<rparr>"
  have "unlocked ?k0" using assms(1) by (simp add: unlocked_def)
  from wakeup_if_returns [OF this, of "pr_parent (k_procs ?k0 i)" i]
  obtain k1 where k1: "(if pr_parent (k_procs ?k0 i) \<noteq> 0 then wakeup (pr_parent (k_procs ?k0 i)) ?k0 else Some ?k0) = Some k1"
    and u1: "unlocked k1" "k_hart_proc k1 = k_hart_proc ?k0" "open_files (k_procs k1 i) = open_files (k_procs ?k0 i)" by blast
  let ?d = "upd_proc i (\<lambda>p. p\<lparr>pr_state := Dying\<rparr>) (unlock_table (mark_not_runnable i (adopt cf (proc_ptr cf i) (k1\<lparr>k_table_lock := True\<rparr>))))"
  have "close_all i [0..<NOFILE] ?d = Some ?d" by (rule close_all_none) (use u1 assms(2) in \<open>simp add: unlock_table_def adopt_def\<close>)
  then show ?thesis using u1 unfolding proc_exit_def Let_def k1 by (simp add: lock_table_def unlocked_def unlock_table_def)
qed

lemma exit_returns:
  assumes "unlocked k" "slot_of cf (k_hart_proc k) = Some i" "conf_ok cf" "\<forall>fd < NOFILE. open_files (k_procs k i) ! fd = None"
  shows "\<exists>k1 k2. sys_exit cf a0 k = Some k1 \<and> scheduler_resume i k1 = Some k2"
proof -
  let ?k0 = "upd_proc i (\<lambda>p. p\<lparr>pr_exit_code := as_i32 (as_u32 a0)\<rparr>) k"
  have i: "i < NPROC" "k_hart_proc k = proc_ptr cf i" using assms(2,3) slot_of_ptr by auto
  have "unlocked ?k0" using assms(1) by (simp add: unlocked_def)
  from proc_exit_returns [OF this, of i cf] obtain k' where k': "proc_exit cf i ?k0 = Some k'" "unlocked k'" "pst k' i = Dying" "k_hart_proc k' = proc_ptr cf i"
    using assms(4) i by auto
  then have "yield_proc cf k' = Some k'" using yield_eq(1) [OF assms(3) i(1)] by (simp add: unlocked_def)
  then show ?thesis using k' assms(2) by (auto simp: sys_exit_def scheduler_resume_def lock_simps)
qed

lemma destroy_empty:
  assumes "\<And>i. \<not> is_valid (read_u64 (mem s) (entry_addr table i))"
  shows "destroy_level n table is s = Some s"
  by (induction "is") (simp_all add: assms)

theorem exit_wait_witness:
  "\<exists>k k1 k2 k3 k4. k = family Runnable Running 1 (proc_ptr kconf_example 1) \<and> sys_exit kconf_example 7 k = Some k1 \<and> scheduler_resume 1 k1 = Some k2 \<and>
     k_procs k3 1 = k_procs k2 1 \<and> wait_round kconf_example k3 = Some (Reaped 2 7, k4) \<and> pst k4 1 = Unused"
proof -
  let ?k = "family Runnable Running 1 (proc_ptr kconf_example 1)"
  have s: "slot_of kconf_example (k_hart_proc ?k) = Some 1" using slot_of_ptr [OF conf_example(1)] by (simp add: NPROC_def)
  have c: "k_procs ?k 1 = Process_new\<lparr>pr_state := Running, pr_pid := 2, pr_parent := proc_ptr kconf_example 0\<rparr>" by (simp add: family_def)
  have "\<forall>fd < NOFILE. open_files (k_procs ?k 1) ! fd = None" by (simp only: c) (simp add: Process_new_def)
  then obtain k1 k2 where e: "sys_exit kconf_example 7 ?k = Some k1" "scheduler_resume 1 k1 = Some k2"
    using exit_returns [OF _ s conf_example(1)] sched_invD(1) [OF family_examples(3)] by blast
  have par: "pr_parent (k_procs ?k 1) = proc_ptr kconf_example 0" by (simp only: c) simp
  then have z: "core (k_procs k2 1) = core ((k_procs ?k 1)\<lparr>pr_exit_code := 7\<rparr>)"
    using exit_zombie [OF conf_example(1) family_examples(3) s e] by (simp add: conf_example as_i32_def as_u32_def)
  let ?k3 = "?k\<lparr>k_procs := (k_procs ?k)(1 := k_procs k2 1), k_hart_proc := proc_ptr kconf_example 0\<rparr>"
  have pm: "k_pm (family a b c d) = pmem_boot (\<lambda>_. 0)" for a b c d by (simp add: family_def kernel_example_def proc_boot_def proc_init_def)
  have "destroy_level 2 0 [0..<PGNUM] (pmem_boot (\<lambda>_. 0)) = Some (pmem_boot (\<lambda>_. 0))"
    by (rule destroy_empty) (simp add: pmem_boot_def read_u64_zero is_valid_def)
  then obtain p w where f: "Process_free kconf_example (k_procs k2 1) (k_wh ?k) (k_pm ?k) = Some (p, w, pmem_boot (\<lambda>_. 0))" "pr_tf_frame p = None"
    using core_fields [OF z] unfolding c by (simp add: pm Process_free_def pt_destroy_def Process_new_def drop_frame_def drop_kstack_def)
  have "\<forall>m < 1. pr_parent (k_procs ?k3 m) = proc_ptr kconf_example 0 \<longrightarrow> pst ?k3 m \<noteq> Zombie" by simp
  from exit_wait [OF conf_example(1) family_examples(3) s e par _ _ _ _ _ this, of p w "pmem_boot (\<lambda>_. 0)" "pmem_boot (\<lambda>_. 0)"] f
  obtain k4 where "wait_round kconf_example ?k3 = Some (Reaped (pr_pid (k_procs ?k 1)) 7, k4)" "pst k4 1 = Unused"
    by (auto simp: NPROC_def drop_frame_def as_i32_def as_u32_def)
  then show ?thesis using e c by (intro exI [of _ ?k] exI [of _ k1] exI [of _ k2] exI [of _ ?k3] exI [of _ k4]) simp
qed

end
