(* ===== verification/Syscall.thy ===== *)
theory Syscall
  imports Console Sched
begin

text \<open>
  The dispatch of system calls (\<open>syscall/mod.rs\<close>) and the calls that only print (\<open>syscall/util.rs\<close>, \<open>syscall/helloworld.rs\<close> and parts of
  \<open>syscall/fs.rs\<close>), with \<open>timer::wait\<close>, on which \<open>sys_sleep\<close> rests. A call either returns a value to the caller or gives the
  processor away; what follows for a call that gave it away runs when the process is chosen again, and never for \<open>sys_exit\<close>. Text goes to the console and is
  not part of the state.

  The registers of the caller are a function from their names.
\<close>

type_synonym regs = "string \<Rightarrow> usize"

datatype outcome = Return usize | Away

section \<open>Calls that print\<close>

definition sys_helloworld :: usize where "sys_helloworld = 0"

text \<open>The result and the text that is printed.\<close>

definition sys_print_str :: "usize \<Rightarrow> uproc \<Rightarrow> pmem \<Rightarrow> (usize \<times> u8 list) option" where
  "sys_print_str u_src p s = do {
     (r, buf) \<leftarrow> copyin_str (mem s) (root_pt_pa p) (replicate 256 0) u_src;
     (case r of
        Inr len \<Rightarrow>
          if saturating_sub len 1 \<le> length buf
          then let str = take (saturating_sub len 1) buf in Some (0, if from_utf8 str \<noteq> None then str else [])
          else None
      | Inl _ \<Rightarrow> Some (usize_MAX, []))
   }"

definition sys_print_int :: "usize \<Rightarrow> usize \<times> int" where
  "sys_print_int a0 = (0, as_i32 (as_u32 a0))"

definition sys_show_bitmap :: usize where "sys_show_bitmap = 0"
definition sys_show_buffer :: usize where "sys_show_buffer = 0"
definition sys_flush_buffer :: usize where "sys_flush_buffer = 0"
definition sys_print_cwd :: usize where "sys_print_cwd = 0"

definition dentry_print :: "nat \<Rightarrow> ifs \<Rightarrow> ifs option" where
  "dentry_print dir st = do {
     (_, _, st) \<leftarrow> dentry_scan (\<lambda>_. False) dir (id_size (in_disk (i_cache st dir))) 0 (replicate SIZE_DENTRY 0) st;
     Some st
   }"

definition sys_dentry_print :: "usize \<Rightarrow> fsys \<Rightarrow> (usize \<times> fsys) option" where
  "sys_dentry_print a0 s = do {
     (dir, s) \<leftarrow> on_ifs (inode_get (as_u32 a0)) s;
     s \<leftarrow> do_ifs (dentry_print dir) s;
     s \<leftarrow> do_ifs (inode_put dir) s;
     Some (0, s)
   }"

section \<open>Waiting for the clock\<close>

text \<open>One round of the loop; \<open>ch\<close> is the address of the tick counter, the channel on which the clock wakes its sleepers.\<close>

definition timer_wait :: "kconf \<Rightarrow> usize \<Rightarrow> usize \<Rightarrow> usize \<Rightarrow> kernel \<Rightarrow> (bool \<times> kernel) option" where
  "timer_wait cf ch sys_ticks ticks k = do {
     target \<leftarrow> uadd sys_ticks ticks;
     (if sys_ticks < target then do { k \<leftarrow> sleep cf ch k; Some (False, k) } else Some (True, k))
   }"

definition sys_sleep :: "kconf \<Rightarrow> usize \<Rightarrow> usize \<Rightarrow> usize \<Rightarrow> kernel \<Rightarrow> (outcome \<times> kernel) option" where
  "sys_sleep cf ch sys_ticks a0 k = do {
     (woken, k) \<leftarrow> timer_wait cf ch sys_ticks a0 k;
     Some (if woken then Return 0 else Away, k)
   }"

section \<open>The parts of the kernel a call works on\<close>

definition ret :: "usize \<Rightarrow> kernel \<Rightarrow> (outcome \<times> kernel) option" where
  "ret v k = Some (Return v, k)"

definition on_cur :: "kconf \<Rightarrow> (nat \<Rightarrow> kernel \<Rightarrow> (usize \<times> kernel) option) \<Rightarrow> kernel \<Rightarrow> (outcome \<times> kernel) option" where
  "on_cur cf f k = do { i \<leftarrow> slot_of cf (k_hart_proc k); (v, k) \<leftarrow> f i k; Some (Return v, k) }"

text \<open>The address space of the current process, the node warehouse and physical memory.\<close>

definition on_uproc :: "(uproc \<Rightarrow> warehouse \<Rightarrow> pmem \<Rightarrow> (usize \<times> uproc \<times> warehouse \<times> pmem) option) \<Rightarrow> nat \<Rightarrow> kernel \<Rightarrow> (usize \<times> kernel) option" where
  "on_uproc f i k = do {
     (v, p, w, s) \<leftarrow> f (uproc.truncate (k_procs k i)) (k_wh k) (k_pm k);
     Some (v, upd_proc i (\<lambda>q. q\<lparr>heap_top := heap_top p, mmap_head := mmap_head p\<rparr>) (k\<lparr>k_wh := w, k_pm := s\<rparr>))
   }"

text \<open>Calls that read user memory only.\<close>

definition on_umem :: "(uproc \<Rightarrow> pmem \<Rightarrow> (usize \<times> 'a) option) \<Rightarrow> nat \<Rightarrow> kernel \<Rightarrow> (usize \<times> kernel) option" where
  "on_umem f i k = do { (v, _) \<leftarrow> f (uproc.truncate (k_procs k i)) (k_pm k); Some (v, k) }"

text \<open>The file system, the open files and physical memory.\<close>

definition on_fsys :: "(fproc \<Rightarrow> fsys \<Rightarrow> (usize \<times> fsys) option) \<Rightarrow> nat \<Rightarrow> kernel \<Rightarrow> (usize \<times> kernel) option" where
  "on_fsys f i k = do { (v, s) \<leftarrow> f (fproc.truncate (k_procs k i)) (kfs k); Some (v, put_kfs s k) }"

definition on_disk :: "(fsys \<Rightarrow> (usize \<times> fsys) option) \<Rightarrow> kernel \<Rightarrow> (outcome \<times> kernel) option" where
  "on_disk f k = do { (v, s) \<leftarrow> f (kfs k); Some (Return v, put_kfs s k) }"

section \<open>Dispatch\<close>

text \<open>The calls by number, in the order of \<open>num.h\<close>.\<close>

definition memory_calls :: "kconf \<Rightarrow> regs \<Rightarrow> (nat \<times> (kernel \<Rightarrow> (outcome \<times> kernel) option)) list" where
  "memory_calls cf c = (
     let a0 = c ''a0''; a1 = c ''a1'' in
     [(1, ret sys_helloworld),
      (2, on_cur cf (on_umem (sys_copyin a0 a1))),
      (3, on_cur cf (on_uproc (\<lambda>p w s. do { (v, s) \<leftarrow> sys_copyout a0 p s; Some (v, p, w, s) }))),
      (4, on_cur cf (on_umem (sys_copyinstr a0))),
      (5, on_cur cf (on_uproc (\<lambda>p w s. do { (v, p, s) \<leftarrow> sys_brk a0 p s; Some (v, p, w, s) }))),
      (6, on_cur cf (on_uproc (sys_mmap a0 a1))),
      (7, on_cur cf (on_uproc (sys_munmap a0 a1))),
      (8, on_cur cf (on_umem (sys_print_str a0))),
      (9, ret (fst (sys_print_int a0)))])"

definition block_calls :: "kconf \<Rightarrow> regs \<Rightarrow> (nat \<times> (kernel \<Rightarrow> (outcome \<times> kernel) option)) list" where
  "block_calls cf c = (
     let a0 = c ''a0''; a1 = c ''a1'' in
     [(11, on_disk sys_alloc_block),
      (12, on_disk (sys_free_block a0)),
      (13, on_disk sys_alloc_inode),
      (14, on_disk (sys_free_inode a0)),
      (15, ret sys_show_bitmap),
      (16, on_disk (sys_get_block a0)),
      (17, on_cur cf (on_fsys (sys_read_block a0 a1))),
      (18, on_cur cf (on_fsys (sys_write_block a0 a1))),
      (19, on_disk (sys_put_block a0)),
      (20, ret sys_show_buffer),
      (21, ret sys_flush_buffer)])"

definition proc_calls :: "kconf \<Rightarrow> usize \<Rightarrow> usize \<Rightarrow> regs \<Rightarrow> (nat \<times> (kernel \<Rightarrow> (outcome \<times> kernel) option)) list" where
  "proc_calls cf ch sys_ticks c = (
     let a0 = c ''a0''; a1 = c ''a1'' in
     [(10, \<lambda>k. do { v \<leftarrow> sys_getpid cf k; Some (Return v, k) }),
      (22, \<lambda>k. do { (v, k) \<leftarrow> sys_fork cf k; Some (Return v, k) }),
      (23, \<lambda>k. do { (v, k) \<leftarrow> sys_wait cf a0 k; Some (case v of Some v \<Rightarrow> Return v | None \<Rightarrow> Away, k) }),
      (24, \<lambda>k. do { k \<leftarrow> sys_exit cf a0 k; Some (Away, k) }),
      (25, sys_sleep cf ch sys_ticks a0),
      (41, \<lambda>k. do { (v, k) \<leftarrow> sys_exec cf a0 a1 k; Some (Return v, k) })])"

definition inode_calls :: "kconf \<Rightarrow> regs \<Rightarrow> (nat \<times> (kernel \<Rightarrow> (outcome \<times> kernel) option)) list" where
  "inode_calls cf c = (
     let a0 = c ''a0''; a1 = c ''a1''; a2 = c ''a2''; a3 = c ''a3'' in
     [(26, on_disk (sys_inode_create a0 a1 a2)),
      (27, on_disk (sys_inode_dup a0)),
      (28, on_disk (sys_inode_put a0)),
      (29, on_disk (sys_inode_set_nlink a0 a1)),
      (30, \<lambda>k. Some (Return (sys_inode_get_refcnt a0 (kfs k)), k)),
      (31, on_disk (sys_inode_print a0)),
      (32, on_cur cf (on_fsys (sys_inode_write_data a0 a1 a2 a3))),
      (33, on_cur cf (on_fsys (sys_inode_read_data a0 a1 a2 a3))),
      (34, on_cur cf (on_fsys (sys_dentry_create a0 a1 a2))),
      (35, on_cur cf (on_fsys (sys_dentry_search a0 a1))),
      (36, on_cur cf (on_fsys (sys_dentry_delete a0 a1))),
      (37, on_disk (sys_dentry_print a0)),
      (38, on_cur cf (on_fsys (sys_path_to_inode a0))),
      (39, on_cur cf (on_fsys (sys_path_to_parent_inode a0 a1))),
      (40, on_disk sys_prepare_root_dir)])"

definition file_calls :: "kconf \<Rightarrow> regs \<Rightarrow> (nat \<times> (kernel \<Rightarrow> (outcome \<times> kernel) option)) list" where
  "file_calls cf c = (
     let a0 = c ''a0''; a1 = c ''a1''; a2 = c ''a2'' in
     [(42, on_cur cf (\<lambda>i. on_fproc i (sys_open a0 a1))),
      (43, on_cur cf (\<lambda>i. on_fproc i (sys_close a0))),
      (44, on_cur cf (on_fsys (sys_read a0 a1 a2))),
      (45, on_cur cf (on_fsys (sys_write a0 a1 a2))),
      (46, on_cur cf (on_fsys (sys_lseek a0 a1 a2))),
      (47, on_cur cf (\<lambda>i. on_fproc i (sys_dup a0))),
      (48, on_cur cf (on_fsys (sys_fstat a0 a1))),
      (49, on_cur cf (on_fsys (sys_get_dentries a0 a1 a2))),
      (50, on_cur cf (on_fsys (sys_mkdir a0))),
      (51, on_cur cf (\<lambda>i. on_fproc i (sys_chdir a0))),
      (52, on_cur cf (\<lambda>_ k. Some (sys_print_cwd, k))),
      (53, on_cur cf (on_fsys (sys_link a0 a1))),
      (54, on_cur cf (on_fsys (sys_unlink a0)))])"

definition dispatch :: "kconf \<Rightarrow> usize \<Rightarrow> usize \<Rightarrow> regs \<Rightarrow> kernel \<Rightarrow> (outcome \<times> kernel) option" where
  "dispatch cf ch sys_ticks c k =
     (case map_of (memory_calls cf c @ block_calls cf c @ proc_calls cf ch sys_ticks c @ inode_calls cf c @ file_calls cf c) (c ''a7'') of
        Some call \<Rightarrow> call k
      | None \<Rightarrow> Some (Return usize_MAX, k))"


section \<open>Every call keeps the scheduler's invariant\<close>

lemma same_sched_put_kfs: "same_sched k (put_kfs s k)"
  by (simp add: same_sched_def put_kfs_def)

lemma on_cur_same:
  assumes "\<And>i k v k'. f i k = Some (v, k') \<Longrightarrow> same_sched k k'"
  shows "on_cur cf f k = Some (r, k') \<Longrightarrow> same_sched k k'"
  using assms by (auto simp: on_cur_def split: Option.bind_splits)

lemma call_parts_same:
  "on_uproc f i k = Some (v, k') \<Longrightarrow> same_sched k k'"
  "on_umem g i k = Some (v, k') \<Longrightarrow> same_sched k k'"
  "on_fsys h i k = Some (v, k') \<Longrightarrow> same_sched k k'"
  "on_disk d k = Some (r, k') \<Longrightarrow> same_sched k k'"
  "ret v k = Some (r, k') \<Longrightarrow> same_sched k k'"
  by (auto simp: on_uproc_def on_umem_def on_fsys_def on_disk_def ret_def put_kfs_def same_sched_def split: Option.bind_splits)

lemma on_cur_parts_same:
  "on_cur cf (on_uproc f) k = Some (r, k') \<Longrightarrow> same_sched k k'"
  "on_cur cf (on_umem g) k = Some (r, k') \<Longrightarrow> same_sched k k'"
  "on_cur cf (on_fsys h) k = Some (r, k') \<Longrightarrow> same_sched k k'"
  "on_cur cf (\<lambda>i. on_fproc i q) k = Some (r, k') \<Longrightarrow> same_sched k k'"
  "on_cur cf (\<lambda>_ k. Some (v, k)) k = Some (r, k') \<Longrightarrow> same_sched k k'"
  by (rule on_cur_same; force intro: call_parts_same on_fproc_same same_sched_refl)+

lemmas call_same = call_parts_same(4,5) on_cur_parts_same

text \<open>All calls but those on processes leave everything the scheduler looks at alone.\<close>

lemma plain_calls_same:
  assumes "(n, call) \<in> set (memory_calls cf c @ block_calls cf c @ inode_calls cf c @ file_calls cf c)" and "call k = Some (r, k')"
  shows "same_sched k k'"
proof -
  consider "(n, call) \<in> set (memory_calls cf c)" | "(n, call) \<in> set (block_calls cf c)" | "(n, call) \<in> set (inode_calls cf c)" | "(n, call) \<in> set (file_calls cf c)"
    using assms(1) by auto
  then show ?thesis
  proof cases
    case 1
    then show ?thesis using assms(2) by (auto simp: memory_calls_def Let_def elim: call_same)
  next
    case 2
    then show ?thesis using assms(2) by (auto simp: block_calls_def Let_def elim: call_same)
  next
    case 3
    then show ?thesis using assms(2) by (auto simp: inode_calls_def Let_def same_sched_refl elim: call_same)
  next
    case 4
    then show ?thesis using assms(2) by (auto simp: file_calls_def Let_def elim: call_same)
  qed
qed

lemma timer_wait_now: "timer_wait cf ch t n k = Some (woken, k') \<Longrightarrow> woken \<and> k' = k"
  by (auto simp: timer_wait_def sleep_stuck split: Option.bind_splits if_splits)

lemma proc_calls_inv:
  assumes "(n, call) \<in> set (proc_calls cf ch t c)" and "call k = Some (Return v, k')" and "sched_inv cf k" and "conf_ok cf"
  shows "sched_inv cf k'"
  using assms
  by (auto simp: proc_calls_def sys_sleep_def Let_def dest!: timer_wait_now dest: sys_fork_inv sys_wait_inv intro: same_sched_inv [OF sys_exec_same]
    split: Option.bind_splits option.splits if_splits)

lemma dispatch_inv:
  assumes "dispatch cf ch t c k = Some (Return v, k')" and "sched_inv cf k" and "conf_ok cf"
  shows "sched_inv cf k'"
proof (cases "map_of (memory_calls cf c @ block_calls cf c @ proc_calls cf ch t c @ inode_calls cf c @ file_calls cf c) (c ''a7'')")
  case None
  then show ?thesis using assms(1,2) unfolding dispatch_def by (simp only: option.case option.inject prod.inject)
next
  case (Some call)
  then have "call k = Some (Return v, k')" using assms(1) unfolding dispatch_def by (simp only: option.case)
  moreover have "(c ''a7'', call) \<in> set (memory_calls cf c @ block_calls cf c @ inode_calls cf c @ file_calls cf c) \<or> (c ''a7'', call) \<in> set (proc_calls cf ch t c)"
    using map_of_SomeD [OF Some] by auto
  ultimately show ?thesis using plain_calls_same same_sched_inv [OF _ assms(2)] proc_calls_inv [OF _ _ assms(2,3)] by blast
qed


text \<open>The only call that gives the processor away and returns from its own code is \<open>sys_exit\<close>: both ways to sleep get stuck before.\<close>

lemma plain_calls_return:
  assumes "(n, call) \<in> set (memory_calls cf c @ block_calls cf c @ inode_calls cf c @ file_calls cf c)"
  shows "call k \<noteq> Some (Away, k')"
proof -
  have r: "on_cur cf f k \<noteq> Some (Away, k')" "on_disk g k \<noteq> Some (Away, k')" "ret v k \<noteq> Some (Away, k')" for f g v
    by (auto simp: on_cur_def on_disk_def ret_def split: Option.bind_splits)
  show ?thesis using assms by (auto simp: memory_calls_def block_calls_def inode_calls_def file_calls_def Let_def r)
qed

lemma wait_returns: "sys_wait cf a k \<noteq> Some (None, k')"
  by (auto simp: sys_wait_def wait_round_blocks split: Option.bind_splits wait_outcome.splits if_splits)

lemma dispatch_away:
  assumes "dispatch cf ch t c k = Some (Away, k')"
  shows "c ''a7'' = 24 \<and> sys_exit cf (c ''a0'') k = Some k'"
proof (cases "map_of (memory_calls cf c @ block_calls cf c @ proc_calls cf ch t c @ inode_calls cf c @ file_calls cf c) (c ''a7'')")
  case None
  then show ?thesis using assms unfolding dispatch_def by (simp only: option.case option.inject prod.inject outcome.distinct simp_thms)
next
  case (Some call)
  then have r: "call k = Some (Away, k')" using assms unfolding dispatch_def by (simp only: option.case)
  have "(c ''a7'', call) \<in> set (memory_calls cf c @ block_calls cf c @ inode_calls cf c @ file_calls cf c) \<or> (c ''a7'', call) \<in> set (proc_calls cf ch t c)"
    using map_of_SomeD [OF Some] by auto
  then have "(c ''a7'', call) \<in> set (proc_calls cf ch t c)" using plain_calls_return r by blast
  then show ?thesis using r
    by (auto simp: proc_calls_def sys_sleep_def wait_returns Let_def dest!: timer_wait_now split: Option.bind_splits option.splits if_splits)
qed

text \<open>The numbers 1 to 54 are the calls; any other number returns \<open>usize::MAX\<close> and changes nothing.\<close>

lemma call_numbers:
  "set (map fst (memory_calls cf c @ block_calls cf c @ proc_calls cf ch t c @ inode_calls cf c @ file_calls cf c)) = {1..54}"
proof -
  have "map fst (memory_calls cf c @ block_calls cf c @ proc_calls cf ch t c @ inode_calls cf c @ file_calls cf c) =
      [1..<10] @ [11..<22] @ [10, 22, 23, 24, 25, 41] @ [26..<41] @ [42..<55]"
    unfolding memory_calls_def block_calls_def proc_calls_def inode_calls_def file_calls_def Let_def by (simp add: upt_rec)
  moreover have "set ([1..<10] @ [11..<22] @ [10, 22, 23, 24, 25, 41] @ [26..<41] @ [42..<55]) = {1..54 :: nat}" by (auto simp del: upt_rec_numeral)
  ultimately show ?thesis by metis
qed

lemma dispatch_unknown: "c ''a7'' \<notin> {1..54} \<Longrightarrow> dispatch cf ch t c k = Some (Return usize_MAX, k)"
proof -
  assume "c ''a7'' \<notin> {1..54}"
  then have "map_of (memory_calls cf c @ block_calls cf c @ proc_calls cf ch t c @ inode_calls cf c @ file_calls cf c) (c ''a7'') = None"
    unfolding map_of_eq_None_iff set_map [symmetric] call_numbers .
  then show ?thesis unfolding dispatch_def by (simp only: option.case)
qed

end
