(* ===== verification/Plic.thy ===== *)
theory Plic
  imports Vm
begin

unbundle bit_operations_syntax

text \<open>
  The interrupt controllers: the platform-level controller (\<open>irq/plic.rs\<close>) and the core-local one (\<open>irq/clint.rs\<close>), as
  functions on their memory-mapped registers. A register file maps an address to the 32-bit value that a read returns; the claim
  register, whose reads are answered by the device, enters as a register like the others. The base address is what the device tree gives;
  without one every access panics.
\<close>

type_synonym registers = "usize \<Rightarrow> 32 word"

section \<open>Registers of the PLIC\<close>

definition VIRTIO0_IRQ :: usize where "VIRTIO0_IRQ = 1"
definition UART_IRQ :: usize where "UART_IRQ = 10"

definition ctx_index_s :: "usize \<Rightarrow> usize" where "ctx_index_s hartid = hartid * 2 + 1"
definition ctx_index_m :: "usize \<Rightarrow> usize" where "ctx_index_m hartid = hartid * 2"

definition set_priority :: "usize \<Rightarrow> usize \<Rightarrow> usize \<Rightarrow> registers \<Rightarrow> registers" where
  "set_priority base irq priority r = r(base + irq * 4 := of_nat priority)"

definition get_priority :: "usize \<Rightarrow> usize \<Rightarrow> registers \<Rightarrow> usize" where
  "get_priority base irq r = unat (r (base + irq * 4))"

definition set_enable_m :: "usize \<Rightarrow> usize \<Rightarrow> usize \<Rightarrow> bool \<Rightarrow> registers \<Rightarrow> registers" where
  "set_enable_m base hartid irq enable r = (
     let addr = base + 0x2000 + hartid * 0x100; mask = push_bit (irq mod 32) 1 in
     if enable then r(addr := r addr OR mask) else r(addr := r addr AND NOT mask))"

definition get_enable_m :: "usize \<Rightarrow> usize \<Rightarrow> usize \<Rightarrow> registers \<Rightarrow> bool" where
  "get_enable_m base hartid irq r = (r (base + 0x2000 + hartid * 0x100) AND push_bit (irq mod 32) 1 \<noteq> 0)"

definition enable_addr :: "usize \<Rightarrow> usize \<Rightarrow> usize \<Rightarrow> usize" where
  "enable_addr base hartid irq = (
     let ctx = ctx_index_s hartid; word_index = (irq div 32) * 4
     in base + 0x2000 + ctx * 0x80 + word_index)"

definition set_enable_s :: "usize \<Rightarrow> usize \<Rightarrow> usize \<Rightarrow> bool \<Rightarrow> registers \<Rightarrow> registers" where
  "set_enable_s base hartid irq enable r = (
     let addr = enable_addr base hartid irq; b = push_bit (irq mod 32) 1; cur = r addr;
         new = (if enable then cur OR b else cur AND NOT b)
     in r(addr := new))"

definition get_enable_s :: "usize \<Rightarrow> usize \<Rightarrow> usize \<Rightarrow> registers \<Rightarrow> bool" where
  "get_enable_s base hartid irq r = (r (enable_addr base hartid irq) AND push_bit (irq mod 32) 1 \<noteq> 0)"

definition set_priority_m :: "usize \<Rightarrow> usize \<Rightarrow> usize \<Rightarrow> usize \<Rightarrow> registers \<Rightarrow> registers" where
  "set_priority_m base hartid irq priority r = r(base + 0x2000 + hartid * 0x100 + irq * 4 := of_nat priority)"

definition get_priority_m :: "usize \<Rightarrow> usize \<Rightarrow> usize \<Rightarrow> registers \<Rightarrow> usize" where
  "get_priority_m base hartid irq r = unat (r (base + 0x2000 + hartid * 0x100 + irq * 4))"

definition threshold_addr :: "usize \<Rightarrow> usize \<Rightarrow> usize" where
  "threshold_addr base hartid = base + 0x200000 + ctx_index_s hartid * 0x1000"

definition set_threshold_s :: "usize \<Rightarrow> usize \<Rightarrow> usize \<Rightarrow> registers \<Rightarrow> registers" where
  "set_threshold_s base hartid threshold r = r(threshold_addr base hartid := of_nat threshold)"

definition get_threshold_s :: "usize \<Rightarrow> usize \<Rightarrow> registers \<Rightarrow> usize" where
  "get_threshold_s base hartid r = unat (r (threshold_addr base hartid))"

definition set_claim_m :: "usize \<Rightarrow> usize \<Rightarrow> usize \<Rightarrow> registers \<Rightarrow> registers" where
  "set_claim_m base hartid irq r = r(base + 0x2004 + hartid * 0x100 := of_nat irq)"

definition get_claim_m :: "usize \<Rightarrow> usize \<Rightarrow> registers \<Rightarrow> usize" where
  "get_claim_m base hartid r = unat (r (base + 0x2004 + hartid * 0x100))"

definition claim_addr :: "usize \<Rightarrow> usize \<Rightarrow> usize" where
  "claim_addr base hartid = base + 0x200004 + ctx_index_s hartid * 0x1000"

definition set_claim_s :: "usize \<Rightarrow> usize \<Rightarrow> usize \<Rightarrow> registers \<Rightarrow> registers" where
  "set_claim_s base hartid irq r = r(claim_addr base hartid := of_nat irq)"

definition get_claim_s :: "usize \<Rightarrow> usize \<Rightarrow> registers \<Rightarrow> usize" where
  "get_claim_s base hartid r = unat (r (claim_addr base hartid))"

definition plic_claim :: "usize \<Rightarrow> usize \<Rightarrow> registers \<Rightarrow> usize" where
  "plic_claim base hartid r = get_claim_s base hartid r"

definition plic_complete :: "usize \<Rightarrow> usize \<Rightarrow> usize \<Rightarrow> registers \<Rightarrow> registers" where
  "plic_complete base hartid irq r = set_claim_s base hartid irq r"

definition plic_init :: "usize option \<Rightarrow> registers \<Rightarrow> registers option" where
  "plic_init base r = do {
     base \<leftarrow> base;
     Some (set_priority base VIRTIO0_IRQ 1 (set_priority base UART_IRQ 1 r))
   }"

definition plic_init_hart :: "usize option \<Rightarrow> usize \<Rightarrow> registers \<Rightarrow> registers option" where
  "plic_init_hart base hartid r = do {
     base \<leftarrow> base;
     let r = set_enable_s base hartid UART_IRQ True r;
     let r = set_enable_s base hartid VIRTIO0_IRQ True r;
     Some (set_threshold_s base hartid 0 r)
   }"

section \<open>Registers of the CLINT\<close>

text \<open>Here a register is as wide as the access: \<open>msip\<close> has 32 bits, the timers have 64.\<close>

definition CLINT_BASE :: usize where "CLINT_BASE = 0x02000000"

definition set_msip :: "usize \<Rightarrow> (usize \<Rightarrow> nat) \<Rightarrow> usize \<Rightarrow> nat" where
  "set_msip hartid r = r(CLINT_BASE + hartid * 0x4 := 1)"

definition get_msip :: "usize \<Rightarrow> (usize \<Rightarrow> nat) \<Rightarrow> usize" where
  "get_msip hartid r = r (CLINT_BASE + hartid * 0x4) mod 2 ^ 32"

definition set_mtime :: "(usize \<Rightarrow> nat) \<Rightarrow> usize \<times> (usize \<Rightarrow> nat)" where
  "set_mtime r = (0, r(CLINT_BASE + 0xBFF8 := 0))"

definition get_mtime :: "(usize \<Rightarrow> nat) \<Rightarrow> usize" where
  "get_mtime r = r (CLINT_BASE + 0xBFF8) mod 2 ^ 64"

definition set_mtimecmp :: "usize \<Rightarrow> usize \<Rightarrow> (usize \<Rightarrow> nat) \<Rightarrow> usize \<Rightarrow> nat" where
  "set_mtimecmp hartid time r = r(CLINT_BASE + 0x4000 + hartid * 0x8 := time)"

definition get_mtimecmp :: "usize \<Rightarrow> (usize \<Rightarrow> nat) \<Rightarrow> usize" where
  "get_mtimecmp hartid r = r (CLINT_BASE + 0x4000 + hartid * 0x8) mod 2 ^ 64"

section \<open>Enabling\<close>

lemma and_one_bit:
  assumes "n < 32"
  shows "(w :: 32 word) AND push_bit n 1 \<noteq> 0 \<longleftrightarrow> bit w n"
proof -
  have "w AND push_bit n 1 = (if bit w n then push_bit n 1 else 0)"
    by (rule bit_word_eqI) (auto simp: bit_and_iff bit_exp_iff)
  moreover have "(push_bit n 1 :: 32 word) \<noteq> 0" using assms by (auto simp: bit_eq_iff bit_exp_iff)
  ultimately show ?thesis by simp
qed

text \<open>Two sources of two harts share an enable register and a bit only when they are the same.\<close>

lemma enable_addr_inj:
  assumes "irq < 1024" "irq' < 1024" "enable_addr base hartid irq = enable_addr base hartid' irq'"
  shows "hartid = hartid' \<and> irq div 32 = irq' div 32"
proof -
  have "(hartid * 2 + 1) * 0x80 + irq div 32 * 4 = (hartid' * 2 + 1) * 0x80 + irq' div 32 * 4"
    using assms(3) by (simp add: enable_addr_def ctx_index_s_def)
  then have e: "hartid * 256 + irq div 32 * 4 = hartid' * 256 + irq' div 32 * 4" by simp
  moreover have "irq div 32 < 32" "irq' div 32 < 32" using assms(1,2) by simp_all
  ultimately have "hartid = hartid'" by linarith
  then show ?thesis using e by simp
qed

lemma bit_one_32: "n < 32 \<Longrightarrow> bit (push_bit n 1 :: 32 word) m \<longleftrightarrow> m = n"
  by (auto simp: bit_exp_iff)

lemma set_bit_32:
  assumes "n < 32" "m < 32"
  shows "bit (if b then (w :: 32 word) OR push_bit n 1 else w AND NOT (push_bit n 1)) m \<longleftrightarrow> (if m = n then b else bit w m)"
  using assms(2) unfolding bit_or_iff bit_and_iff bit_not_iff if_distrib [of "\<lambda>w. bit w m"] bit_one_32 [OF assms(1)] by auto

lemma get_enable_bit: "get_enable_s base hartid irq r \<longleftrightarrow> bit (r (enable_addr base hartid irq)) (irq mod 32)"
  unfolding get_enable_s_def by (rule and_one_bit) simp

lemma set_enable_s_get:
  assumes "irq < 1024" "irq' < 1024"
  shows "get_enable_s base hartid' irq' (set_enable_s base hartid irq enable r) =
    (if hartid' = hartid \<and> irq' = irq then enable else get_enable_s base hartid' irq' r)"
proof (cases "enable_addr base hartid irq = enable_addr base hartid' irq'")
  case True
  then have e: "hartid = hartid'" "irq div 32 = irq' div 32" using enable_addr_inj [OF assms] by blast+
  have m: "irq' mod 32 = irq mod 32 \<longleftrightarrow> irq' = irq" using e(2) by (metis div_mult_mod_eq)
  have "set_enable_s base hartid irq enable r (enable_addr base hartid' irq') =
      (if enable then r (enable_addr base hartid' irq') OR push_bit (irq mod 32) 1 else r (enable_addr base hartid' irq') AND NOT (push_bit (irq mod 32) 1))"
    using True by (simp add: set_enable_s_def Let_def)
  moreover have "irq mod 32 < 32" "irq' mod 32 < 32" by simp_all
  ultimately show ?thesis unfolding get_enable_bit using e(1) m by (simp only: set_bit_32 simp_thms)
next
  case False
  then have "set_enable_s base hartid irq enable r (enable_addr base hartid' irq') = r (enable_addr base hartid' irq')" by (simp add: set_enable_s_def Let_def)
  then show ?thesis using False by (auto simp: get_enable_bit)
qed

definition MAX_HARTS :: usize where "MAX_HARTS = 8"

text \<open>Every supervisor register of a hart, and where it lies: priorities below the enable bits, those below the contexts.\<close>

lemma plic_addresses:
  assumes "hartid < MAX_HARTS" "irq < 1024"
  shows "base + irq * 4 < base + 0x2000" "base + 0x2000 \<le> enable_addr base hartid irq" "enable_addr base hartid irq + 4 \<le> base + 0x3000"
    "base + 0x200000 \<le> threshold_addr base h" "base + 0x200000 \<le> claim_addr base h"
  using assms by (auto simp: enable_addr_def threshold_addr_def claim_addr_def ctx_index_s_def Let_def MAX_HARTS_def)



text \<open>The registers lie in the two ranges that the kernel's page table maps for the controller.\<close>

lemma plic_mapped:
  assumes "hartid < harts" and "harts \<le> MAX_HARTS" and "irq < 1024"
  shows "base \<le> base + irq * 4 \<and> base + irq * 4 + 4 \<le> base + 0x3000"
    and "base \<le> enable_addr base hartid irq \<and> enable_addr base hartid irq + 4 \<le> base + 0x3000"
    and "base + 0x200000 \<le> threshold_addr base hartid \<and> threshold_addr base hartid + 4 \<le> base + 0x200000 + ((harts - 1) * 2 + 1 + 1) * 0x1000"
    and "base + 0x200000 \<le> claim_addr base hartid \<and> claim_addr base hartid + 4 \<le> base + 0x200000 + ((harts - 1) * 2 + 1 + 1) * 0x1000"
  using assms by (auto simp: enable_addr_def threshold_addr_def claim_addr_def ctx_index_s_def Let_def MAX_HARTS_def)

end
