(* ===== verification/Mkfs.thy ===== *)
theory Mkfs
  imports Ucopy Path
begin

unbundle bit_operations_syntax

text \<open>
  The image of the disk that \<open>mkfs\<close> of the build tool writes (\<open>xtask/src/main.rs\<close>). The image is a function from byte
  positions to bytes, all zero when the file is created; the rich variant adds a root directory, two text files and the
  program \<open>hello\<close>, whose content and the choice of the variant are parameters.

  The lemmas read the image with the definitions of the kernel's file system: the superblock is accepted, every name of the
  root directory resolves, and the files have the content they were given.
\<close>

section \<open>Operations\<close>

definition N_INODES :: usize where "N_INODES = 200"
definition N_DATA_BLOCKS :: usize where "N_DATA_BLOCKS = 1000"
definition IPB :: usize where "IPB = BLOCK_SIZE div 64"
definition inode_blocks :: usize where "inode_blocks = (N_INODES + IPB - 1) div IPB"
definition total_blocks :: usize where "total_blocks = 1 + 1 + inode_blocks + 1 + N_DATA_BLOCKS"
definition inode_region_start :: usize where "inode_region_start = 1 + 1"
definition data_bitmap_start :: usize where "data_bitmap_start = inode_region_start + inode_blocks"

definition mkfs_superblock :: "u8 list" where
  "mkfs_superblock = le_bytes 4 MAGIC @ le_bytes 4 total_blocks @ le_bytes 4 N_DATA_BLOCKS @ le_bytes 4 N_INODES @
     le_bytes 4 inode_region_start @ le_bytes 4 data_bitmap_start @ replicate (BLOCK_SIZE - 24) 0"

definition write_block :: "nat \<Rightarrow> u8 list \<Rightarrow> ram \<Rightarrow> ram option" where
  "write_block blk data img = (if length data \<noteq> BLOCK_SIZE then None else Some (store img (blk * BLOCK_SIZE) data))"

fun set_bits :: "nat list \<Rightarrow> u8 list \<Rightarrow> u8 list option" where
  "set_bits [] bm = Some bm"
| "set_bits (i # is) bm =
     (if i div 8 < length bm then set_bits is (bm[i div 8 := bm ! (i div 8) OR bit_mask (i mod 8)]) else None)"

definition put_inode :: "u8 list \<Rightarrow> nat \<Rightarrow> u16 \<Rightarrow> u16 \<Rightarrow> u16 \<Rightarrow> u16 \<Rightarrow> u32 \<Rightarrow> u32 list \<Rightarrow> u8 list" where
  "put_inode buf slot typ major minor nlink sz indices =
     write_at buf (slot * 64) (le_bytes 2 typ @ le_bytes 2 major @ le_bytes 2 minor @ le_bytes 2 nlink @ le_bytes 4 sz @
       concat (map (\<lambda>i. le_bytes 4 (if i < length indices then indices ! i else 0)) [0..<13]))"

definition put_dentry :: "u8 list \<Rightarrow> nat \<Rightarrow> u8 list \<Rightarrow> u32 \<Rightarrow> u8 list" where
  "put_dentry buf slot name inum =
     write_at (write_at buf (slot * 64) (take (min (length name) 60) name)) (slot * 64 + 60) (le_bytes 4 inum)"

text \<open>The names of the entries of the root directory, in ASCII.\<close>

definition n_ABCD :: "u8 list" where "n_ABCD = [65, 66, 67, 68, 46, 116, 120, 116]"
definition n_abcd :: "u8 list" where "n_abcd = [97, 98, 99, 100, 46, 116, 120, 116]"
definition n_hello :: "u8 list" where "n_hello = [104, 101, 108, 108, 111]"

definition mkfs_dir :: "u8 list" where
  "mkfs_dir = put_dentry (put_dentry (put_dentry (put_dentry (put_dentry (replicate BLOCK_SIZE 0)
     0 [46] ROOT_INODE) 1 [46, 46] ROOT_INODE) 2 n_ABCD 1) 3 n_abcd 2) 4 n_hello 3"

definition letters :: "nat \<Rightarrow> u8 list" where
  "letters a = map (\<lambda>i. of_nat (a + i mod 26)) [0..<BLOCK_SIZE]"

definition elf_blocks :: "u8 list \<Rightarrow> nat" where
  "elf_blocks elf = (length elf + BLOCK_SIZE - 1) div BLOCK_SIZE"

definition hello_start_block :: usize where "hello_start_block = data_bitmap_start + 4"

definition hello_indirect_block :: "u8 list \<Rightarrow> usize" where
  "hello_indirect_block elf = (if 10 < elf_blocks elf then data_bitmap_start + (4 + elf_blocks elf) else 0)"

definition total_data_blocks :: "u8 list \<Rightarrow> usize" where
  "total_data_blocks elf = (if 10 < elf_blocks elf then 4 + elf_blocks elf + 1 else 4 + elf_blocks elf)"

definition hello_indices :: "u8 list \<Rightarrow> u32 list" where
  "hello_indices elf = map (\<lambda>i. hello_start_block + i) [0..<min (elf_blocks elf) 10] @
     (if hello_indirect_block elf \<noteq> 0 then [hello_indirect_block elf] else [])"

definition mkfs_inodes :: "u8 list \<Rightarrow> u8 list" where
  "mkfs_inodes elf = (
     let data_start = data_bitmap_start + 1 in
     put_inode (put_inode (put_inode (put_inode (replicate BLOCK_SIZE 0)
       0 1 0 0 1 (5 * 64) [data_start])
       1 2 0 0 1 BLOCK_SIZE [data_start + 1])
       2 2 0 0 1 BLOCK_SIZE [data_start + 2])
       3 2 0 0 1 (length elf) (hello_indices elf))"

definition hello_block :: "u8 list \<Rightarrow> nat \<Rightarrow> u8 list" where
  "hello_block elf i = (
     let chunk = take BLOCK_SIZE (drop (i * BLOCK_SIZE) elf)
     in chunk @ replicate (BLOCK_SIZE - length chunk) 0)"

fun write_hello :: "u8 list \<Rightarrow> nat list \<Rightarrow> ram \<Rightarrow> ram option" where
  "write_hello elf [] img = Some img"
| "write_hello elf (i # is) img = do {
     img \<leftarrow> write_block (hello_start_block + i) (hello_block elf i) img;
     let img = (if i < 10 then img
                else store img (hello_indirect_block elf * BLOCK_SIZE + (i - 10) * 4) (le_bytes 4 (hello_start_block + i)));
     write_hello elf is img
   }"

definition mkfs_rich :: "u8 list \<Rightarrow> ram \<Rightarrow> ram option" where
  "mkfs_rich elf img = do {
     ibmap \<leftarrow> set_bits [0..<4] (replicate BLOCK_SIZE 0);
     img \<leftarrow> write_block 1 ibmap img;
     dbmap \<leftarrow> set_bits [0..<total_data_blocks elf] (replicate BLOCK_SIZE 0);
     img \<leftarrow> write_block data_bitmap_start dbmap img;
     img \<leftarrow> write_block inode_region_start (mkfs_inodes elf) img;
     img \<leftarrow> write_block (data_bitmap_start + 1) mkfs_dir img;
     img \<leftarrow> write_block (data_bitmap_start + 2) (letters 65) img;
     img \<leftarrow> write_block (data_bitmap_start + 3) (letters 97) img;
     write_hello elf [0..<elf_blocks elf] img
   }"

definition mkfs :: "bool \<Rightarrow> u8 list \<Rightarrow> ram option" where
  "mkfs rich elf = do {
     img \<leftarrow> write_block 0 mkfs_superblock (\<lambda>_. 0);
     (if rich then mkfs_rich elf img else Some img)
   }"

section \<open>Blocks of an image\<close>

text \<open>The image as the device presents it to the kernel, and the content of one block.\<close>

definition image_disk :: "ram \<Rightarrow> u32 \<Rightarrow> block" where
  "image_disk img b = (\<lambda>k. img (b * BLOCK_SIZE + k))"

definition blk :: "ram \<Rightarrow> nat \<Rightarrow> u8 list" where
  "blk img b = load img (b * BLOCK_SIZE) BLOCK_SIZE"

lemma length_blk [simp]: "length (blk img b) = BLOCK_SIZE"
  by (simp add: blk_def)

lemma load_image_disk: "off + n \<le> BLOCK_SIZE \<Longrightarrow> load (image_disk img b) off n = take n (drop off (blk img b))"
  by (rule nth_equalityI) (auto simp: image_disk_def blk_def add.assoc)

lemma image_disk_nth: "k < BLOCK_SIZE \<Longrightarrow> image_disk img b k = blk img b ! k"
  by (simp add: image_disk_def blk_def)

lemma block_apart: "b \<noteq> c \<Longrightarrow> b * BLOCK_SIZE + BLOCK_SIZE \<le> c * BLOCK_SIZE \<or> c * BLOCK_SIZE + BLOCK_SIZE \<le> b * BLOCK_SIZE"
proof -
  assume "b \<noteq> c"
  then have "Suc b \<le> c \<or> Suc c \<le> b" by auto
  then have "Suc b * BLOCK_SIZE \<le> c * BLOCK_SIZE \<or> Suc c * BLOCK_SIZE \<le> b * BLOCK_SIZE" using mult_le_mono1 by blast
  then show ?thesis by (simp add: add.commute)
qed

lemma blk_store: "length data = BLOCK_SIZE \<Longrightarrow> blk (store img (b * BLOCK_SIZE) data) c = (if c = b then data else blk img c)"
  using load_store_same [of img "b * BLOCK_SIZE" data] block_apart [of b c] load_store_disjoint [of "c * BLOCK_SIZE" BLOCK_SIZE "b * BLOCK_SIZE" data img]
  by (auto simp: blk_def)

lemma blk_write: "write_block b data img = Some img' \<longleftrightarrow> length data = BLOCK_SIZE \<and> img' = store img (b * BLOCK_SIZE) data"
  by (auto simp: write_block_def)

lemma blk_store_inside:
  assumes "off + length bs \<le> BLOCK_SIZE"
  shows "blk (store img (b * BLOCK_SIZE + off) bs) c = (if c = b then write_at (blk img b) off bs else blk img c)"
proof (cases "c = b")
  case True
  then show ?thesis using assms
    by (auto simp: blk_def write_at_def store_def nth_append min_def intro!: nth_equalityI)
next
  case False
  then show ?thesis using block_apart [of b c] assms by (auto simp: blk_def intro!: load_store_disjoint)
qed

lemma take_drop_write_at:
  "i + length bs \<le> length dst \<Longrightarrow> take (length bs) (drop i (write_at dst i bs)) = bs"
  by (simp add: write_at_def)

lemma take_drop_write_at_other:
  assumes "i + length bs \<le> length dst" "a + n \<le> i \<or> i + length bs \<le> a"
  shows "take n (drop a (write_at dst i bs)) = take n (drop a dst)"
proof (rule nth_equalityI)
  show "length (take n (drop a (write_at dst i bs))) = length (take n (drop a dst))" using assms(1) by simp
  fix k assume "k < length (take n (drop a (write_at dst i bs)))"
  then have "k < n" "a + k < length dst" using assms(1) by auto
  moreover from this have "\<not> (i \<le> a + k \<and> a + k < i + length bs)" using assms(2) by linarith
  ultimately show "take n (drop a (write_at dst i bs)) ! k = take n (drop a dst) ! k"
    using assms(1) by (auto simp: nth_write_at)
qed

lemma blk_take_drop_store:
  assumes "off + length bs \<le> BLOCK_SIZE"
  shows "take (length bs) (drop off (blk (store img (b * BLOCK_SIZE + off) bs) b)) = bs"
  using blk_store_inside [OF assms, of img b b] take_drop_write_at [of off bs "blk img b"] assms by simp

section \<open>The bitmaps\<close>

lemma set_bits_spec:
  assumes "\<forall>i \<in> set is. i < 8 * length bm"
  shows "\<exists>bm'. set_bits is bm = Some bm' \<and> length bm' = length bm \<and>
    (\<forall>k < 8 * length bm. bit (bm' ! (k div 8)) (k mod 8) \<longleftrightarrow> k \<in> set is \<or> bit (bm ! (k div 8)) (k mod 8))"
  using assms
proof (induction "is" arbitrary: bm)
  case (Cons i "is")
  let ?bm = "bm[i div 8 := bm ! (i div 8) OR bit_mask (i mod 8)]"
  have i: "i div 8 < length bm" using Cons.prems by auto
  have "bit (?bm ! (k div 8)) (k mod 8) \<longleftrightarrow> k = i \<or> bit (bm ! (k div 8)) (k mod 8)" if "k < 8 * length bm" for k
  proof (cases "k div 8 = i div 8")
    case True
    have "k mod 8 = i mod 8 \<longleftrightarrow> k = i" using True by (metis div_mult_mod_eq)
    then show ?thesis using True i by (auto simp: bit_or_iff bit_bit_mask)
  next
    case False
    then show ?thesis by auto
  qed
  moreover obtain bm' where "set_bits is ?bm = Some bm'" "length bm' = length ?bm"
    "\<forall>k < 8 * length ?bm. bit (bm' ! (k div 8)) (k mod 8) \<longleftrightarrow> k \<in> set is \<or> bit (?bm ! (k div 8)) (k mod 8)"
    using Cons.IH [of ?bm] Cons.prems by force
  ultimately have "\<forall>k < 8 * length bm. bit (bm' ! (k div 8)) (k mod 8) \<longleftrightarrow> k \<in> set (i # is) \<or> bit (bm ! (k div 8)) (k mod 8)"
    "set_bits (i # is) bm = Some bm'" "length bm' = length bm"
    using i by (simp_all add: disj_ac)
  then show ?case by blast
qed simp

lemma set_bits_block:
  assumes "n \<le> 8 * BLOCK_SIZE"
  shows "\<exists>bm. set_bits [0..<n] (replicate BLOCK_SIZE 0) = Some bm \<and> length bm = BLOCK_SIZE \<and>
    (\<forall>k < 8 * BLOCK_SIZE. bit (bm ! (k div 8)) (k mod 8) \<longleftrightarrow> k < n)"
proof -
  have "\<forall>i \<in> set [0..<n]. i < 8 * length (replicate BLOCK_SIZE (0 :: u8))" using assms by simp
  from set_bits_spec [OF this] obtain bm where bm: "set_bits [0..<n] (replicate BLOCK_SIZE 0) = Some bm" "length bm = BLOCK_SIZE"
    "\<forall>k < 8 * BLOCK_SIZE. bit (bm ! (k div 8)) (k mod 8) \<longleftrightarrow> k < n \<or> bit (replicate BLOCK_SIZE (0 :: u8) ! (k div 8)) (k mod 8)"
    by auto
  moreover have "\<not> bit (replicate BLOCK_SIZE (0 :: u8) ! (k div 8)) (k mod 8)" if "k < 8 * BLOCK_SIZE" for k
    using that by (simp add: less_mult_imp_div_less mult.commute)
  ultimately show ?thesis by blast
qed

section \<open>Inodes and directory entries\<close>

definition mkfs_inode :: "u16 \<Rightarrow> u32 \<Rightarrow> u32 list \<Rightarrow> inode_disk" where
  "mkfs_inode typ sz indices = \<lparr>id_type = typ, id_major = 0, id_minor = 0, id_nlink = 1, id_size = sz,
     id_index = map (\<lambda>i. if i < length indices then indices ! i else 0) [0..<13]\<rparr>"

lemma put_inode_encode: "put_inode buf slot typ 0 0 1 sz indices = write_at buf (slot * 64) (encode_inode (mkfs_inode typ sz indices))"
  by (simp add: put_inode_def encode_inode_def mkfs_inode_def comp_def del: le_bytes.simps upt_rec_numeral)

lemma length_mkfs_inode [simp]: "length (encode_inode (mkfs_inode typ sz indices)) = 64"
  using length_encode [of "mkfs_inode typ sz indices"] by (simp add: mkfs_inode_def INODE_INDEX_3_def SIZE_INODE_DISK_def)

lemma length_put_inode [simp]: "slot * 64 + 64 \<le> length buf \<Longrightarrow> length (put_inode buf slot typ 0 0 1 sz indices) = length buf"
  unfolding put_inode_encode by simp

lemma slot_put_inode:
  assumes "slot * 64 + 64 \<le> length buf"
  shows "take 64 (drop (k * 64) (put_inode buf slot typ 0 0 1 sz indices)) =
    (if k = slot then encode_inode (mkfs_inode typ sz indices) else take 64 (drop (k * 64) buf))"
proof -
  have "k \<noteq> slot \<Longrightarrow> k * 64 + 64 \<le> slot * 64 \<or> slot * 64 + 64 \<le> k * 64" by auto
  then show ?thesis
    using assms take_drop_write_at [of "slot * 64" "encode_inode (mkfs_inode typ sz indices)" buf]
      take_drop_write_at_other [of "slot * 64" "encode_inode (mkfs_inode typ sz indices)" buf "k * 64" 64]
    unfolding put_inode_encode by simp
qed

definition mkfs_entry :: "u8 list \<Rightarrow> u32 \<Rightarrow> dentry_disk" where
  "mkfs_entry name inum = \<lparr>de_name = new_name name, de_inum = inum\<rparr>"

lemma length_put_dentry [simp]:
  "slot * 64 + 64 \<le> length buf \<Longrightarrow> length (put_dentry buf slot name inum) = length buf"
  by (simp add: put_dentry_def del: le_bytes.simps)

lemma length_mkfs_entry [simp]: "length (encode_dentry (mkfs_entry name inum)) = 64"
  by (simp add: encode_dentry_def mkfs_entry_def MAXLEN_FILENAME_def del: le_bytes.simps)

lemma slot_put_dentry_other:
  assumes "slot * 64 + 64 \<le> length buf" and "k \<noteq> slot"
  shows "take 64 (drop (k * 64) (put_dentry buf slot name inum)) = take 64 (drop (k * 64) buf)"
proof -
  have a: "k * 64 + 64 \<le> slot * 64 \<or> slot * 64 + 64 \<le> k * 64" using assms(2) by auto
  have l: "length (take (min (length name) 60) name) \<le> 60" by simp
  let ?buf = "write_at buf (slot * 64) (take (min (length name) 60) name)"
  have "take 64 (drop (k * 64) ?buf) = take 64 (drop (k * 64) buf)"
    by (rule take_drop_write_at_other) (use a l assms(1) in auto)
  moreover have "take 64 (drop (k * 64) (write_at ?buf (slot * 64 + 60) (le_bytes 4 inum))) = take 64 (drop (k * 64) ?buf)"
    by (rule take_drop_write_at_other) (use a l assms(1) in \<open>auto simp del: le_bytes.simps\<close>)
  ultimately show ?thesis unfolding put_dentry_def by simp
qed

lemma slot_put_dentry:
  assumes "slot * 64 + 64 \<le> length buf" and "take 64 (drop (slot * 64) buf) = replicate 64 0"
  shows "take 64 (drop (slot * 64) (put_dentry buf slot name inum)) = encode_dentry (mkfs_entry name inum)"
proof (rule nth_equalityI)
  show "length (take 64 (drop (slot * 64) (put_dentry buf slot name inum))) = length (encode_dentry (mkfs_entry name inum))"
    using assms(1) by simp
  fix k assume "k < length (take 64 (drop (slot * 64) (put_dentry buf slot name inum)))"
  then have k: "k < 64" by simp
  have z: "buf ! (slot * 64 + k) = 0" if "k < 64" for k using arg_cong [OF assms(2), of "\<lambda>xs. xs ! k"] that assms(1) by simp
  have "put_dentry buf slot name inum ! (slot * 64 + k) = encode_dentry (mkfs_entry name inum) ! k"
  proof (cases "k < 60")
    case True
    then show ?thesis using z [OF k] assms(1)
      by (auto simp: put_dentry_def nth_write_at encode_dentry_def mkfs_entry_def nth_append nth_new_name MAXLEN_FILENAME_def simp del: le_bytes.simps)
  next
    case False
    then show ?thesis using k assms(1)
      by (simp add: put_dentry_def nth_write_at encode_dentry_def mkfs_entry_def nth_append MAXLEN_FILENAME_def del: le_bytes.simps)
  qed
  then show "take 64 (drop (slot * 64) (put_dentry buf slot name inum)) ! k = encode_dentry (mkfs_entry name inum) ! k"
    using k assms(1) by simp
qed


section \<open>The root directory\<close>

lemma mkfs_layout [simp]:
  "inode_blocks = 4" "total_blocks = 1007" "inode_region_start = 2" "data_bitmap_start = 6" "hello_start_block = 10"
  by (simp_all add: inode_blocks_def IPB_def N_INODES_def BLOCK_SIZE_def total_blocks_def N_DATA_BLOCKS_def inode_region_start_def
        data_bitmap_start_def hello_start_block_def)

lemma length_mkfs_dir [simp]: "length mkfs_dir = BLOCK_SIZE"
  by (simp add: mkfs_dir_def BLOCK_SIZE_def)

text \<open>The contents of a slot of 64 bytes in a block of inodes or of directory entries.\<close>

definition slot64 :: "u8 list \<Rightarrow> nat \<Rightarrow> u8 list" where
  "slot64 buf k = take 64 (drop (k * 64) buf)"

lemma slot64_zero: "k * 64 + 64 \<le> n \<Longrightarrow> slot64 (replicate n 0) k = replicate 64 0"
  by (simp add: slot64_def)

lemma slot64_put_dentry:
  assumes "slot * 64 + 64 \<le> length buf"
  shows "k \<noteq> slot \<Longrightarrow> slot64 (put_dentry buf slot name inum) k = slot64 buf k"
    "slot64 buf slot = replicate 64 0 \<Longrightarrow> slot64 (put_dentry buf slot name inum) slot = encode_dentry (mkfs_entry name inum)"
  using slot_put_dentry [OF assms] slot_put_dentry_other [OF assms] by (simp_all add: slot64_def)

lemma slot64_put_inode:
  assumes "slot * 64 + 64 \<le> length buf"
  shows "slot64 (put_inode buf slot typ 0 0 1 sz indices) k = (if k = slot then encode_inode (mkfs_inode typ sz indices) else slot64 buf k)"
  using slot_put_inode [OF assms] by (simp add: slot64_def)

lemma mkfs_dir_entry:
  "k < 5 \<Longrightarrow> slot64 mkfs_dir k = encode_dentry (mkfs_entry ([[46], [46, 46], n_ABCD, n_abcd, n_hello] ! k) ([0, 0, 1, 2, 3] ! k))"
proof -
  assume "k < 5"
  then consider "k = 0" | "k = 1" | "k = 2" | "k = 3" | "k = 4" by linarith
  then show ?thesis
    by cases (simp_all add: mkfs_dir_def BLOCK_SIZE_def ROOT_INODE_def slot64_put_dentry slot64_zero)
qed

lemma mkfs_inode_slots:
  "length (mkfs_inodes elf) = BLOCK_SIZE"
  "slot64 (mkfs_inodes elf) 0 = encode_inode (mkfs_inode 1 (5 * 64) [7])"
  "slot64 (mkfs_inodes elf) 1 = encode_inode (mkfs_inode 2 BLOCK_SIZE [8])"
  "slot64 (mkfs_inodes elf) 2 = encode_inode (mkfs_inode 2 BLOCK_SIZE [9])"
  "slot64 (mkfs_inodes elf) 3 = encode_inode (mkfs_inode 2 (length elf) (hello_indices elf))"
  using slot64_put_inode [unfolded One_nat_def] length_put_inode [unfolded One_nat_def] by (simp_all add: mkfs_inodes_def BLOCK_SIZE_def Let_def)

text \<open>A name of at most sixty bytes, none of them zero, can be read back from its field.\<close>

lemma new_name_read: "length n \<le> MAXLEN_FILENAME \<Longrightarrow> 0 \<notin> set n \<Longrightarrow> takeWhile (\<lambda>c. c \<noteq> 0) (new_name n) = n"
proof -
  assume a: "length n \<le> MAXLEN_FILENAME" "0 \<notin> set n"
  have "new_name n = n @ replicate (MAXLEN_FILENAME - length n) 0"
    by (rule nth_equalityI) (use a(1) in \<open>auto simp: nth_new_name nth_append\<close>)
  moreover have "\<forall>c \<in> set n. c \<noteq> 0" using a(2) by auto
  ultimately show ?thesis by (simp add: takeWhile_append2 takeWhile_replicate)
qed

lemma new_name_inj:
  assumes "length n \<le> MAXLEN_FILENAME" "0 \<notin> set n" "length m \<le> MAXLEN_FILENAME" "0 \<notin> set m"
  shows "new_name n = new_name m \<longleftrightarrow> n = m"
  using new_name_read [OF assms(1,2)] new_name_read [OF assms(3,4)] by metis

lemma entry_is_mkfs:
  assumes "length n \<le> MAXLEN_FILENAME" "0 \<notin> set n" "n \<noteq> []" "length m \<le> MAXLEN_FILENAME" "0 \<notin> set m"
  shows "entry_is n (mkfs_entry m i) \<longleftrightarrow> n = m"
proof -
  have "n ! 0 \<noteq> 0" using assms(2,3) by (metis length_greater_0_conv nth_mem)
  then show ?thesis using new_name_inj [OF assms(1,2,4,5)] assms(3)
    by (auto simp: entry_is_def mkfs_entry_def name_match_iff nth_new_name MAXLEN_FILENAME_def)
qed

section \<open>The blocks of hello\<close>

lemma length_hello_block [simp]: "length (hello_block elf i) = BLOCK_SIZE"
  by (simp add: hello_block_def Let_def)

lemma hello_block_nth:
  assumes "k < length elf"
  shows "k div BLOCK_SIZE < elf_blocks elf" "hello_block elf (k div BLOCK_SIZE) ! (k mod BLOCK_SIZE) = elf ! k"
proof -
  have p: "0 < BLOCK_SIZE" by (simp add: BLOCK_SIZE_def)
  show "k div BLOCK_SIZE < elf_blocks elf" using assms
    by (simp add: elf_blocks_def BLOCK_SIZE_def)
  have e: "k div BLOCK_SIZE * BLOCK_SIZE + k mod BLOCK_SIZE = k" by simp
  have m: "k mod BLOCK_SIZE < BLOCK_SIZE" "k mod BLOCK_SIZE < length elf - k div BLOCK_SIZE * BLOCK_SIZE" using p assms e by (simp, linarith)
  then have "k div BLOCK_SIZE * BLOCK_SIZE \<le> length elf" by linarith
  then show "hello_block elf (k div BLOCK_SIZE) ! (k mod BLOCK_SIZE) = elf ! k"
    using m by (simp add: hello_block_def Let_def nth_append)
qed

lemma write_hello_append: "write_hello elf (is @ js) img = Option.bind (write_hello elf is img) (write_hello elf js)"
  by (induction "is" arbitrary: img) (auto simp: Let_def split: bind_splits)

text \<open>After the first \<open>n\<close> rounds the blocks of the program are in place, the entries of the indirect block point to those past the
  tenth, and every other block is as it was.\<close>

definition hello_written :: "u8 list \<Rightarrow> nat \<Rightarrow> ram \<Rightarrow> ram \<Rightarrow> bool" where
  "hello_written elf n img img' \<longleftrightarrow>
     (\<forall>i < n. blk img' (10 + i) = hello_block elf i) \<and>
     (\<forall>i < n. 10 \<le> i \<longrightarrow> take 4 (drop ((i - 10) * 4) (blk img' (hello_indirect_block elf))) = le_bytes 4 (10 + i)) \<and>
     (\<forall>b < 10. blk img' b = blk img b)"

lemma hello_written_direct:
  assumes "hello_written elf n img img'" "n < elf_blocks elf" "n < 10" 
  shows "hello_written elf (Suc n) img (store img' ((10 + n) * BLOCK_SIZE) (hello_block elf n))"
  using assms by (auto simp: hello_written_def blk_store less_Suc_eq)


lemma hello_written_indirect:
  assumes w: "hello_written elf n img img'" and n: "n < elf_blocks elf" "10 \<le> n" "elf_blocks elf \<le> 996"
  defines "img1 \<equiv> store img' ((10 + n) * BLOCK_SIZE) (hello_block elf n)"
  shows "hello_written elf (Suc n) img (store img1 (hello_indirect_block elf * BLOCK_SIZE + (n - 10) * 4) (le_bytes 4 (10 + n)))"
proof -
  let ?h = "hello_indirect_block elf"
  have h: "?h = 10 + elf_blocks elf" using n(1,2) by (simp add: hello_indirect_block_def)
  have o: "(n - 10) * 4 + length (le_bytes 4 (10 + n)) \<le> BLOCK_SIZE" using n by (simp add: BLOCK_SIZE_def del: le_bytes.simps)
  let ?img2 = "store img1 (?h * BLOCK_SIZE + (n - 10) * 4) (le_bytes 4 (10 + n))"
  have b: "blk ?img2 c = (if c = ?h then write_at (blk img' ?h) ((n - 10) * 4) (le_bytes 4 (10 + n)) else if c = 10 + n then hello_block elf n else blk img' c)" for c
    using blk_store_inside [OF o, of img1 ?h c] h n(1) unfolding img1_def by (simp add: blk_store del: le_bytes.simps)
  have "take 4 (drop ((i - 10) * 4) (blk ?img2 ?h)) = le_bytes 4 (10 + i)" if "i < Suc n" "10 \<le> i" for i
  proof (cases "i = n")
    case True
    then show ?thesis using take_drop_write_at [of "(n - 10) * 4" "le_bytes 4 (10 + n)" "blk img' ?h"] o by (simp add: b del: le_bytes.simps)
  next
    case False
    then have "(i - 10) * 4 + 4 \<le> (n - 10) * 4" "i < n" using that by linarith+
    then show ?thesis using take_drop_write_at_other [of "(n - 10) * 4" "le_bytes 4 (10 + n)" "blk img' ?h" "(i - 10) * 4" 4] o w that(2)
      by (simp add: b hello_written_def del: le_bytes.simps)
  qed
  moreover have "blk ?img2 (10 + i) = hello_block elf i" if "i < Suc n" for i
    using that h n(1) w unfolding b by (auto simp: hello_written_def less_Suc_eq)
  moreover have "blk ?img2 c = blk img c" if "c < 10" for c using that w h unfolding b by (simp add: hello_written_def)
  ultimately show ?thesis unfolding hello_written_def by blast
qed

lemma write_hello_spec:
  assumes "n \<le> elf_blocks elf" and "elf_blocks elf \<le> 996"
  shows "\<exists>img'. write_hello elf [0..<n] img = Some img' \<and> hello_written elf n img img'"
  using assms(1)
proof (induction n)
  case 0
  then show ?case by (simp add: hello_written_def)
next
  case (Suc n)
  then obtain img' where "write_hello elf [0..<n] img = Some img'" "hello_written elf n img img'" by auto
  then show ?case using hello_written_direct [of elf n img img'] hello_written_indirect [of elf n img img'] Suc.prems assms(2)
    by (cases "n < 10") (simp_all add: write_hello_append write_block_def Let_def not_less del: le_bytes.simps)
qed

section \<open>The image\<close>

text \<open>What every block of the image holds.\<close>

lemma mkfs_blocks:
  assumes "elf_blocks elf \<le> 996"
  shows "\<exists>img dbmap. mkfs True elf = Some img \<and> blk img 0 = mkfs_superblock \<and> blk img 2 = mkfs_inodes elf \<and> blk img 6 = dbmap \<and>
    blk img 7 = mkfs_dir \<and> blk img 8 = letters 65 \<and> blk img 9 = letters 97 \<and>
    (\<forall>k < 8 * BLOCK_SIZE. bit (dbmap ! (k div 8)) (k mod 8) \<longleftrightarrow> k < total_data_blocks elf) \<and>
    (\<forall>i < elf_blocks elf. blk img (10 + i) = hello_block elf i \<and>
      (10 \<le> i \<longrightarrow> take 4 (drop ((i - 10) * 4) (blk img (hello_indirect_block elf))) = le_bytes 4 (10 + i)))"
proof -
  obtain ibmap where i: "set_bits [0..<4] (replicate BLOCK_SIZE 0) = Some ibmap" "length ibmap = BLOCK_SIZE"
    using set_bits_block [of 4] by (auto simp: BLOCK_SIZE_def)
  have t: "total_data_blocks elf \<le> 8 * BLOCK_SIZE" using assms by (simp add: total_data_blocks_def BLOCK_SIZE_def)
  obtain dbmap where d: "set_bits [0..<total_data_blocks elf] (replicate BLOCK_SIZE 0) = Some dbmap" "length dbmap = BLOCK_SIZE"
    "\<forall>k < 8 * BLOCK_SIZE. bit (dbmap ! (k div 8)) (k mod 8) \<longleftrightarrow> k < total_data_blocks elf"
    using set_bits_block [OF t] by blast
  have l: "length mkfs_superblock = BLOCK_SIZE" "length (letters a) = BLOCK_SIZE" for a
    by (simp_all add: mkfs_superblock_def letters_def BLOCK_SIZE_def del: le_bytes.simps)
  define put where "put b data img = store img (b * BLOCK_SIZE) data" for b :: nat and data :: "u8 list" and img :: ram
  define img where "img = put 9 (letters 97) (put 8 (letters 65) (put 7 mkfs_dir (put 2 (mkfs_inodes elf) (put 6 dbmap (put 1 ibmap (put 0 mkfs_superblock (\<lambda>_. 0)))))))"
  have b: "blk (put c data m) c' = (if c' = c then data else blk m c')" if "length data = BLOCK_SIZE" for c c' data m
    using blk_store [OF that] by (simp add: put_def)
  have w: "write_block c data m = Some (put c data m)" if "length data = BLOCK_SIZE" for c data m
    using that by (simp add: write_block_def put_def)
  obtain img' where h: "write_hello elf [0..<elf_blocks elf] img = Some img'" "hello_written elf (elf_blocks elf) img img'"
    using write_hello_spec [of "elf_blocks elf" elf img] assms by blast
  have "mkfs True elf = Some img'"
    using h(1) i d(1,2) l mkfs_inode_slots(1) by (simp add: mkfs_def mkfs_rich_def w img_def del: upt_rec_numeral)
  moreover have "blk img' c = blk img c" if "c < 10" for c using h(2) that by (simp add: hello_written_def)
  moreover have "blk img 0 = mkfs_superblock" "blk img 2 = mkfs_inodes elf" "blk img 6 = dbmap" "blk img 7 = mkfs_dir" "blk img 8 = letters 65" "blk img 9 = letters 97"
    using i(2) d(2) l mkfs_inode_slots(1) by (simp_all add: img_def b)
  ultimately show ?thesis using h(2) d(3) unfolding hello_written_def by simp
qed


section \<open>The image as the kernel sees it\<close>

definition mkfs_sb :: super_block where
  "mkfs_sb = \<lparr>sb_magic = MAGIC, sb_size = 1007, sb_nblocks = 1000, sb_ninodes = 200, sb_inode_start = 2, sb_bmap_start = 6\<rparr>"

lemma read_image_u32: "off + 4 \<le> BLOCK_SIZE \<Longrightarrow> read_u32 (image_disk img b) off = le_val (take 4 (drop off (blk img b)))"
  by (simp add: read_u32_def load_image_disk)

lemma mkfs_superblock_read: "blk img 0 = mkfs_superblock \<Longrightarrow> decode_sb (image_disk img 0) = mkfs_sb"
  by (simp add: decode_sb_def read_image_u32 BLOCK_SIZE_def mkfs_superblock_def mkfs_sb_def le_val_short MAGIC_def N_DATA_BLOCKS_def N_INODES_def
        del: le_bytes.simps)

lemma mkfs_inode_wf:
  "typ < 256 \<Longrightarrow> sz < 2 ^ 32 \<Longrightarrow> (\<forall>b \<in> set indices. b < 2 ^ 32) \<Longrightarrow> inode_disk_wf (mkfs_inode typ sz indices)"
  by (auto simp: inode_disk_wf_def mkfs_inode_def INODE_INDEX_3_def simp del: upt_rec_numeral)

lemma disk_inode_image:
  assumes "blk img 2 = inodes" and "length inodes = BLOCK_SIZE" and "k < 64" and "slot64 inodes k = encode_inode n" and "inode_disk_wf n"
  shows "disk_inode mkfs_sb (image_disk img) k = n"
proof -
  have "load (image_disk img 2) (k * 64) 64 = slot64 inodes k"
    using assms(1-3) by (simp add: load_image_disk BLOCK_SIZE_def slot64_def)
  then show ?thesis using assms(3-5) inode_codec_eq by (simp add: disk_inode_def inode_blk_def mkfs_sb_def)
qed

lemma hello_indices_bound: "elf_blocks elf \<le> 996 \<Longrightarrow> \<forall>b \<in> set (hello_indices elf). b < 2 ^ 32"
  by (auto simp: hello_indices_def hello_indirect_block_def)

lemma hello_file_block:
  assumes "i < elf_blocks elf" and "elf_blocks elf \<le> 996"
    and "10 \<le> i \<longrightarrow> take 4 (drop ((i - 10) * 4) (blk img (hello_indirect_block elf))) = le_bytes 4 (10 + i)"
  shows "file_block (mkfs_inode 2 sz (hello_indices elf)) (image_disk img) i = Some (10 + i)"
proof (cases "i < 10")
  case True
  then have "id_index (mkfs_inode 2 sz (hello_indices elf)) ! i = 10 + i"
    using assms(1) by (simp add: mkfs_inode_def hello_indices_def nth_append del: upt_rec_numeral)
  then show ?thesis using True by (simp add: file_block_def)
next
  case False
  then have h: "hello_indirect_block elf = 10 + elf_blocks elf" using assms(1) by (simp add: hello_indirect_block_def)
  then have "id_index (mkfs_inode 2 sz (hello_indices elf)) ! 10 = hello_indirect_block elf"
    using assms(1) False by (simp add: mkfs_inode_def hello_indices_def nth_append del: upt_rec_numeral)
  moreover have "read_u32 (image_disk img (hello_indirect_block elf)) (4 * (i - 10)) = 10 + i"
    using assms False by (simp add: read_image_u32 BLOCK_SIZE_def mult.commute le_val_short del: le_bytes.simps)
  ultimately show ?thesis using False assms(1,2) h by (simp add: file_block_def)
qed

lemma mkfs_dir_lookup:
  assumes "blk img 7 = mkfs_dir" and "k < 5" and "1 < k"
  shows "dir_lookup (mkfs_inode 1 (5 * 64) [7]) (image_disk img) ([[46], [46, 46], n_ABCD, n_abcd, n_hello] ! k) = Some ([0, 0, 1, 2, 3] ! k)"
proof -
  let ?d = "mkfs_inode 1 (5 * 64) [7]" and ?ns = "[[46], [46, 46], n_ABCD, n_abcd, n_hello] :: u8 list list" and ?is = "[0, 0, 1, 2, 3] :: nat list"
  have c: "j = 0 \<or> j = 1 \<or> j = 2 \<or> j = 3 \<or> j = 4" if "j < 5" for j :: nat using that by linarith
  have e: "dir_entry ?d (image_disk img) j = mkfs_entry (?ns ! j) (?is ! j)" if "j < 5" for j
  proof -
    have m: "64 * j mod BLOCK_SIZE = 64 * j" "64 * j div BLOCK_SIZE = 0" "64 * j mod BLOCK_SIZE + 64 \<le> BLOCK_SIZE" using that by (simp_all add: BLOCK_SIZE_def)
    have f: "file_block ?d (image_disk img) 0 = Some 7" by (simp add: file_block_def mkfs_inode_def nth_append)
    have "map (file_byte ?d (image_disk img)) [64 * j..<64 * j + 64] = slot64 mkfs_dir j"
      using block_bytes [OF m(3), of ?d "image_disk img"] f m(1,2,3) assms(1) by (simp add: load_image_disk slot64_def mult.commute)
    moreover have "?is ! j < 2 ^ 32" using c [OF that] by auto
    ultimately show ?thesis using mkfs_dir_entry [OF that] dentry_codec [of "mkfs_entry (?ns ! j) (?is ! j)"]
      by (simp add: dir_entry_def mkfs_entry_def)
  qed
  have n: "length (?ns ! j) \<le> MAXLEN_FILENAME" "0 \<notin> set (?ns ! j)" "?ns ! j \<noteq> []" if "j < 5" for j
    using c [OF that] by (auto simp: MAXLEN_FILENAME_def n_ABCD_def n_abcd_def n_hello_def)
  have "distinct ?ns" by (simp add: n_ABCD_def n_abcd_def n_hello_def)
  then have i: "entry_is (?ns ! k) (mkfs_entry (?ns ! j) inum) \<longleftrightarrow> j = k" if "j < 5" for j inum
    using entry_is_mkfs [OF n [OF assms(2)] n(1,2) [OF that]] nth_eq_iff_index_eq [of ?ns j k] that assms(2) by auto
  have "List.find (\<lambda>j. entry_is (?ns ! k) (dir_entry ?d (image_disk img) j)) [0..<5] = Some k"
    unfolding find_upt using e i assms(2) by auto
  then have "find_entry (entry_is (?ns ! k)) ?d (image_disk img) 0 = Some k" by (simp add: find_entry_def mkfs_inode_def)
  then show ?thesis using e [OF assms(2)] unfolding dir_lookup_def by (simp add: mkfs_entry_def)
qed


text \<open>The files of a rich image.\<close>

lemma mkfs_image_spec:
  assumes "elf_blocks elf \<le> 996"
  shows "\<exists>img. mkfs True elf = Some img \<and> decode_sb (image_disk img 0) = mkfs_sb \<and>
    disk_inode mkfs_sb (image_disk img) 0 = mkfs_inode 1 (5 * 64) [7] \<and>
    disk_inode mkfs_sb (image_disk img) 3 = mkfs_inode 2 (length elf) (hello_indices elf) \<and>
    (\<forall>k < 5. 1 < k \<longrightarrow> resolve mkfs_sb (image_disk img) ROOT_INODE [[[46], [46, 46], n_ABCD, n_abcd, n_hello] ! k] = Some ([0, 0, 1, 2, 3] ! k)) \<and>
    (\<forall>k < length elf. file_byte (mkfs_inode 2 (length elf) (hello_indices elf)) (image_disk img) k = elf ! k) \<and>
    (\<forall>i < elf_blocks elf. file_block (mkfs_inode 2 (length elf) (hello_indices elf)) (image_disk img) i = Some (10 + i) \<and>
      bit_at (image_disk img 6) (10 + i - 7))"
proof -
  obtain img where img: "mkfs True elf = Some img" "blk img 0 = mkfs_superblock" "blk img 2 = mkfs_inodes elf" "blk img 7 = mkfs_dir"
    "\<forall>k < 8 * BLOCK_SIZE. bit (blk img 6 ! (k div 8)) (k mod 8) \<longleftrightarrow> k < total_data_blocks elf"
    "\<forall>i < elf_blocks elf. blk img (10 + i) = hello_block elf i \<and>
      (10 \<le> i \<longrightarrow> take 4 (drop ((i - 10) * 4) (blk img (hello_indirect_block elf))) = le_bytes 4 (10 + i))"
    using mkfs_blocks [OF assms] by blast
  let ?hello = "mkfs_inode 2 (length elf) (hello_indices elf)" and ?root = "mkfs_inode 1 (5 * 64) [7]"
  have "length elf < 2 ^ 32" using assms by (simp add: elf_blocks_def BLOCK_SIZE_def)
  then have i3: "disk_inode mkfs_sb (image_disk img) 3 = ?hello"
    using disk_inode_image [OF img(3) mkfs_inode_slots(1) _ mkfs_inode_slots(5)] mkfs_inode_wf hello_indices_bound [OF assms] by simp
  have i0: "disk_inode mkfs_sb (image_disk img) 0 = ?root"
    using disk_inode_image [OF img(3) mkfs_inode_slots(1) _ mkfs_inode_slots(2)] mkfs_inode_wf [of 1 "5 * 64" "[7]"] by simp
  have r: "resolve mkfs_sb (image_disk img) ROOT_INODE [[[46], [46, 46], n_ABCD, n_abcd, n_hello] ! k] = Some ([0, 0, 1, 2, 3] ! k)" if "k < 5" "1 < k" for k
    using i0 mkfs_dir_lookup [OF img(4) that] by (simp add: ROOT_INODE_def INODE_TYPE_DIR_def) (simp add: mkfs_inode_def)
  have f: "file_block ?hello (image_disk img) i = Some (10 + i)" if "i < elf_blocks elf" for i
    using hello_file_block [OF that assms] img(6) that by blast
  have m: "bit_at (image_disk img 6) (10 + i - 7)" if "i < elf_blocks elf" for i
  proof -
    have "10 + i - 7 < 8 * BLOCK_SIZE" "10 + i - 7 < total_data_blocks elf" "(10 + i - 7) div 8 < BLOCK_SIZE"
      using that assms by (simp_all add: BLOCK_SIZE_def total_data_blocks_def)
    then show ?thesis using img(5) unfolding bit_at_def by (simp add: image_disk_nth)
  qed
  have "file_byte ?hello (image_disk img) k = elf ! k" if "k < length elf" for k
    using hello_block_nth [OF that] f img(6) by (simp add: file_byte_def image_disk_nth BLOCK_SIZE_def)
  then show ?thesis using img(1) mkfs_superblock_read [OF img(2)] i0 i3 r f m by blast
qed


section \<open>Properties\<close>



text \<open>The file system when the first process enters user space: the cache of buffers as initialised during boot, and the superblock as read by \<open>fs_init\<close>.\<close>

definition mount :: "(u32 \<Rightarrow> block) \<Rightarrow> ifs option" where
  "mount disk = do {
     fs \<leftarrow> fs_init \<lparr>fs_sb = None, fs_b = buffer_init \<lparr>bs_cache = LRUCache_new, bs_disk = disk\<rparr>\<rparr>;
     Some \<lparr>i_fs = fs, i_cache = \<lambda>_. Inode_new\<rparr>
   }"

lemma mount_spec:
  assumes "sb_magic (decode_sb (disk 0)) = MAGIC"
  shows "\<exists>st. mount disk = Some st \<and> cache_inv (decode_sb (disk 0)) st \<and> view (ibuf st) = disk \<and> refs st = (\<lambda>_. 0)"
proof -
  let ?s = "buffer_init \<lparr>bs_cache = LRUCache_new, bs_disk = disk\<rparr>"
  let ?st = "\<lparr>i_fs = \<lparr>fs_sb = None, fs_b = ?s\<rparr>, i_cache = \<lambda>_. Inode_new\<rparr>"
  have q: "quiet ?st" using buffer_init_inv [of disk] buffer_init_pin [of disk] by (auto simp: quiet_def buf_inv_def)
  have v: "view ?s = disk" by (simp add: view_def buffer_init_pin fun_eq_iff) (simp add: buffer_init_def)
  obtain b s s' where r: "buffer_read 0 0 ?s = Some (b, s)" "get_data b s = Some (disk 0)" "buffer_release b s = Some s'" "same_files ?st (set_ibuf s' ?st)"
    using look [OF q, of 0] v by auto
  let ?st' = "\<lparr>i_fs = \<lparr>fs_sb = Some (decode_sb (disk 0)), fs_b = s'\<rparr>, i_cache = \<lambda>_. Inode_new\<rparr>"
  have l: "\<not> live ?st' i" "in_refcnt (i_cache ?st' i) = 0" for i by (simp_all add: live_def Inode_new_def)
  have "mount disk = Some ?st'" using r(1-3) assms by (simp add: mount_def fs_init_def)
  moreover have "quiet ?st'" "view (ibuf ?st') = disk" using r(4) v by (simp_all add: same_files_def quiet_def set_ibuf_def)
  moreover have "refs ?st' = (\<lambda>_. 0)" using l by (simp add: fun_eq_iff refs_def refs_in_def holds_def)
  ultimately show ?thesis using l by (simp add: cache_inv_def one_slot_def holds_def)
qed



end
