(* ===== verification/Virtio.thy ===== *)
theory Virtio
  imports Mkfs
begin

unbundle bit_operations_syntax

text \<open>
  The driver of the block device (\<open>drivers/virtio\<close>). The queue, the request header, the status byte and the buffer of a transfer are
  bytes of physical memory; the device is a parameter, a function that serves the newest request in the queue and
  returns the new memory and the new content of the disk, a function from byte positions to bytes as in \<open>Mkfs\<close>. It runs on its own: in \<open>virtio_rw\<close> it may
  finish the request before or after the driver marks it as in progress. The registers that the initialisation reads are a parameter too.
\<close>

section \<open>Registers and layout\<close>

definition VIRTIO_MMIO_MAGIC_VALUE :: usize where "VIRTIO_MMIO_MAGIC_VALUE = 0x000"
definition VIRTIO_MMIO_VERSION :: usize where "VIRTIO_MMIO_VERSION = 0x004"
definition VIRTIO_MMIO_DEVICE_ID :: usize where "VIRTIO_MMIO_DEVICE_ID = 0x008"
definition VIRTIO_MMIO_VENDOR_ID :: usize where "VIRTIO_MMIO_VENDOR_ID = 0x00c"
definition VIRTIO_MMIO_DEVICE_FEATURES :: usize where "VIRTIO_MMIO_DEVICE_FEATURES = 0x010"
definition VIRTIO_MMIO_QUEUE_SEL :: usize where "VIRTIO_MMIO_QUEUE_SEL = 0x030"
definition VIRTIO_MMIO_QUEUE_NUM_MAX :: usize where "VIRTIO_MMIO_QUEUE_NUM_MAX = 0x034"
definition VIRTIO_MMIO_QUEUE_NUM :: usize where "VIRTIO_MMIO_QUEUE_NUM = 0x038"
definition VIRTIO_MMIO_QUEUE_ALIGN :: usize where "VIRTIO_MMIO_QUEUE_ALIGN = 0x03c"
definition VIRTIO_MMIO_QUEUE_NOTIFY :: usize where "VIRTIO_MMIO_QUEUE_NOTIFY = 0x050"
definition VIRTIO_MMIO_INTERRUPT_STATUS :: usize where "VIRTIO_MMIO_INTERRUPT_STATUS = 0x060"
definition VIRTIO_MMIO_INTERRUPT_ACK :: usize where "VIRTIO_MMIO_INTERRUPT_ACK = 0x064"
definition VIRTIO_MMIO_STATUS :: usize where "VIRTIO_MMIO_STATUS = 0x070"
definition VIRTIO_MMIO_GUEST_PAGE_SIZE :: usize where "VIRTIO_MMIO_GUEST_PAGE_SIZE = 0x028"
definition VIRTIO_MMIO_QUEUE_PFN :: usize where "VIRTIO_MMIO_QUEUE_PFN = 0x040"

definition VIRTIO_CONFIG_S_ACKNOWLEDGE :: u32 where "VIRTIO_CONFIG_S_ACKNOWLEDGE = 1"
definition VIRTIO_CONFIG_S_DRIVER :: u32 where "VIRTIO_CONFIG_S_DRIVER = 2"
definition VIRTIO_CONFIG_S_DRIVER_OK :: u32 where "VIRTIO_CONFIG_S_DRIVER_OK = 4"
definition VIRTIO_CONFIG_S_FEATURES_OK :: u32 where "VIRTIO_CONFIG_S_FEATURES_OK = 8"

text \<open>The features the driver does not use: read-only, SCSI, write-cache configuration, multiple queues, any layout, indirect descriptors, event index.\<close>

definition unused_features :: "nat list" where "unused_features = [5, 7, 11, 12, 27, 29, 28]"

definition NUM_DESCS :: nat where "NUM_DESCS = 8"
definition VRING_DESC_F_NEXT :: u16 where "VRING_DESC_F_NEXT = 1"
definition VRING_DESC_F_WRITE :: u16 where "VRING_DESC_F_WRITE = 2"
definition VIRTIO_BLK_T_IN :: u32 where "VIRTIO_BLK_T_IN = 0"
definition VIRTIO_BLK_T_OUT :: u32 where "VIRTIO_BLK_T_OUT = 1"

text \<open>The state of the driver and the addresses of its two static buffers.\<close>

record vdisk =
  vd_pages :: "phys_frame option"
  vd_init_done :: bool
  vd_header :: usize
  vd_status :: usize

definition VRingDesc :: "u64 \<Rightarrow> u32 \<Rightarrow> u16 \<Rightarrow> u16 \<Rightarrow> u8 list" where
  "VRingDesc addr len flags next = le_bytes 8 addr @ le_bytes 4 len @ le_bytes 2 flags @ le_bytes 2 next"

definition BlkOutHdr :: "u32 \<Rightarrow> u64 \<Rightarrow> u8 list" where
  "BlkOutHdr typ sector = le_bytes 4 typ @ le_bytes 4 0 @ le_bytes 8 sector"

section \<open>A transfer\<close>

text \<open>The available ring starts 128 bytes into the page, with its index at 2 and its entries from 4 on.\<close>

definition avail_idx :: "usize \<Rightarrow> ram \<Rightarrow> u16" where
  "avail_idx page m = le_val (load m (page + 130) 2)"

definition rw_submit :: "vdisk \<Rightarrow> usize \<Rightarrow> u32 \<Rightarrow> bool \<Rightarrow> ram \<Rightarrow> ram option" where
  "rw_submit d buf blockno write m = do {
     let sector = blockno * (PGSIZE div 512);
     let m = store m (vd_header d) (BlkOutHdr (if write then VIRTIO_BLK_T_OUT else VIRTIO_BLK_T_IN) sector);
     page \<leftarrow> map_option frame_addr (vd_pages d);
     let m = store m page (VRingDesc (vd_header d) 16 VRING_DESC_F_NEXT 1);
     let m = store m (page + 16) (VRingDesc buf PGSIZE (VRING_DESC_F_NEXT OR (if \<not> write then VRING_DESC_F_WRITE else 0)) 2);
     let m = store m (page + 32) (VRingDesc (vd_status d) 1 VRING_DESC_F_WRITE 0);
     let idx_val = avail_idx page m;
     let m = store m (page + 132 + 2 * (idx_val mod 8)) (le_bytes 2 0);
     Some (store m (page + 130) (le_bytes 2 ((idx_val + 1) mod 2 ^ 16)))
   }"

text \<open>The transfer returns once the status byte differs from \<open>0xFF\<close>; when the device has nothing left to write, it never does.\<close>

definition virtio_rw :: "(ram \<Rightarrow> ram \<Rightarrow> ram \<times> ram) \<Rightarrow> bool \<Rightarrow> vdisk \<Rightarrow> usize \<Rightarrow> u32 \<Rightarrow> bool \<Rightarrow> ram \<Rightarrow> ram \<Rightarrow> (ram \<times> ram) option" where
  "virtio_rw dev prompt d buf blockno write m img = do {
     m \<leftarrow> rw_submit d buf blockno write m;
     let (m, img) = (if prompt then dev m img else (m, img));
     let m = store m (vd_status d) [0xFF];
     let (m, img) = (if prompt then (m, img) else dev m img);
     (if m (vd_status d) \<noteq> 0xFF then Some (m, img) else None)
   }"

section \<open>Interrupt and initialisation\<close>

text \<open>The writes to registers, in order.\<close>

definition virtio_intr :: "(usize \<Rightarrow> u32) \<Rightarrow> (usize \<times> u32) list" where
  "virtio_intr rd = [(VIRTIO_MMIO_INTERRUPT_ACK, rd VIRTIO_MMIO_INTERRUPT_STATUS AND 3)]"

definition valid_device :: "(usize \<Rightarrow> u32) \<Rightarrow> bool" where
  "valid_device rd \<longleftrightarrow> rd VIRTIO_MMIO_MAGIC_VALUE = 0x74726976 \<and> rd VIRTIO_MMIO_VERSION = 1 \<and>
     rd VIRTIO_MMIO_DEVICE_ID = 2 \<and> rd VIRTIO_MMIO_VENDOR_ID = 0x554d4551"

definition choose_features :: "u32 \<Rightarrow> u32" where
  "choose_features f = fold (\<lambda>b f. f AND cnot 64 (push_bit b 1)) unused_features f"

definition virtio_init :: "(usize \<Rightarrow> u32) \<Rightarrow> vdisk \<Rightarrow> pmem \<Rightarrow> ((usize \<times> u32) list \<times> vdisk \<times> pmem) option" where
  "virtio_init rd d s =
     (if vd_init_done d then Some ([], d, s)
      else if \<not> valid_device rd then None
      else if rd VIRTIO_MMIO_STATUS AND VIRTIO_CONFIG_S_FEATURES_OK = 0 then None
      else if rd VIRTIO_MMIO_QUEUE_NUM_MAX = 0 then None
      else if rd VIRTIO_MMIO_QUEUE_NUM_MAX < NUM_DESCS then None
      else do {
        let st1 = VIRTIO_CONFIG_S_ACKNOWLEDGE;
        let st2 = st1 OR VIRTIO_CONFIG_S_DRIVER;
        let st3 = st2 OR VIRTIO_CONFIG_S_FEATURES_OK;
        (f, s) \<leftarrow> PhysFrame_alloc s;
        (case f of
           None \<Rightarrow> None
         | Some f \<Rightarrow> Some
             ([(VIRTIO_MMIO_STATUS, st1), (VIRTIO_MMIO_STATUS, st2), (VIRTIO_MMIO_DEVICE_FEATURES, choose_features (rd VIRTIO_MMIO_DEVICE_FEATURES)),
               (VIRTIO_MMIO_STATUS, st3), (VIRTIO_MMIO_QUEUE_SEL, 0), (VIRTIO_MMIO_QUEUE_NUM, NUM_DESCS),
               (VIRTIO_MMIO_GUEST_PAGE_SIZE, PGSIZE), (VIRTIO_MMIO_QUEUE_PFN, frame_addr f div PGSIZE mod 2 ^ 32),
               (VIRTIO_MMIO_QUEUE_ALIGN, 16), (VIRTIO_MMIO_STATUS, st3 OR VIRTIO_CONFIG_S_DRIVER_OK)],
              d\<lparr>vd_pages := Some f, vd_init_done := True\<rparr>, s))
      })"

section \<open>The device\<close>

text \<open>The newest request in the queue, as the specification of the device reads it: three chained descriptors from number 0, the
  header, the data and the status byte, apart from each other and from the ring the device writes.\<close>

definition used_ring :: "usize \<Rightarrow> usize \<Rightarrow> bool" where
  "used_ring page a \<longleftrightarrow> page + 160 \<le> a \<and> a < page + 230"

definition request :: "usize \<Rightarrow> ram \<Rightarrow> usize \<Rightarrow> usize \<Rightarrow> nat \<Rightarrow> usize \<Rightarrow> bool \<Rightarrow> u64 \<Rightarrow> bool" where
  "request page m hdr buf n st w sector \<longleftrightarrow> hdr < 2 ^ 64 \<and> buf < 2 ^ 64 \<and> n < 2 ^ 32 \<and> st < 2 ^ 64 \<and> sector < 2 ^ 64 \<and>
     load m (page + 132 + 2 * ((avail_idx page m + 65535) mod 65536 mod 8)) 2 = le_bytes 2 0 \<and>
     load m page 16 = VRingDesc hdr 16 1 1 \<and> load m (page + 16) 16 = VRingDesc buf n (if w then 1 else 3) 2 \<and> load m (page + 32) 16 = VRingDesc st 1 2 0 \<and>
     load m hdr 16 = BlkOutHdr (if w then 1 else 0) sector \<and>
     (st < buf \<or> buf + n \<le> st) \<and> \<not> used_ring page st \<and> (\<forall>a. used_ring page a \<longrightarrow> a < buf \<or> buf + n \<le> a)"

text \<open>What the specification of the device promises: the sectors are transferred, the status byte becomes 0, and no other memory changes but the used ring.\<close>

definition blk_device :: "usize \<Rightarrow> (ram \<Rightarrow> ram \<Rightarrow> ram \<times> ram) \<Rightarrow> bool" where
  "blk_device page dev \<longleftrightarrow> (\<forall>m img hdr buf n st w sector m' img'. request page m hdr buf n st w sector \<longrightarrow> dev m img = (m', img') \<longrightarrow>
     m' st = 0 \<and>
     (if w then img' = store img (sector * 512) (load m buf n) \<and> load m' buf n = load m buf n
      else img' = img \<and> load m' buf n = load img (sector * 512) n) \<and>
     (\<forall>a. a \<noteq> st \<and> \<not> used_ring page a \<and> (a < buf \<or> buf + n \<le> a) \<longrightarrow> m' a = m a))"

text \<open>The memory of a transfer: the page of the queue, the header, the status byte and the buffer are apart.\<close>

definition transfer_ok :: "vdisk \<Rightarrow> usize \<Rightarrow> usize \<Rightarrow> bool" where
  "transfer_ok d page buf \<longleftrightarrow> vd_pages d = Some (PhysFrame page) \<and> vd_header d < 2 ^ 64 \<and> vd_status d < 2 ^ 64 \<and> buf < 2 ^ 64 \<and>
     (vd_header d + 16 \<le> page \<or> page + PGSIZE \<le> vd_header d) \<and> (vd_status d < page \<or> page + PGSIZE \<le> vd_status d) \<and>
     (buf + PGSIZE \<le> page \<or> page + PGSIZE \<le> buf) \<and>
     (vd_status d < vd_header d \<or> vd_header d + 16 \<le> vd_status d) \<and> (vd_status d < buf \<or> buf + PGSIZE \<le> vd_status d) \<and>
     (buf + PGSIZE \<le> vd_header d \<or> vd_header d + 16 \<le> buf)"

lemma length_virtio_structs [simp]: "length (VRingDesc a l f n) = 16" "length (BlkOutHdr t s) = 16"
  by (simp_all add: VRingDesc_def BlkOutHdr_def del: le_bytes.simps)


section \<open>A transfer is one request\<close>

lemma load_store_at: "length bs = n \<Longrightarrow> load (store m a bs) a n = bs"
  using load_store_same [of m a bs] by simp

lemma avail_idx_store: "v < 65536 \<Longrightarrow> avail_idx page (store m (page + 130) (le_bytes 2 v)) = v"
  using load_store_same [of m "page + 130" "le_bytes 2 v"] le_val_short [of v 2] by (simp add: avail_idx_def del: le_bytes.simps)

lemma avail_idx_bound: "avail_idx page m < 65536"
  using le_val_bound [of "load m (page + 130) 2"] by (simp add: avail_idx_def)

text \<open>The memory after a submission, with the status byte marked.\<close>

lemma submit_request:
  assumes ok: "transfer_ok d page buf" and n: "blockno < 2 ^ 32" and s: "rw_submit d buf blockno write m = Some m1"
  defines "m2 \<equiv> store m1 (vd_status d) [0xFF]"
  shows "request page m2 (vd_header d) buf PGSIZE (vd_status d) write (blockno * 8)"
    and "\<forall>a. a \<noteq> vd_status d \<and> (a < vd_header d \<or> vd_header d + 16 \<le> a) \<and> (a < page \<or> page + PGSIZE \<le> a) \<longrightarrow> m2 a = m a"
proof -
  let ?h = "vd_header d" and ?st = "vd_status d"
  let ?hdr = "BlkOutHdr (if write then 1 else 0) (blockno * 8)" and ?d1 = "VRingDesc buf PGSIZE (if write then 1 else 3) 2"
  define mh where "mh = store m ?h ?hdr"
  define m0 where "m0 = store (store (store mh page (VRingDesc ?h 16 1 1)) (page + 16) ?d1) (page + 32) (VRingDesc ?st 1 2 0)"
  define i where "i = avail_idx page m0"
  define mr where "mr = store m0 (page + 132 + 2 * (i mod 8)) (le_bytes 2 0)"
  have m1: "m1 = store mr (page + 130) (le_bytes 2 ((i + 1) mod 65536))"
    using s ok unfolding rw_submit_def transfer_ok_def
    by (cases "write") (simp_all add: Let_def mr_def i_def m0_def mh_def PGSIZE_def VIRTIO_BLK_T_OUT_def VIRTIO_BLK_T_IN_def
      VRING_DESC_F_NEXT_def VRING_DESC_F_WRITE_def del: le_bytes.simps)
  note ok = ok [unfolded transfer_ok_def PGSIZE_def]
  have r: "i mod 8 < 8" by simp
  have o: "\<And>a n. a + n \<le> ?st \<or> ?st < a \<Longrightarrow> load m2 a n = load m1 a n" unfolding m2_def by (intro load_store_disjoint) auto
  have "avail_idx page m2 = avail_idx page m1" using o [of "page + 130" 2] ok by (auto simp: avail_idx_def)
  then have a: "avail_idx page m2 = (i + 1) mod 65536" by (simp add: m1 avail_idx_store)
  have "((i + 1) mod 65536 + 65535) mod 65536 = i" using avail_idx_bound [of page m0] unfolding i_def [symmetric] by (auto simp: mod_Suc)
  then have k: "(avail_idx page m2 + 65535) mod 65536 = i" by (simp add: a)
  have o1: "load m1 a n = load mr a n" if "a + n \<le> page + 130 \<or> page + 132 \<le> a" for a n
    unfolding m1 by (rule load_store_disjoint, unfold length_le_bytes, use that in linarith)
  have o2: "load mr a n = load m0 a n" if "a + n \<le> page + 132 \<or> page + 148 \<le> a" for a n
    unfolding mr_def by (rule load_store_disjoint, unfold length_le_bytes, use that r in linarith)
  have q: "load m2 a n = load m1 a n" if "page \<le> a" "a + n \<le> page + 4096" for a n using o [of a n] that ok by linarith
  have ring: "load m2 (page + 132 + 2 * (i mod 8)) 2 = le_bytes 2 0"
    using q [of "page + 132 + 2 * (i mod 8)" 2] o1 [of "page + 132 + 2 * (i mod 8)" 2] load_store_same [of m0 "page + 132 + 2 * (i mod 8)" "le_bytes 2 0"] r
    unfolding mr_def by (simp del: le_bytes.simps)
  have dq: "load m2 (page + j) 16 = load m0 (page + j) 16" if "j \<le> 32" for j
    using q [of "page + j" 16] o1 [of "page + j" 16] o2 [of "page + j" 16] that by simp
  have ds: "load m0 page 16 = VRingDesc ?h 16 1 1" "load m0 (page + 16) 16 = ?d1" "load m0 (page + 32) 16 = VRingDesc ?st 1 2 0"
    unfolding m0_def by (simp_all add: load_store_at load_store_disjoint)
  have "load m0 ?h 16 = load mh ?h 16" unfolding m0_def using ok by (auto simp: load_store_disjoint)
  moreover have "load mh ?h 16 = ?hdr" using load_store_same [of m ?h ?hdr] by (simp add: mh_def)
  moreover have "load m2 ?h 16 = load m0 ?h 16"
  proof -
    have hp: "?h + 16 \<le> page \<or> page + 4096 \<le> ?h" and hs: "?h + 16 \<le> ?st \<or> ?st < ?h" using ok by blast+
    from hp have "?h + 16 \<le> page + 130 \<or> page + 132 \<le> ?h" "?h + 16 \<le> page + 132 \<or> page + 148 \<le> ?h" by linarith+
    then show ?thesis using o [OF hs] o1 o2 by simp
  qed
  ultimately have h: "load m2 ?h 16 = ?hdr" by simp
  have b: "?st < buf \<or> buf + 4096 \<le> ?st" and sp: "?st < page \<or> page + 4096 \<le> ?st" and bp: "buf + 4096 \<le> page \<or> page + 4096 \<le> buf"
    and lim: "?h < 2 ^ 64" "?st < 2 ^ 64" "buf < 2 ^ 64" using ok by blast+
  have u: "\<not> used_ring page ?st" "\<forall>a. used_ring page a \<longrightarrow> a < buf \<or> buf + 4096 \<le> a"
    using sp bp unfolding used_ring_def by (linarith, intro allI impI, linarith)
  have "load m2 page 16 = VRingDesc ?h 16 1 1" "load m2 (page + 16) 16 = ?d1" "load m2 (page + 32) 16 = VRingDesc ?st 1 2 0"
    using dq [of 0] dq [of 16] dq [of 32] ds by simp_all
  then show "request page m2 ?h buf PGSIZE ?st write (blockno * 8)"
    unfolding request_def k PGSIZE_def using ring h b u lim n by simp
  show "\<forall>a. a \<noteq> ?st \<and> (a < ?h \<or> ?h + 16 \<le> a) \<and> (a < page \<or> page + PGSIZE \<le> a) \<longrightarrow> m2 a = m a"
  proof (intro allI impI)
    fix a assume a: "a \<noteq> ?st \<and> (a < ?h \<or> ?h + 16 \<le> a) \<and> (a < page \<or> page + PGSIZE \<le> a)"
    then have p: "a + 1 \<le> page + 0 \<or> page + 4096 \<le> a" "a \<noteq> ?st" "a < ?h \<or> ?h + 16 \<le> a" by (auto simp: PGSIZE_def)
    have "m2 a = m1 a" unfolding m2_def using p(2) by (intro store_outside) auto
    also have "m1 a = mr a" unfolding m1 by (rule store_outside, unfold length_le_bytes, use p(1) in linarith)
    also have "mr a = m0 a" unfolding mr_def by (rule store_outside, unfold length_le_bytes, use p(1) r in linarith)
    also have "m0 a = mh a" unfolding m0_def using p(1) by auto
    also have "mh a = m a" unfolding mh_def using p(3) by (intro store_outside) simp
    finally show "m2 a = m a" .
  qed
qed


lemma submit_returns: "transfer_ok d page buf \<Longrightarrow> \<exists>m1. rw_submit d buf blockno write m = Some m1"
  by (simp add: rw_submit_def transfer_ok_def Let_def del: le_bytes.simps)


section \<open>A device\<close>

text \<open>A device that keeps to the specification, and a transfer with it.\<close>

definition example_device :: "usize \<Rightarrow> ram \<Rightarrow> ram \<Rightarrow> ram \<times> ram" where
  "example_device page m img = (
     let hdr = le_val (load m page 8); buf = le_val (take 8 (load m (page + 16) 16)); n = le_val (take 4 (drop 8 (load m (page + 16) 16)));
         st = le_val (take 8 (load m (page + 32) 16)); sector = le_val (drop 8 (load m hdr 16)) in
     if le_val (take 4 (load m hdr 16)) = 1 then (store m st [0], store img (sector * 512) (load m buf n))
     else (store (store m buf (load img (sector * 512) n)) st [0], img))"

lemma example_device_ok: "blk_device page (example_device page)"
  unfolding blk_device_def
proof (intro allI impI)
  fix m img hdr buf n st w sector m' img'
  assume r: "request page m hdr buf n st w sector" and d: "example_device page m img = (m', img')"
  have "load m page 8 = take 8 (load m page 16)" using load_add [of m page 8 8] by simp
  then have f: "le_val (load m page 8) = hdr" "le_val (take 8 (load m (page + 16) 16)) = buf" "le_val (take 4 (drop 8 (load m (page + 16) 16))) = n"
    "le_val (take 8 (load m (page + 32) 16)) = st" "le_val (drop 8 (load m hdr 16)) = sector" "le_val (take 4 (load m hdr 16)) = (if w then 1 else 0)"
    using r unfolding request_def by (simp_all add: VRingDesc_def BlkOutHdr_def le_val_short del: le_bytes.simps)
  have s: "st < buf \<or> buf + n \<le> st" using r by (simp add: request_def)
  show "m' st = 0 \<and> (if w then img' = store img (sector * 512) (load m buf n) \<and> load m' buf n = load m buf n
      else img' = img \<and> load m' buf n = load img (sector * 512) n) \<and>
    (\<forall>a. a \<noteq> st \<and> \<not> used_ring page a \<and> (a < buf \<or> buf + n \<le> a) \<longrightarrow> m' a = m a)"
  proof (cases w)
    case True
    then have m': "m' = store m st [0]" "img' = store img (sector * 512) (load m buf n)" using d f by (simp_all add: example_device_def Let_def)
    have "load m' buf n = load m buf n" unfolding m'(1) by (rule load_store_disjoint) (use s in auto)
    then show ?thesis using True m' by (auto simp: store_def [of m])
  next
    case False
    then have m': "m' = store (store m buf (load img (sector * 512) n)) st [0]" "img' = img" using d f by (auto simp: example_device_def Let_def)
    have "load m' buf n = load (store m buf (load img (sector * 512) n)) buf n" unfolding m'(1) by (rule load_store_disjoint) (use s in auto)
    also have "\<dots> = load img (sector * 512) n" by (rule load_store_at) simp
    finally show ?thesis using False m' s by (auto simp: store_def)
  qed
qed

definition vdisk_example :: vdisk where
  "vdisk_example = \<lparr>vd_pages = Some (PhysFrame 0x80300000), vd_init_done = True, vd_header = 0x80200000, vd_status = 0x80200080\<rparr>"


section \<open>Initialisation\<close>

text \<open>The initialisation succeeds on a device that identifies itself, accepts the status and has a queue of at least eight entries, if a page is
  left; it never writes the register at offset \<open>0x20\<close> through which a driver tells the device the features it accepts.\<close>

lemma virtio_init_spec:
  assumes "\<not> vd_init_done d" and "valid_device rd" and "rd VIRTIO_MMIO_STATUS AND 8 \<noteq> 0" and "8 \<le> rd VIRTIO_MMIO_QUEUE_NUM_MAX"
    and "PhysFrame_alloc s = Some (Some f, s')"
  shows "\<exists>ws. virtio_init rd d s = Some (ws, d\<lparr>vd_pages := Some f, vd_init_done := True\<rparr>, s') \<and>
    last ws = (VIRTIO_MMIO_STATUS, 15) \<and> (VIRTIO_MMIO_QUEUE_PFN, frame_addr f div PGSIZE mod 2 ^ 32) \<in> set ws \<and> 0x20 \<notin> fst ` set ws"
  using assms by (simp add: virtio_init_def VIRTIO_CONFIG_S_FEATURES_OK_def NUM_DESCS_def VIRTIO_MMIO_STATUS_def VIRTIO_MMIO_QUEUE_NUM_MAX_def
      VIRTIO_MMIO_DEVICE_FEATURES_def VIRTIO_MMIO_QUEUE_SEL_def VIRTIO_MMIO_QUEUE_NUM_def VIRTIO_MMIO_GUEST_PAGE_SIZE_def
      VIRTIO_MMIO_QUEUE_PFN_def VIRTIO_MMIO_QUEUE_ALIGN_def VIRTIO_CONFIG_S_DRIVER_OK_def VIRTIO_CONFIG_S_ACKNOWLEDGE_def VIRTIO_CONFIG_S_DRIVER_def)

end
