(* ===== verification/Trap.thy ===== *)
theory Trap
  imports Syscall Plic Virtio
begin

unbundle bit_operations_syntax

text \<open>
  Traps (\<open>irq/trap\<close>, \<open>irq/timer.rs\<close>, \<open>irq/interrupt.rs\<close> and the assembly \<open>trampoline.S\<close>, \<open>vector.S\<close>, \<open>switch.S\<close>). The machine is the kernel with the
  control registers of the hart, the clock and the devices. The kernel reaches a trap frame at its physical address; the user's page table
  maps it where \<open>sscratch\<close> points. The code after a context switch is a function of its own: \<open>trap_kernel_handler\<close> ends with
  \<open>Switched\<close> when the process gives up the processor inside the handler, and \<open>trap_kernel_exit\<close> and \<open>trap_user_leave\<close> are what it runs when it is chosen again.
\<close>

section \<open>The machine\<close>

record machine =
  m_k :: kernel
  m_ticks :: usize
  m_nest :: usize
  m_sepc :: usize
  m_stvec :: usize
  m_satp :: usize
  m_spp_user :: bool
  m_sie :: "nat set"
  m_ssip :: bool
  m_timer :: "u64 option"
  m_plic :: registers
  m_uart :: uart_dev
  m_uart_regs :: "(usize \<times> u8) list"
  m_virtio :: "(usize \<times> u32) list"

text \<open>Addresses the linker and the device tree fix, and the virtio registers as a read sees them.\<close>

record tconf =
  tc_k :: kconf
  tc_kernel_vector :: usize
  tc_user_vector :: usize
  tc_trampoline :: usize
  tc_user_handler :: usize
  tc_ticks :: usize
  tc_plic :: "usize option"
  tc_uart :: Config
  tc_vreg :: "usize \<Rightarrow> u32"

text \<open>What the hardware reports about a trap.\<close>

datatype cause = Exception nat | Interrupt nat

record trap_info =
  ti_cause :: cause
  ti_tval :: usize
  ti_sstatus :: usize
  ti_time :: u64

definition upd_k :: "(kernel \<Rightarrow> kernel) \<Rightarrow> machine \<Rightarrow> machine" where
  "upd_k f M = M\<lparr>m_k := f (m_k M)\<rparr>"

definition upd_ram :: "(ram \<Rightarrow> ram) \<Rightarrow> machine \<Rightarrow> machine" where
  "upd_ram f M = upd_k (\<lambda>k. k\<lparr>k_pm := upd_mem f (k_pm k)\<rparr>) M"

abbreviation m_ram :: "machine \<Rightarrow> ram" where
  "m_ram M \<equiv> mem (k_pm (m_k M))"

section \<open>The clock\<close>

definition INTERVAL :: usize where "INTERVAL = 1000000"

definition timer_create :: "machine \<Rightarrow> machine" where
  "timer_create M = M\<lparr>m_ticks := 0\<rparr>"

definition timer_update :: "tconf \<Rightarrow> machine \<Rightarrow> machine option" where
  "timer_update tc M = do {
     let M = M\<lparr>m_ticks := (m_ticks M + 1) mod 2 ^ 64\<rparr>;
     k \<leftarrow> wakeup (tc_ticks tc) (m_k M);
     Some (M\<lparr>m_k := k\<rparr>)
   }"

definition program_next_tick :: "u64 \<Rightarrow> machine \<Rightarrow> machine" where
  "program_next_tick now M = M\<lparr>m_timer := Some ((now + INTERVAL) mod 2 ^ 64)\<rparr>"

definition timer_init :: "u64 \<Rightarrow> machine \<Rightarrow> machine" where
  "timer_init now M = program_next_tick now M"

definition timer_start :: "u64 \<Rightarrow> usize \<Rightarrow> machine \<Rightarrow> machine" where
  "timer_start now hartid M = (if hartid = 0 then program_next_tick now M else M)"

section \<open>Nesting\<close>

definition interrupt_enter :: "machine \<Rightarrow> machine option" where
  "interrupt_enter M = do { n \<leftarrow> uadd (m_nest M) 1; Some (M\<lparr>m_nest := n\<rparr>) }"

definition interrupt_exit :: "machine \<Rightarrow> machine" where
  "interrupt_exit M = (if 0 < m_nest M then M\<lparr>m_nest := m_nest M - 1\<rparr> else M)"

definition enable_s :: "tconf \<Rightarrow> u64 \<Rightarrow> machine \<Rightarrow> machine" where
  "enable_s tc now M = timer_start now (cf_hartid (tc_k tc))
     ((upd_k (\<lambda>k. k\<lparr>k_sscratch := cf_hartid (tc_k tc), k_sie := True\<rparr>) M)\<lparr>m_sie := m_sie M \<union> {9, 1, 5}\<rparr>)"

definition disable_s :: "machine \<Rightarrow> machine" where
  "disable_s M = upd_k (\<lambda>k. k\<lparr>k_sie := False\<rparr>) M"

definition vector_init :: "tconf \<Rightarrow> machine \<Rightarrow> machine" where
  "vector_init tc M = M\<lparr>m_stvec := tc_kernel_vector tc\<rparr>"

definition irq_init :: "tconf \<Rightarrow> machine \<Rightarrow> machine option" where
  "irq_init tc M = do {
     r \<leftarrow> plic_init (tc_plic tc) (m_plic M);
     let M = timer_create (M\<lparr>m_plic := r\<rparr>);
     Some (M\<lparr>m_uart_regs := m_uart_regs M @ [(ier_addr (tc_uart tc), 1)]\<rparr>)
   }"

definition irq_init_hart :: "tconf \<Rightarrow> u64 \<Rightarrow> machine \<Rightarrow> machine option" where
  "irq_init_hart tc now M = do {
     r \<leftarrow> plic_init_hart (tc_plic tc) (cf_hartid (tc_k tc)) (m_plic M);
     Some (enable_s tc now (vector_init tc (M\<lparr>m_plic := r\<rparr>)))
   }"

section \<open>Handlers\<close>

datatype flow = Continue | Switched

definition external_handler :: "tconf \<Rightarrow> machine \<Rightarrow> machine option" where
  "external_handler tc M = do {
     base \<leftarrow> tc_plic tc;
     let hartid = cf_hartid (tc_k tc);
     let irq = plic_claim base hartid (m_plic M);
     (if irq = 0 then Some M
      else do {
        M \<leftarrow> (if irq = UART_IRQ then do { (_, u) \<leftarrow> uart_handler echo_plain () (m_uart M); Some (M\<lparr>m_uart := u\<rparr>) }
             else if irq = VIRTIO0_IRQ then Some (M\<lparr>m_virtio := m_virtio M @ virtio_intr (tc_vreg tc)\<rparr>)
             else None);
        Some (M\<lparr>m_plic := plic_complete base hartid irq (m_plic M)\<rparr>)
      })
   }"

definition from_user :: "trap_info \<Rightarrow> bool" where
  "from_user ti \<longleftrightarrow> ti_sstatus ti AND push_bit 8 1 = 0"

definition timer_yield :: "tconf \<Rightarrow> trap_info \<Rightarrow> machine \<Rightarrow> (flow \<times> machine) option" where
  "timer_yield tc ti M =
     (if from_user ti then do { k \<leftarrow> yield_proc (tc_k tc) (m_k M); Some (Switched, M\<lparr>m_k := k\<rparr>) } else Some (Continue, M))"

definition timer_handler_ssip :: "tconf \<Rightarrow> trap_info \<Rightarrow> machine \<Rightarrow> (flow \<times> machine) option" where
  "timer_handler_ssip tc ti M = do {
     M \<leftarrow> (if cf_hartid (tc_k tc) = 0 then timer_update tc M else Some M);
     timer_yield tc ti (M\<lparr>m_ssip := False\<rparr>)
   }"

definition timer_handler_stip :: "tconf \<Rightarrow> trap_info \<Rightarrow> machine \<Rightarrow> (flow \<times> machine) option" where
  "timer_handler_stip tc ti M = do {
     M \<leftarrow> (if cf_hartid (tc_k tc) = 0 then timer_update tc M else Some M);
     timer_yield tc ti (program_next_tick (ti_time ti) M)
   }"

definition interrupt_handler :: "tconf \<Rightarrow> nat \<Rightarrow> trap_info \<Rightarrow> machine \<Rightarrow> (flow \<times> machine) option" where
  "interrupt_handler tc e ti M =
     (if e = 9 then do { M \<leftarrow> external_handler tc M; Some (Continue, M) }
      else if e = 5 then timer_handler_stip tc ti M
      else if e = 1 then timer_handler_ssip tc ti M
      else Some (Continue, M))"

definition syscall_handler :: "tconf \<Rightarrow> regs \<Rightarrow> machine \<Rightarrow> (outcome \<times> machine) option" where
  "syscall_handler tc ctx M = do {
     (r, k) \<leftarrow> dispatch (tc_k tc) (tc_ticks tc) (m_ticks M) ctx (m_k M);
     Some (r, M\<lparr>m_k := k\<rparr>)
   }"

definition exception_handler :: "tconf \<Rightarrow> nat \<Rightarrow> usize \<Rightarrow> trap_info \<Rightarrow> regs \<Rightarrow> machine \<Rightarrow> (flow \<times> regs \<times> machine) option" where
  "exception_handler tc e epc ti ctx M =
     (if e = 8 then do {
        (r, M) \<leftarrow> syscall_handler tc ctx M;
        Some (case r of
                Return v \<Rightarrow> (Continue, ctx(''a0'' := v), M\<lparr>m_sepc := (epc + 4) mod 2 ^ 64\<rparr>)
              | Away \<Rightarrow> (Switched, ctx, M))
      }
      else if e = 13 \<or> e = 15 then do {
        i \<leftarrow> slot_of (tc_k tc) (k_hart_proc (m_k M));
        (grown, s) \<leftarrow> Process_ustack_grow (ti_tval ti) (k_procs (m_k M) i) (k_pm (m_k M));
        (if grown then Some (Continue, ctx, upd_k (\<lambda>k. k\<lparr>k_pm := s\<rparr>) M) else None)
      }
      else None)"

definition trap_kernel_exit :: "machine \<Rightarrow> machine" where
  "trap_kernel_exit M = interrupt_exit M"

definition trap_kernel_handler :: "tconf \<Rightarrow> trap_info \<Rightarrow> regs \<Rightarrow> machine \<Rightarrow> (flow \<times> regs \<times> machine) option" where
  "trap_kernel_handler tc ti ctx M = do {
     M \<leftarrow> interrupt_enter M;
     let epc = m_sepc M;
     (fl, ctx, M) \<leftarrow> (case ti_cause ti of
         Exception e \<Rightarrow> exception_handler tc e epc ti ctx M
       | Interrupt e \<Rightarrow> do { (fl, M) \<leftarrow> interrupt_handler tc e ti M; Some (fl, ctx, M) });
     Some (fl, ctx, if fl = Continue then trap_kernel_exit M else M)
   }"

section \<open>From user mode and back\<close>

definition gp_regs :: "string list" where
  "gp_regs = drop 5 tf_fields"

definition tf_put :: "string list \<Rightarrow> regs \<Rightarrow> usize \<Rightarrow> ram \<Rightarrow> ram" where
  "tf_put rs c tf m = fold (\<lambda>r m. tf_set r (c r) tf m) rs m"

text \<open>The registers are saved after \<open>a3\<close> has been overwritten with the word in the place of \<open>t6\<close>, and the place of \<open>tp\<close> is
  overwritten with the number of the hart; \<open>a3\<close> then is the argument of the handler.\<close>

definition user_vector :: "usize \<Rightarrow> regs \<Rightarrow> ram \<Rightarrow> usize \<times> ram" where
  "user_vector tf c m = (
     let c' = c(''a3'' := tf_get ''t6'' tf m);
         m = tf_put (filter (\<lambda>r. r \<noteq> ''a0'') gp_regs) c' tf m;
         m = tf_set ''a0'' (c ''a0'') tf m;
         m = tf_set ''tp'' (tf_get ''kernel_hartid'' tf m) tf m
     in (c' ''a3'', m))"

definition user_return :: "usize \<Rightarrow> ram \<Rightarrow> regs" where
  "user_return tf m = (\<lambda>r. tf_get r tf m)"

definition trap_user_enter :: "tconf \<Rightarrow> usize \<Rightarrow> machine \<Rightarrow> regs \<times> machine" where
  "trap_user_enter tc ctx M = (
     let M = M\<lparr>m_stvec := tc_kernel_vector tc\<rparr>;
         M = upd_ram (tf_set ''kernel_epc'' (m_sepc M) ctx) M
     in (\<lambda>r. tf_get r ctx (m_ram M), M))"

definition trap_user_return :: "tconf \<Rightarrow> machine \<Rightarrow> machine option" where
  "trap_user_return tc M = do {
     i \<leftarrow> slot_of (tc_k tc) (k_hart_proc (m_k M));
     let p = k_procs (m_k M) i;
     let ctx = pr_trapframe p;
     let M = disable_s M;
     let M = M\<lparr>m_stvec := VA_MAX - PGSIZE + (tc_user_vector tc - tc_trampoline tc)\<rparr>;
     let M = M\<lparr>m_sepc := tf_get ''kernel_epc'' ctx (m_ram M), m_spp_user := True\<rparr>;
     ks \<leftarrow> pr_kstack p;
     let M = upd_ram (\<lambda>m. tf_set ''kernel_sp'' (ks_top ks) ctx (tf_set ''kernel_hartid'' (cf_hartid (tc_k tc)) ctx
       (tf_set ''kernel_satp'' (cf_satp (tc_k tc)) ctx (tf_set ''kernel_trapvector'' (tc_user_handler tc) ctx (tf_set ''t6'' ctx ctx m))))) M;
     Some ((upd_k (\<lambda>k. k\<lparr>k_sscratch := pr_tf_va p\<rparr>) M)\<lparr>m_satp := root_satp p\<rparr>)
   }"

definition trap_user_leave :: "tconf \<Rightarrow> usize \<Rightarrow> regs \<Rightarrow> machine \<Rightarrow> machine option" where
  "trap_user_leave tc ctx kctx M =
     trap_user_return tc (upd_ram (\<lambda>m. tf_set ''kernel_epc'' (m_sepc M) ctx (tf_put gp_regs kctx ctx m)) M)"

text \<open>The way into the handler for a trap of the current process at \<open>pc\<close> with registers \<open>c\<close>: the address of the frame, the registers the handler sees, the machine.\<close>

definition user_enter :: "tconf \<Rightarrow> usize \<Rightarrow> regs \<Rightarrow> machine \<Rightarrow> (usize \<times> regs \<times> machine) option" where
  "user_enter tc pc c M = do {
     i \<leftarrow> slot_of (tc_k tc) (k_hart_proc (m_k M));
     let tf = pr_trapframe (k_procs (m_k M) i);
     let (ctx, m) = user_vector tf c (m_ram M);
     Some (ctx, trap_user_enter tc ctx ((upd_ram (\<lambda>_. m) M)\<lparr>m_sepc := pc, m_satp := tf_get ''kernel_satp'' tf m\<rparr>))
   }"

text \<open>The whole trap: where the process continues and with which registers, unless it was switched away from.\<close>

definition user_trap :: "tconf \<Rightarrow> trap_info \<Rightarrow> usize \<Rightarrow> regs \<Rightarrow> machine \<Rightarrow> ((usize \<times> regs) option \<times> machine) option" where
  "user_trap tc ti pc c M = do {
     (ctx, kctx, M) \<leftarrow> user_enter tc pc c M;
     (fl, kctx, M) \<leftarrow> trap_kernel_handler tc ti kctx M;
     (if fl = Continue then do {
        M \<leftarrow> trap_user_leave tc ctx kctx M;
        i \<leftarrow> slot_of (tc_k tc) (k_hart_proc (m_k M));
        Some (Some (m_sepc M, user_return (pr_trapframe (k_procs (m_k M) i)) (m_ram M)), M)
      }
      else Some (None, M))
   }"

section \<open>In kernel mode, and between processes\<close>

text \<open>The frame on the kernel stack has the registers in the same order, from \<open>ra\<close> on; \<open>sp\<close> and \<open>tp\<close> are not restored from it.\<close>

definition kv_off :: "string \<Rightarrow> usize" where
  "kv_off r = tf_off r - tf_off ''ra''"

definition kernel_vector_save :: "regs \<Rightarrow> ram \<Rightarrow> usize \<times> ram" where
  "kernel_vector_save c m = (
     let sp = (c ''sp'' + 2 ^ 64 - 256) mod 2 ^ 64
     in (sp, fold (\<lambda>r m. write_u64 m (sp + kv_off r) ((c(''sp'' := sp)) r)) gp_regs m))"

definition kernel_vector_restore :: "usize \<Rightarrow> regs \<Rightarrow> ram \<Rightarrow> regs" where
  "kernel_vector_restore sp c m = (\<lambda>r.
     if r = ''tp'' then c ''tp''
     else if r = ''sp'' then (sp + 256) mod 2 ^ 64
     else read_u64 m (sp + kv_off r))"

definition s_regs :: "string list" where
  "s_regs = [''s0'', ''s1'', ''s2'', ''s3'', ''s4'', ''s5'', ''s6'', ''s7'', ''s8'', ''s9'', ''s10'', ''s11'']"

definition switch_save :: "regs \<Rightarrow> proc_context" where
  "switch_save c = \<lparr>ctx_ra = c ''ra'', ctx_sp = c ''sp'', ctx_s = map c s_regs\<rparr>"

definition switch_load :: "proc_context \<Rightarrow> regs \<Rightarrow> regs" where
  "switch_load x c = (\<lambda>r.
     if r = ''ra'' then ctx_ra x
     else if r = ''sp'' then ctx_sp x
     else (case map_of (zip s_regs (ctx_s x)) r of Some v \<Rightarrow> v | None \<Rightarrow> c r))"


section \<open>Fields of a trap frame\<close>

lemma takeWhile_index: "f \<in> set xs \<Longrightarrow> length (takeWhile (\<lambda>x. x \<noteq> f) xs) < length xs \<and> xs ! length (takeWhile (\<lambda>x. x \<noteq> f) xs) = f"
  by (induction xs) auto

lemma tf_off_apart:
  assumes "f \<in> set tf_fields" "g \<in> set tf_fields" "f \<noteq> g"
  shows "tf_off f + 8 \<le> tf_off g \<or> tf_off g + 8 \<le> tf_off f"
proof -
  have "length (takeWhile (\<lambda>x. x \<noteq> f) tf_fields) \<noteq> length (takeWhile (\<lambda>x. x \<noteq> g) tf_fields)"
    using takeWhile_index [OF assms(1)] takeWhile_index [OF assms(2)] assms(3) by metis
  then show ?thesis unfolding tf_off_def by linarith
qed

lemma tf_get_set:
  assumes "f \<in> set tf_fields" "g \<in> set tf_fields" "v < 2 ^ 64"
  shows "tf_get f tf (tf_set g v tf m) = (if f = g then v else tf_get f tf m)"
proof (cases "f = g")
  case False
  then show ?thesis using tf_off_apart [OF assms(1,2) False]
    by (auto simp: tf_get_def tf_set_def intro!: read_write_u64_disjoint)
qed (use assms(3) in \<open>simp add: tf_get_def tf_set_def\<close>)

lemma tf_get_put:
  assumes "set rs \<subseteq> set tf_fields" "f \<in> set tf_fields" "\<forall>r \<in> set rs. c r < 2 ^ 64"
  shows "tf_get f tf (tf_put rs c tf m) = (if f \<in> set rs then c f else tf_get f tf m)"
  using assms(1,3)
proof (induction rs arbitrary: m)
  case Nil
  then show ?case by (simp add: tf_put_def)
next
  case (Cons r rs)
  have "tf_put (r # rs) c tf m = tf_put rs c tf (tf_set r (c r) tf m)" by (simp add: tf_put_def)
  then show ?case using Cons tf_get_set [OF assms(2), of r "c r" tf m] by auto
qed

lemma tf_get_bound: "tf_get f tf m < 2 ^ 64"
  unfolding tf_get_def by (rule read_u64_bound)

lemma gp_regs_fields: "set gp_regs \<subseteq> set tf_fields"
  by (simp add: gp_regs_def set_drop_subset)

text \<open>Which names are registers and which are the kernel's.\<close>

lemma tf_names:
  "''a0'' \<in> set gp_regs" "''a3'' \<in> set gp_regs" "''t6'' \<in> set gp_regs" "''tp'' \<in> set gp_regs" "''a7'' \<in> set gp_regs" "''sp'' \<in> set gp_regs"
  "''kernel_epc'' \<in> set tf_fields" "''kernel_sp'' \<in> set tf_fields" "''kernel_hartid'' \<in> set tf_fields" "''kernel_satp'' \<in> set tf_fields" "''kernel_trapvector'' \<in> set tf_fields"
  "''kernel_epc'' \<notin> set gp_regs" "''kernel_sp'' \<notin> set gp_regs" "''kernel_hartid'' \<notin> set gp_regs" "''kernel_satp'' \<notin> set gp_regs" "''kernel_trapvector'' \<notin> set gp_regs"
  by (simp_all add: gp_regs_def tf_fields_def)


section \<open>Into the handler and back\<close>

lemma upd_simps [simp]:
  "m_k (upd_k f M) = f (m_k M)" "m_sepc (upd_k f M) = m_sepc M" "m_nest (upd_k f M) = m_nest M" "m_ticks (upd_k f M) = m_ticks M"
  "k_procs (m_k (upd_ram g M)) = k_procs (m_k M)" "k_hart_proc (m_k (upd_ram g M)) = k_hart_proc (m_k M)" "m_ram (upd_ram g M) = g (m_ram M)"
  "m_sepc (upd_ram g M) = m_sepc M" "m_nest (upd_ram g M) = m_nest M" "m_ticks (upd_ram g M) = m_ticks M"
  "k_bitmap (m_k (upd_ram g M)) = k_bitmap (m_k M)" "k_table_lock (m_k (upd_ram g M)) = k_table_lock (m_k M)" "k_queue_lock (m_k (upd_ram g M)) = k_queue_lock (m_k M)"
  by (simp_all add: upd_k_def upd_ram_def upd_mem_def)

definition tconf_ok :: "tconf \<Rightarrow> bool" where
  "tconf_ok tc \<longleftrightarrow> conf_ok (tc_k tc) \<and> cf_hartid (tc_k tc) < 2 ^ 64 \<and> cf_satp (tc_k tc) < 2 ^ 64 \<and> tc_user_handler tc < 2 ^ 64"

text \<open>The process in slot \<open>i\<close> is current and its frame is prepared for the next trap.\<close>

definition frame_ready :: "tconf \<Rightarrow> nat \<Rightarrow> machine \<Rightarrow> bool" where
  "frame_ready tc i M \<longleftrightarrow> (
     let p = k_procs (m_k M) i; tf = pr_trapframe p in
     slot_of (tc_k tc) (k_hart_proc (m_k M)) = Some i \<and> tf < 2 ^ 64 \<and> tf_get ''t6'' tf (m_ram M) = tf \<and>
     tf_get ''kernel_hartid'' tf (m_ram M) = cf_hartid (tc_k tc) \<and> (\<exists>ks. pr_kstack p = Some ks \<and> ks_top ks < 2 ^ 64))"

lemma user_vector_saves:
  assumes "\<And>r. c r < 2 ^ 64" and "user_vector tf c m = (ctx, m')"
  shows "ctx = tf_get ''t6'' tf m"
    and "\<And>f. f \<in> set tf_fields \<Longrightarrow> tf_get f tf m' = (if f = ''tp'' then tf_get ''kernel_hartid'' tf m else if f = ''a3'' then tf_get ''t6'' tf m
      else if f \<in> set gp_regs then c f else tf_get f tf m)"
proof -
  let ?rs = "filter (\<lambda>r. r \<noteq> ''a0'') gp_regs"
  define c' where "c' = c(''a3'' := tf_get ''t6'' tf m)"
  have c': "c' ''a3'' = tf_get ''t6'' tf m" "\<And>r. r \<noteq> ''a3'' \<Longrightarrow> c' r = c r" by (simp_all add: c'_def)
  have b: "\<forall>r \<in> set ?rs. c' r < 2 ^ 64" using assms(1) tf_get_bound unfolding c'_def by simp
  have s: "set ?rs \<subseteq> set tf_fields" using gp_regs_fields by auto
  have n: "''a0'' \<in> set tf_fields" "''tp'' \<in> set tf_fields" using tf_names gp_regs_fields by auto
  show "ctx = tf_get ''t6'' tf m" using assms(2) by (auto simp: user_vector_def Let_def)
  fix f assume f: "f \<in> set tf_fields"
  have m': "m' = tf_set ''tp'' (tf_get ''kernel_hartid'' tf (tf_set ''a0'' (c ''a0'') tf (tf_put ?rs c' tf m))) tf (tf_set ''a0'' (c ''a0'') tf (tf_put ?rs c' tf m))"
    using assms(2) by (auto simp: user_vector_def Let_def c'_def)
  have h: "tf_get ''kernel_hartid'' tf (tf_set ''a0'' (c ''a0'') tf (tf_put ?rs c' tf m)) = tf_get ''kernel_hartid'' tf m"
    using tf_get_set [OF tf_names(9) n(1) assms(1)] tf_get_put [OF s tf_names(9) b] tf_names(14) by simp
  show "tf_get f tf m' = (if f = ''tp'' then tf_get ''kernel_hartid'' tf m else if f = ''a3'' then tf_get ''t6'' tf m
      else if f \<in> set gp_regs then c f else tf_get f tf m)"
    unfolding m' h using tf_get_set [OF f n(2) tf_get_bound] tf_get_set [OF f n(1) assms(1)] tf_get_put [OF s f b] tf_names(1,2) by (auto simp: c')
qed

lemma user_enter_spec:
  assumes "frame_ready tc i M" and "\<And>r. c r < 2 ^ 64" and "pc < 2 ^ 64"
  shows "\<exists>kctx M1. user_enter tc pc c M = Some (pr_trapframe (k_procs (m_k M) i), kctx, M1) \<and>
    (\<forall>r \<in> set gp_regs. kctx r = (if r = ''tp'' then cf_hartid (tc_k tc) else if r = ''a3'' then pr_trapframe (k_procs (m_k M) i) else c r)) \<and>
    m_sepc M1 = pc \<and> m_nest M1 = m_nest M \<and> m_ticks M1 = m_ticks M \<and> same_sched (m_k M) (m_k M1) \<and>
    k_procs (m_k M1) = k_procs (m_k M)"
proof -
  let ?tf = "pr_trapframe (k_procs (m_k M) i)"
  obtain ctx m where v: "user_vector ?tf c (m_ram M) = (ctx, m)" by fastforce
  note s = user_vector_saves [OF assms(2) v]
  have r: "slot_of (tc_k tc) (k_hart_proc (m_k M)) = Some i" "tf_get ''t6'' ?tf (m_ram M) = ?tf" "tf_get ''kernel_hartid'' ?tf (m_ram M) = cf_hartid (tc_k tc)"
    using assms(1) by (auto simp: frame_ready_def Let_def)
  then have ctx: "ctx = ?tf" using s(1) by simp
  let ?M = "(upd_ram (\<lambda>_. m) M)\<lparr>m_sepc := pc, m_satp := tf_get ''kernel_satp'' ?tf m\<rparr>"
  obtain kctx M1 where e: "trap_user_enter tc ?tf ?M = (kctx, M1)" by fastforce
  have M1: "M1 = upd_ram (tf_set ''kernel_epc'' pc ?tf) (?M\<lparr>m_stvec := tc_kernel_vector tc\<rparr>)" "kctx = (\<lambda>r. tf_get r ?tf (m_ram M1))"
    using e by (auto simp: trap_user_enter_def Let_def)
  have ram: "m_ram M1 = tf_set ''kernel_epc'' pc ?tf m" unfolding M1(1) by simp
  have "kctx r = (if r = ''tp'' then cf_hartid (tc_k tc) else if r = ''a3'' then ?tf else c r)" if "r \<in> set gp_regs" for r
  proof -
    have f: "r \<in> set tf_fields" "r \<noteq> ''kernel_epc''" using that gp_regs_fields tf_names(12) by auto
    show ?thesis unfolding M1(2) ram using tf_get_set [OF f(1) tf_names(7) assms(3)] f(2) s(2) [OF f(1)] r(2,3) that by simp
  qed
  moreover have "user_enter tc pc c M = Some (?tf, kctx, M1)" using r(1) v ctx e by (simp add: user_enter_def)
  ultimately show ?thesis unfolding M1(1) by (auto simp: same_sched_def)
qed


lemma user_leave_spec:
  assumes tc: "tconf_ok tc" and s: "slot_of (tc_k tc) (k_hart_proc (m_k M)) = Some i" and tf: "pr_trapframe (k_procs (m_k M) i) = tf" "tf < 2 ^ 64"
    and ks: "pr_kstack (k_procs (m_k M) i) = Some ks" "ks_top ks < 2 ^ 64" and b: "\<forall>r \<in> set gp_regs. kctx r < 2 ^ 64" "m_sepc M < 2 ^ 64"
  shows "\<exists>M2. trap_user_leave tc tf kctx M = Some M2 \<and> m_sepc M2 = m_sepc M \<and> m_nest M2 = m_nest M \<and> same_sched (m_k M) (m_k M2) \<and>
    (\<forall>r \<in> set gp_regs. tf_get r tf (m_ram M2) = (if r = ''t6'' then tf else kctx r)) \<and> frame_ready tc i M2 \<and> k_procs (m_k M2) = k_procs (m_k M)"
proof -
  define m1 where "m1 = tf_set ''kernel_epc'' (m_sepc M) tf (tf_put gp_regs kctx tf (m_ram M))"
  define m2 where "m2 = tf_set ''kernel_sp'' (ks_top ks) tf (tf_set ''kernel_hartid'' (cf_hartid (tc_k tc)) tf
    (tf_set ''kernel_satp'' (cf_satp (tc_k tc)) tf (tf_set ''kernel_trapvector'' (tc_user_handler tc) tf (tf_set ''t6'' tf tf m1))))"
  have n: "''t6'' \<in> set tf_fields" using tf_names(3) gp_regs_fields by auto
  have v: "cf_hartid (tc_k tc) < 2 ^ 64" "cf_satp (tc_k tc) < 2 ^ 64" "tc_user_handler tc < 2 ^ 64" using tc by (simp_all add: tconf_ok_def)
  have g1: "tf_get f tf m1 = (if f = ''kernel_epc'' then m_sepc M else if f \<in> set gp_regs then kctx f else tf_get f tf (m_ram M))" if "f \<in> set tf_fields" for f
    unfolding m1_def using tf_get_set [OF that tf_names(7) b(2)] tf_get_put [OF gp_regs_fields that b(1)] by simp
  have g2: "tf_get f tf m2 = (if f = ''kernel_sp'' then ks_top ks else if f = ''kernel_hartid'' then cf_hartid (tc_k tc) else if f = ''kernel_satp'' then cf_satp (tc_k tc)
      else if f = ''kernel_trapvector'' then tc_user_handler tc else if f = ''t6'' then tf else tf_get f tf m1)" if "f \<in> set tf_fields" for f
    unfolding m2_def using tf_get_set [OF that tf_names(8) ks(2)] tf_get_set [OF that tf_names(9) v(1)] tf_get_set [OF that tf_names(10) v(2)]
      tf_get_set [OF that tf_names(11) v(3)] tf_get_set [OF that n tf(2)] by simp
  obtain M2 where M2: "trap_user_leave tc tf kctx M = Some M2" "m_ram M2 = m2" "m_sepc M2 = tf_get ''kernel_epc'' tf m1" "m_nest M2 = m_nest M"
    "same_sched (m_k M) (m_k M2)" "k_procs (m_k M2) = k_procs (m_k M)" "k_hart_proc (m_k M2) = k_hart_proc (m_k M)"
    using s tf(1) ks(1) by (simp add: trap_user_leave_def trap_user_return_def disable_s_def Let_def m1_def m2_def same_sched_def)
  have "tf_get r tf m2 = (if r = ''t6'' then tf else kctx r)" if "r \<in> set gp_regs" for r
  proof -
    have f: "r \<in> set tf_fields" "r \<notin> {''kernel_epc'', ''kernel_sp'', ''kernel_hartid'', ''kernel_satp'', ''kernel_trapvector''}"
      using that gp_regs_fields tf_names(12-16) by auto
    show ?thesis using g2 [OF f(1)] g1 [OF f(1)] f(2) that by auto
  qed
  moreover have "frame_ready tc i M2" using M2(2,6,7) s tf ks g2 [OF n] g2 [OF tf_names(9)] by (simp add: frame_ready_def)
  moreover have "m_sepc M2 = m_sepc M" using M2(3) g1 [OF tf_names(7)] by simp
  ultimately show ?thesis using M2 by metis
qed


section \<open>Traps and the scheduler\<close>

lemma same_sched_ram [simp]: "same_sched k (m_k (upd_ram g M)) = same_sched k (m_k M)" "same_sched (k\<lparr>k_sie := b\<rparr>) k' = same_sched k k'"
  "same_sched k (k'\<lparr>k_sie := b\<rparr>) = same_sched k k'" "same_sched k (k'\<lparr>k_sscratch := x\<rparr>) = same_sched k k'" "same_sched k (k'\<lparr>k_pm := s\<rparr>) = same_sched k k'"
  by (simp_all add: same_sched_def)

lemma user_enter_returns: "slot_of (tc_k tc) (k_hart_proc (m_k M)) = Some i \<Longrightarrow> \<exists>ctx kctx M1. user_enter tc pc c M = Some (ctx, kctx, M1)"
  by (simp add: user_enter_def case_prod_beta Let_def)

lemma enter_same: "user_enter tc pc c M = Some (ctx, kctx, M1) \<Longrightarrow> same_sched (m_k M) (m_k M1)"
  by (auto simp: user_enter_def trap_user_enter_def same_sched_refl Let_def split: Option.bind_splits prod.splits)

lemma leave_same: "trap_user_leave tc ctx kctx M = Some M2 \<Longrightarrow> same_sched (m_k M) (m_k M2)"
  by (auto simp: trap_user_leave_def trap_user_return_def disable_s_def same_sched_refl Let_def split: Option.bind_splits)

text \<open>What holds when a handler is through: the invariant, or, after the processor was given away, the invariant once the scheduler has taken over.\<close>

definition sched_after :: "kconf \<Rightarrow> nat \<Rightarrow> flow \<Rightarrow> kernel \<Rightarrow> bool" where
  "sched_after cf i fl k \<longleftrightarrow> (if fl = Continue then sched_inv cf k else \<forall>k'. scheduler_resume i k = Some k' \<longrightarrow> sched_inv cf k')"

lemma external_same: "external_handler tc M = Some M' \<Longrightarrow> m_k M' = m_k M"
  by (auto simp: external_handler_def Let_def split: Option.bind_splits if_splits)

lemma wakeup_wakes:
  assumes "bits_ok k" and "wakeup ch k = Some k'" and "j < NPROC" and "pst k j = Sleeping" and "pr_sleep_chan (k_procs k j) = ch"
  shows "pst k' j = Runnable"
proof -
  let ?k1 = "k\<lparr>k_sie := False, k_queue_lock := True, k_table_lock := True\<rparr>"
  have "bits_ok ?k1" "\<And>j. pst k' j = pst (wakeup_loop ch [0..<NPROC] ?k1) j"
    using assms(1,2) by (auto simp: wakeup_def lock_simps bits_ok_def Let_def split: if_splits)
  moreover have "set [0..<NPROC] \<subseteq> {..<NPROC}" by auto
  ultimately show ?thesis using wakeup_loop_inv [of "[0..<NPROC]" ?k1 _ ch, OF _ _ refl] assms(3-5) by simp
qed

lemma tick_inv:
  assumes "(if cf_hartid (tc_k tc) = 0 then timer_update tc M else Some M) = Some M'" and "sched_inv (tc_k tc) (m_k M)"
  shows "sched_inv (tc_k tc) (m_k M') \<and> k_hart_proc (m_k M') = k_hart_proc (m_k M)"
proof (cases "cf_hartid (tc_k tc) = 0")
  case True
  then have w: "wakeup (tc_ticks tc) (m_k M) = Some (m_k M')" using assms(1) by (auto simp: timer_update_def split: Option.bind_splits)
  note d = sched_invD [OF assms(2)]
  show ?thesis using wakeup_inv [OF d(2) w] sched_inv_wake [OF assms(2)] d(1) by blast
qed (use assms in auto)

lemma timer_yield_inv:
  assumes "timer_yield tc ti M = Some (fl, M')" and "sched_inv (tc_k tc) (m_k M)" and "conf_ok (tc_k tc)" and "slot_of (tc_k tc) (k_hart_proc (m_k M)) = Some i"
  shows "sched_after (tc_k tc) i fl (m_k M')"
  using assms yield_inv [OF assms(2,3,4)] by (auto simp: timer_yield_def sched_after_def split: if_splits Option.bind_splits)

lemma interrupt_inv:
  assumes h: "interrupt_handler tc e ti M = Some (fl, M')" and inv: "sched_inv (tc_k tc) (m_k M)" and cf: "conf_ok (tc_k tc)" and s: "slot_of (tc_k tc) (k_hart_proc (m_k M)) = Some i"
  shows "sched_after (tc_k tc) i fl (m_k M')"
proof -
  have t: "sched_after (tc_k tc) i fl (m_k M')"
    if "(if cf_hartid (tc_k tc) = 0 then timer_update tc M else Some M) = Some M1" "timer_yield tc ti M2 = Some (fl, M')" "m_k M2 = m_k M1" for M1 M2
    using timer_yield_inv [OF that(2) _ cf] tick_inv [OF that(1) inv] s that(3) by simp
  consider "e = 9" | "e = 5" | "e = 1" | "e \<noteq> 9" "e \<noteq> 5" "e \<noteq> 1" by blast
  then show ?thesis
  proof cases
    case 1
    then show ?thesis using h inv by (auto simp: interrupt_handler_def sched_after_def dest: external_same split: Option.bind_splits)
  next
    case 2
    then obtain M1 where "(if cf_hartid (tc_k tc) = 0 then timer_update tc M else Some M) = Some M1" "timer_yield tc ti (program_next_tick (ti_time ti) M1) = Some (fl, M')"
      using h unfolding interrupt_handler_def timer_handler_stip_def by (auto split: Option.bind_splits simp del: if_split)
    then show ?thesis using t by (simp add: program_next_tick_def)
  next
    case 3
    then obtain M1 where "(if cf_hartid (tc_k tc) = 0 then timer_update tc M else Some M) = Some M1" "timer_yield tc ti (M1\<lparr>m_ssip := False\<rparr>) = Some (fl, M')"
      using h unfolding interrupt_handler_def timer_handler_ssip_def by (auto split: Option.bind_splits simp del: if_split)
    then show ?thesis using t by simp
  next
    case 4
    then show ?thesis using h inv by (simp add: interrupt_handler_def sched_after_def)
  qed
qed

lemma exception_inv:
  assumes h: "exception_handler tc e epc ti ctx M = Some (fl, ctx', M')" and inv: "sched_inv (tc_k tc) (m_k M)" and cf: "conf_ok (tc_k tc)"
    and s: "slot_of (tc_k tc) (k_hart_proc (m_k M)) = Some i"
  shows "sched_after (tc_k tc) i fl (m_k M')"
proof (cases "e = 8")
  case True
  then obtain r k' where d: "dispatch (tc_k tc) (tc_ticks tc) (m_ticks M) ctx (m_k M) = Some (r, k')" "m_k M' = k'" "fl = (case r of Return _ \<Rightarrow> Continue | Away \<Rightarrow> Switched)"
    using h by (auto simp: exception_handler_def syscall_handler_def split: Option.bind_splits outcome.splits)
  show ?thesis
  proof (cases r)
    case (Return v)
    then show ?thesis using d dispatch_inv [OF _ inv cf] by (simp add: sched_after_def)
  next
    case Away
    then have "sys_exit (tc_k tc) (ctx ''a0'') (m_k M) = Some k'" using dispatch_away d(1) by blast
    then show ?thesis using d(2,3) Away exit_inv [OF inv cf s] by (simp add: sched_after_def)
  qed
next
  case False
  then obtain s' where "fl = Continue" "m_k M' = (m_k M)\<lparr>k_pm := s'\<rparr>" using h by (auto simp: exception_handler_def split: if_splits Option.bind_splits)
  then show ?thesis using inv by (simp add: sched_after_def sched_inv_def bits_ok_def unlocked_def)
qed

lemma handler_inv:
  assumes h: "trap_kernel_handler tc ti ctx M = Some (fl, ctx', M')" and inv: "sched_inv (tc_k tc) (m_k M)" and cf: "conf_ok (tc_k tc)"
    and s: "slot_of (tc_k tc) (k_hart_proc (m_k M)) = Some i"
  shows "sched_after (tc_k tc) i fl (m_k M')"
proof -
  obtain M1 M2 where M: "interrupt_enter M = Some M1" "m_k M' = m_k M2"
    "(case ti_cause ti of Exception e \<Rightarrow> exception_handler tc e (m_sepc M1) ti ctx M1
      | Interrupt e \<Rightarrow> do { (fl, M) \<leftarrow> interrupt_handler tc e ti M1; Some (fl, ctx, M) }) = Some (fl, ctx', M2)"
    using h by (auto simp: trap_kernel_handler_def trap_kernel_exit_def interrupt_exit_def Let_def split: Option.bind_splits if_splits)
  have "m_k M1 = m_k M" using M(1) by (auto simp: interrupt_enter_def split: Option.bind_splits)
  then show ?thesis using M(2,3) exception_inv [of tc _ "m_sepc M1" ti ctx M1 fl ctx' M2 i] interrupt_inv [of tc _ ti M1 fl M2 i] inv cf s
    by (auto split: cause.splits Option.bind_splits)
qed


section \<open>Properties\<close>

text \<open>C2. Every trap from user mode keeps the scheduler consistent: whatever the cause, and for each of the 54 system calls and every other number, when the
  process continues the bitmap of runnable processes and the states agree, no lock is held and the process is the one marked as running; when the
  handler has given the processor away, on a tick of the clock or on \<open>exit\<close>, the same holds as soon as the scheduler has taken over.\<close>

theorem trap_keeps_scheduler:
  assumes "conf_ok (tc_k tc)" and "sched_inv (tc_k tc) (m_k M)" and "slot_of (tc_k tc) (k_hart_proc (m_k M)) = Some i"
    and "user_trap tc ti pc c M = Some (r, M')"
  shows "if r = None then \<forall>k'. scheduler_resume i (m_k M') = Some k' \<longrightarrow> sched_inv (tc_k tc) k' else sched_inv (tc_k tc) (m_k M')"
proof -
  obtain ctx kctx M1 where e: "user_enter tc pc c M = Some (ctx, kctx, M1)" using assms(4) by (auto simp: user_trap_def split: Option.bind_splits)
  obtain fl kctx' M2 where h: "trap_kernel_handler tc ti kctx M1 = Some (fl, kctx', M2)" using assms(4) e by (auto simp: user_trap_def split: Option.bind_splits)
  have s: "sched_inv (tc_k tc) (m_k M1)" "k_hart_proc (m_k M1) = k_hart_proc (m_k M)"
    using enter_same [OF e] same_sched_inv assms(2) by (auto simp: same_sched_def)
  have a: "sched_after (tc_k tc) i fl (m_k M2)" using handler_inv [OF h s(1) assms(1)] s(2) assms(3) by simp
  show ?thesis
  proof (cases fl)
    case Continue
    then obtain pc' c' where r: "r = Some (pc', c')" "trap_user_leave tc ctx kctx' M2 = Some M'"
      using assms(4) e h by (auto simp: user_trap_def split: Option.bind_splits)
    then show ?thesis using a Continue leave_same [OF r(2)] same_sched_inv by (auto simp: sched_after_def)
  next
    case Switched
    then have "r = None" "M' = M2" using assms(4) e h by (auto simp: user_trap_def split: Option.bind_splits)
    then show ?thesis using a Switched by (simp add: sched_after_def)
  qed
qed

text \<open>C3. What a system call does to the registers of its caller. When the call returns \<open>v\<close>, the process continues behind the instruction that trapped, with
  \<open>v\<close> in \<open>a0\<close>, and its frame is prepared for the next trap. All other registers are as they were but three: the handler, and after it
  the process, finds the kernel address of the trap frame in \<open>a3\<close>, the fourth argument of the call, and the process finds that address in \<open>t6\<close> and the number of the hart in \<open>tp\<close>.\<close>

theorem syscall_trap:
  assumes "tconf_ok tc" and "frame_ready tc i M" and "\<forall>r. c r < 2 ^ 64" and "pc < 2 ^ 64" and "ti_cause ti = Exception 8" and "m_nest M + 1 < 2 ^ 64"
    and "user_enter tc pc c M = Some (tf, kctx, M1)" and "dispatch (tc_k tc) (tc_ticks tc) (m_ticks M) kctx (m_k M1) = Some (Return v, k2)" and "v < 2 ^ 64"
    and "k_hart_proc k2 = k_hart_proc (m_k M)" and "pr_trapframe (k_procs k2 i) = tf" and "pr_kstack (k_procs k2 i) = pr_kstack (k_procs (m_k M) i)"
  shows "kctx ''a3'' = tf \<and> (\<forall>r \<in> set gp_regs - {''a3'', ''tp''}. kctx r = c r) \<and>
    (\<exists>c2 M2. user_trap tc ti pc c M = Some (Some ((pc + 4) mod 2 ^ 64, c2), M2) \<and> frame_ready tc i M2 \<and> m_nest M2 = m_nest M \<and>
      (\<forall>r \<in> set gp_regs. c2 r = (if r = ''a0'' then v else if r \<in> {''a3'', ''t6''} then tf else if r = ''tp'' then cf_hartid (tc_k tc) else c r)))"
proof -
  have k: "tf = pr_trapframe (k_procs (m_k M) i)" "\<forall>r \<in> set gp_regs. kctx r = (if r = ''tp'' then cf_hartid (tc_k tc) else if r = ''a3'' then tf else c r)"
    "m_sepc M1 = pc" "m_nest M1 = m_nest M" "m_ticks M1 = m_ticks M"
    using user_enter_spec [of tc i M c pc] assms(2,3,4,7) by auto
  obtain ks where ks: "slot_of (tc_k tc) (k_hart_proc (m_k M)) = Some i" "tf < 2 ^ 64" "pr_kstack (k_procs (m_k M) i) = Some ks" "ks_top ks < 2 ^ 64"
    using assms(2) k(1) by (auto simp: frame_ready_def Let_def)
  let ?M = "M1\<lparr>m_k := k2, m_sepc := (pc + 4) mod 2 ^ 64\<rparr>" and ?c = "kctx(''a0'' := v)"
  have h: "trap_kernel_handler tc ti kctx M1 = Some (Continue, ?c, ?M)"
    using assms(5,6,8) k(3,4,5) by (simp add: trap_kernel_handler_def trap_kernel_exit_def interrupt_enter_def interrupt_exit_def exception_handler_def
      syscall_handler_def cadd_def Let_def)
  have "cf_hartid (tc_k tc) < 2 ^ 64" using assms(1) by (simp add: tconf_ok_def)
  then have b: "\<forall>r \<in> set gp_regs. ?c r < 2 ^ 64" "m_sepc ?M < 2 ^ 64" using k(2) assms(3,9) ks(2) by simp_all
  obtain M2 where M2: "trap_user_leave tc tf ?c ?M = Some M2" "m_sepc M2 = (pc + 4) mod 2 ^ 64" "m_nest M2 = m_nest M" "frame_ready tc i M2" "k_procs (m_k M2) = k_procs k2"
    "\<forall>r \<in> set gp_regs. tf_get r tf (m_ram M2) = (if r = ''t6'' then tf else ?c r)"
    using user_leave_spec [of tc ?M i tf ks ?c] assms(1,10-12) ks b k(4) by auto
  have "slot_of (tc_k tc) (k_hart_proc (m_k M2)) = Some i" using M2(4) by (simp add: frame_ready_def Let_def)
  then have "user_trap tc ti pc c M = Some (Some ((pc + 4) mod 2 ^ 64, user_return tf (m_ram M2)), M2)"
    using assms(7,11) h M2(1,2,5) by (simp add: user_trap_def)
  moreover have "\<forall>r \<in> set gp_regs. user_return tf (m_ram M2) r = (if r = ''a0'' then v else if r \<in> {''a3'', ''t6''} then tf else if r = ''tp'' then cf_hartid (tc_k tc) else c r)"
    using M2(6) k(2) by (auto simp: user_return_def)
  ultimately show ?thesis using k(2) M2(3,4) tf_names(2) by auto
qed


text \<open>C10. A tick of the clock in user mode on hart 0: the count of ticks goes up by one, the next deadline is one interval away, every process that sleeps on the
  clock becomes runnable, and the current process is put back among the runnable ones and gives up the processor inside the handler.\<close>

theorem timer_trap:
  assumes "conf_ok (tc_k tc)" and "sched_inv (tc_k tc) (m_k M)" and "slot_of (tc_k tc) (k_hart_proc (m_k M)) = Some i" and "cf_hartid (tc_k tc) = 0"
    and "ti_cause ti = Interrupt 5" and "from_user ti" and "m_nest M + 1 < 2 ^ 64"
  shows "\<exists>M'. user_trap tc ti pc c M = Some (None, M') \<and> m_ticks M' = (m_ticks M + 1) mod 2 ^ 64 \<and> m_timer M' = Some ((ti_time ti + INTERVAL) mod 2 ^ 64) \<and>
    m_nest M' = m_nest M + 1 \<and> pst (m_k M') i = Runnable \<and> bit (k_bitmap (m_k M')) i \<and>
    (\<forall>j < NPROC. pst (m_k M) j = Sleeping \<and> pr_sleep_chan (k_procs (m_k M) j) = tc_ticks tc \<longrightarrow> pst (m_k M') j = Runnable)"
proof -
  obtain ctx kctx M1 where e: "user_enter tc pc c M = Some (ctx, kctx, M1)" using user_enter_returns [OF assms(3)] by blast
  have m: "m_ticks M1 = m_ticks M" "m_nest M1 = m_nest M" "k_procs (m_k M1) = k_procs (m_k M)"
    using e by (auto simp: user_enter_def trap_user_enter_def Let_def split: Option.bind_splits prod.splits)
  have s1: "sched_inv (tc_k tc) (m_k M1)" "k_hart_proc (m_k M1) = k_hart_proc (m_k M)" using enter_same [OF e] same_sched_inv assms(2) by (auto simp: same_sched_def)
  note d = sched_invD [OF s1(1)]
  have p: "i < NPROC" "k_hart_proc (m_k M1) = proc_ptr (tc_k tc) i" using assms(3) slot_of_ptr [OF assms(1)] s1(2) by auto
  obtain k1 where k1: "wakeup (tc_ticks tc) (m_k M1) = Some k1" "unlocked k1" "k_hart_proc k1 = proc_ptr (tc_k tc) i"
    using wakeup_returns [OF d(1)] p(2) by metis
  have w: "pst k1 j = pst (m_k M1) j \<or> pst (m_k M1) j = Sleeping \<and> pst k1 j = Runnable" for j using wakeup_inv [OF d(2) k1(1)] by blast
  have run: "pst k1 i = Running" using w [of i] d(4) [OF p(1)] p(2) by auto
  have sl: "pst k1 j = Runnable" if "j < NPROC" "pst (m_k M) j = Sleeping" "pr_sleep_chan (k_procs (m_k M) j) = tc_ticks tc" for j
    using wakeup_wakes [OF d(2) k1(1) that(1)] that(2,3) m(3) by simp
  let ?k2 = "mark_runnable i (upd_proc i (\<lambda>p. p\<lparr>pr_state := Runnable\<rparr>) k1)"
  have y: "yield_proc (tc_k tc) k1 = Some ?k2" using yield_eq(1) [OF assms(1) p(1) k1(3)] k1(2) run by (simp add: unlocked_def)
  let ?M = "M1\<lparr>m_nest := m_nest M + 1, m_ticks := (m_ticks M + 1) mod 2 ^ 64, m_k := ?k2, m_timer := Some ((ti_time ti + INTERVAL) mod 2 ^ 64)\<rparr>"
  have "trap_kernel_handler tc ti kctx M1 = Some (Switched, kctx, ?M)"
    using assms(4-7) k1(1) y m by (simp add: trap_kernel_handler_def interrupt_enter_def interrupt_handler_def timer_handler_stip_def timer_update_def
      timer_yield_def program_next_tick_def cadd_def Let_def)
  then have "user_trap tc ti pc c M = Some (None, ?M)" using e by (simp add: user_trap_def)
  moreover have "bit (k_bitmap ?k2) i" using bit_mark [OF p(1)] by simp
  ultimately show ?thesis using sl by auto
qed

text \<open>The registers of the kernel around a trap in kernel mode, and those a process keeps across a switch.\<close>

lemma kernel_vector_roundtrip:
  assumes "\<forall>r. c r < 2 ^ 64" and "296 \<le> c ''sp''" and "kernel_vector_save c m = (sp, m')" and "r \<in> set gp_regs" and "r \<noteq> ''tp''"
  shows "kernel_vector_restore sp d m' r = c r"
proof -
  let ?c = "c(''sp'' := sp)"
  have b: "c ''sp'' < 2 ^ 64" using assms(1) by blast
  then have "(c ''sp'' + 2 ^ 64 - 256) mod 2 ^ 64 = c ''sp'' - 256" using assms(2) by (simp add: mod_if)
  then have sp: "sp = c ''sp'' - 256" "40 \<le> sp" using assms(2,3) by (auto simp: kernel_vector_save_def Let_def)
  have off: "tf_off ''ra'' = 40" "\<And>q. q \<in> set gp_regs \<Longrightarrow> 40 \<le> tf_off q" by (auto simp: gp_regs_def tf_off_def tf_fields_def)
  have a: "q \<in> set gp_regs \<Longrightarrow> sp + kv_off q = (sp - 40) + tf_off q" for q using off sp(2) by (simp add: kv_off_def)
  have "m' = fold (\<lambda>q m. write_u64 m (sp + kv_off q) (?c q)) gp_regs m" using assms(3) by (auto simp: kernel_vector_save_def Let_def)
  also have "\<dots> = tf_put gp_regs ?c (sp - 40) m"
    unfolding tf_put_def tf_set_def by (rule fold_cong) (auto simp: a)
  finally have m': "m' = tf_put gp_regs ?c (sp - 40) m" .
  have "sp < 2 ^ 64" using b sp(1) by linarith
  then have "\<forall>q \<in> set gp_regs. ?c q < 2 ^ 64" using assms(1) by simp
  then have "tf_get r (sp - 40) m' = ?c r" unfolding m'
    using tf_get_put [of gp_regs r ?c "sp - 40" m] gp_regs_fields assms(4) by auto
  then have "read_u64 m' (sp + kv_off r) = ?c r" unfolding tf_get_def a [OF assms(4)] .
  then show ?thesis using assms(2,5) b sp(1) by (auto simp: kernel_vector_restore_def)
qed

lemma switch_roundtrip:
  "r \<in> {''ra'', ''sp''} \<union> set s_regs \<Longrightarrow> switch_load (switch_save c) d r = c r"
  "r \<notin> {''ra'', ''sp''} \<union> set s_regs \<Longrightarrow> switch_load x d r = d r"
proof -
  show "switch_load (switch_save c) d r = c r" if "r \<in> {''ra'', ''sp''} \<union> set s_regs"
    using that by (auto simp: switch_load_def switch_save_def map_of_zip_map)
  show "switch_load x d r = d r" if "r \<notin> {''ra'', ''sp''} \<union> set s_regs"
  proof -
    have "map_of (zip s_regs (ctx_s x)) r = None" using that set_zip_leftD [of r _ s_regs "ctx_s x"] by (auto simp: map_of_eq_None_iff)
    then show ?thesis using that by (simp add: switch_load_def)
  qed
qed


section \<open>An example\<close>

definition tconf_example :: tconf where
  "tconf_example = \<lparr>tc_k = kconf_example, tc_kernel_vector = 0x80104000, tc_user_vector = 0x80100010, tc_trampoline = 0x80100000, tc_user_handler = 0x80105000,
     tc_ticks = 0x80106000, tc_plic = Some 0xc000000, tc_uart = DEFAULT_QEMU_VIRT, tc_vreg = \<lambda>_. 0\<rparr>"

definition frame_example :: usize where "frame_example = 0x80500000"

text \<open>The parent runs, with a prepared frame; the child is runnable.\<close>

definition machine_example :: machine where
  "machine_example = \<lparr>m_k = upd_proc 0 (\<lambda>p. p\<lparr>pr_trapframe := frame_example, pr_kstack := Some \<lparr>ks_pid = 1, ks_top = 0x3FFF000000\<rparr>\<rparr>)
       ((family Running Runnable 2 (proc_ptr kconf_example 0))\<lparr>k_pm := (k_pm kernel_example)
         \<lparr>mem := tf_set ''kernel_hartid'' 0 frame_example (tf_set ''t6'' frame_example frame_example (\<lambda>_. 0))\<rparr>\<rparr>),
     m_ticks = 41, m_nest = 0, m_sepc = 0, m_stvec = 0, m_satp = 0, m_spp_user = True, m_sie = {}, m_ssip = False, m_timer = None,
     m_plic = \<lambda>_. 0, m_uart = uart_example, m_uart_regs = [], m_virtio = []\<rparr>"

lemma machine_example_facts:
  "tconf_ok tconf_example" "conf_ok (tc_k tconf_example)" "sched_inv (tc_k tconf_example) (m_k machine_example)"
  "slot_of (tc_k tconf_example) (k_hart_proc (m_k machine_example)) = Some 0"
  "pr_trapframe (k_procs (m_k machine_example) 0) = frame_example" "frame_ready tconf_example 0 machine_example"
proof -
  show c: "tconf_ok tconf_example" "conf_ok (tc_k tconf_example)" using conf_example(1) by (simp_all add: tconf_ok_def tconf_example_def) (simp add: kconf_example_def)
  have "same_sched (family Running Runnable 2 (proc_ptr kconf_example 0)) (m_k machine_example)"
    by (simp add: same_sched_def machine_example_def)
  then show "sched_inv (tc_k tconf_example) (m_k machine_example)" using same_sched_inv family_examples(1) by (simp add: tconf_example_def)
  have "k_hart_proc (m_k machine_example) = proc_ptr kconf_example 0" by (simp add: machine_example_def)
  then show s: "slot_of (tc_k tconf_example) (k_hart_proc (m_k machine_example)) = Some 0"
    using slot_of_ptr [OF conf_example(1)] by (simp add: tconf_example_def NPROC_def)
  show t: "pr_trapframe (k_procs (m_k machine_example) 0) = frame_example" by (simp add: machine_example_def)
  have n: "''t6'' \<in> set tf_fields" "frame_example < 2 ^ 64" using tf_names(3) gp_regs_fields by (auto simp: frame_example_def)
  have "m_ram machine_example = tf_set ''kernel_hartid'' 0 frame_example (tf_set ''t6'' frame_example frame_example (\<lambda>_. 0))"
    by (simp add: machine_example_def upd_proc_def)
  then have "tf_get ''t6'' frame_example (m_ram machine_example) = frame_example" "tf_get ''kernel_hartid'' frame_example (m_ram machine_example) = 0"
    using tf_get_set [OF n(1) tf_names(9), of 0] tf_get_set [OF n(1,1,2)] tf_get_set [OF tf_names(9,9), of 0] by simp_all
  moreover have "pr_kstack (k_procs (m_k machine_example) 0) = Some \<lparr>ks_pid = 1, ks_top = 0x3FFF000000\<rparr>" by (simp add: machine_example_def)
  moreover have "cf_hartid (tc_k tconf_example) = 0" by (simp add: tconf_example_def kconf_example_def)
  ultimately show "frame_ready tconf_example 0 machine_example" using s t n(2) unfolding frame_ready_def Let_def t by simp
qed

definition tick_info :: trap_info where
  "tick_info = \<lparr>ti_cause = Interrupt 5, ti_tval = 0, ti_sstatus = 0, ti_time = 7000\<rparr>"

theorem timer_trap_witness:
  "\<exists>M'. user_trap tconf_example tick_info 0x1000 (\<lambda>_. 5) machine_example = Some (None, M') \<and> m_ticks M' = 42 \<and> m_timer M' = Some 1007000 \<and> pst (m_k M') 0 = Runnable"
proof -
  have h: "cf_hartid (tc_k tconf_example) = 0" "ti_cause tick_info = Interrupt 5" "from_user tick_info" "m_nest machine_example + 1 < 2 ^ 64"
    "m_ticks machine_example = 41" "ti_time tick_info = 7000"
    by (simp_all add: tconf_example_def kconf_example_def tick_info_def from_user_def machine_example_def)
  show ?thesis using timer_trap [OF machine_example_facts(2,3,4) h(1-4), where pc = "0x1000" and c = "\<lambda>_. 5"] h(5,6) by (auto simp: INTERVAL_def)
qed

theorem trap_keeps_scheduler_witness:
  "\<exists>M'. user_trap tconf_example (tick_info\<lparr>ti_cause := Interrupt 2\<rparr>) 0x1000 (\<lambda>_. 5) machine_example = Some M' \<and> sched_inv kconf_example (m_k (snd M'))"
proof -
  let ?ti = "tick_info\<lparr>ti_cause := Interrupt 2\<rparr>"
  obtain kctx M1 where e: "user_enter tconf_example 0x1000 (\<lambda>_. 5) machine_example = Some (frame_example, kctx, M1)"
    "\<forall>r \<in> set gp_regs. kctx r = (if r = ''tp'' then cf_hartid (tc_k tconf_example) else if r = ''a3'' then frame_example else 5)"
    "m_sepc M1 = 0x1000" "m_nest M1 = m_nest machine_example" "same_sched (m_k machine_example) (m_k M1)" "k_procs (m_k M1) = k_procs (m_k machine_example)"
    using user_enter_spec [OF machine_example_facts(6), of "\<lambda>_. 5" "0x1000"] machine_example_facts(5) by auto
  have h: "trap_kernel_handler tconf_example ?ti kctx M1 = Some (Continue, kctx, M1)"
    using e(4) by (simp add: trap_kernel_handler_def interrupt_enter_def interrupt_exit_def trap_kernel_exit_def interrupt_handler_def cadd_def Let_def machine_example_def)
  have "slot_of (tc_k tconf_example) (k_hart_proc (m_k M1)) = Some 0" using machine_example_facts(4) e(5) by (simp add: same_sched_def)
  moreover have "\<forall>r \<in> set gp_regs. kctx r < 2 ^ 64" using e(2) by (auto simp: tconf_example_def kconf_example_def frame_example_def)
  moreover obtain ks where "pr_kstack (k_procs (m_k M1) 0) = Some ks" "ks_top ks < 2 ^ 64" "frame_example < 2 ^ 64"
    using machine_example_facts(5,6) e(6) by (auto simp: frame_ready_def Let_def)
  ultimately obtain M2 where M2: "trap_user_leave tconf_example frame_example kctx M1 = Some M2" "frame_ready tconf_example 0 M2"
    using user_leave_spec [OF machine_example_facts(1), of M1 0 frame_example ks kctx] e(3,6) machine_example_facts(5) by auto
  then have t: "\<exists>r. user_trap tconf_example ?ti 0x1000 (\<lambda>_. 5) machine_example = Some (Some r, M2)"
    using e(1) h by (simp add: user_trap_def frame_ready_def Let_def)
  then show ?thesis using trap_keeps_scheduler [OF machine_example_facts(2,3,4)] by (fastforce simp: tconf_example_def)
qed

theorem syscall_trap_witness:
  "\<exists>c2 M2. user_trap tconf_example (tick_info\<lparr>ti_cause := Exception 8\<rparr>) 0x1000 (\<lambda>_. 99) machine_example = Some (Some (0x1004, c2), M2) \<and>
     c2 ''a0'' = usize_MAX \<and> c2 ''a3'' = frame_example \<and> c2 ''sp'' = 99"
proof -
  let ?ti = "tick_info\<lparr>ti_cause := Exception 8\<rparr>"
  obtain kctx M1 where e: "user_enter tconf_example 0x1000 (\<lambda>_. 99) machine_example = Some (frame_example, kctx, M1)" "kctx ''a7'' = 99"
    "same_sched (m_k machine_example) (m_k M1)" "k_procs (m_k M1) = k_procs (m_k machine_example)"
    using user_enter_spec [OF machine_example_facts(6), of "\<lambda>_. 99" "0x1000"] machine_example_facts(5) tf_names(5) by auto
  have d: "dispatch (tc_k tconf_example) (tc_ticks tconf_example) (m_ticks machine_example) kctx (m_k M1) = Some (Return usize_MAX, m_k M1)"
    by (rule dispatch_unknown) (simp add: e(2))
  show ?thesis
    using syscall_trap [OF machine_example_facts(1,6), of "\<lambda>_. 99" "0x1000" ?ti, OF _ _ _ _ e(1) d] e(3,4) machine_example_facts(5) tf_names(1,2,6)
    by (auto simp: same_sched_def usize_MAX_def tick_info_def machine_example_def)
qed


end
