(* ===== verification/Spec2Isabelle.thy ===== *)
theory Spec2Isabelle
  imports Regions Trap
begin

text \<open>
  Verification of the Glenda kernel, a kernel for RISC-V written in Rust, and of the command that makes its
  disk image. All paths are relative to \<^verbatim>\<open>src/\<close>; where no directory is given, the file is under
  \<^verbatim>\<open>kernel/src/\<close>.

  \<^bold>\<open>The program.\<close> The kernel boots on a hart, takes the memory behind its image as two pools of pages, builds its
  own Sv39 address space, mounts the file system of a virtio disk and starts the first process. A process enters the kernel by a trap:
  the trampoline saves its registers into its trap frame, the handler tells system calls, page faults and interrupts apart, and
  the way back loads the registers from the frame. A clock interrupt makes the process give up the processor; the scheduler then picks the next one. System calls
  reach user memory through the page table of the process, and files through a table of open files, path resolution, directories, a cache of
  inodes, a bitmap of data blocks and a cache of 32 block buffers, which the disk driver fills and empties.

  \<^bold>\<open>Conventions.\<close> A Rust function is a HOL function that takes the state it reads and returns the state it leaves. Integers
  used as numbers are naturals with checked operations, because an overflow panics in the profile the repository builds by default;
  bytes, bitmaps and registers are words. \<open>None\<close> is a panic or a call that does not return; \<open>Result\<close> and \<open>Option\<close> of the source are values inside \<open>Some\<close>.
  Physical memory is a function from addresses to bytes, a raw pointer an address or, into a static array, an index. A lock
  of the process table or the run queue is a flag, and taking one that is held does not return; the locks around the file system and the page allocator do not appear, since one hart runs
  the operations one after the other. A function that switches context is cut at the switch into what runs before and after it.

  \<^bold>\<open>The theories\<close>, from the bottom up:

  \<^item> \<open>Prelude\<close> and \<open>Memory\<close> hold the integer types, checked arithmetic, and little-endian access to memory. \<open>Chain\<close> holds
    the lemmas on linked lists in arrays.
  \<^item> \<open>Addr\<close>: \<^verbatim>\<open>mem/addr.rs\<close>, \<^verbatim>\<open>mem/pte.rs\<close> and the constants of \<^verbatim>\<open>mem/mod.rs\<close>; the fields of a page-table entry.
  \<^item> \<open>Pmem\<close>: \<^verbatim>\<open>mem/pmem.rs\<close>, \<^verbatim>\<open>mem/frame.rs\<close>. The record \<open>pmem\<close> is memory with the two regions and the reference counts; under
    \<open>pmem_inv\<close> allocation and release are exact, and boot establishes the invariant. The locales
    \<open>frame_source\<close> and \<open>bounded_frame_source\<close> are what page tables need of it.
  \<^item> \<open>Pagetable\<close>: \<^verbatim>\<open>mem/pagetable.rs\<close>. Under \<open>pt_wf\<close>, \<open>map\<close> and \<open>unmap\<close> are exact updates of \<open>pt_get\<close>, the address space as a function.
  \<^item> \<open>Ucopy\<close>, \<open>Uvm\<close>, \<open>Mmap\<close>, \<open>Regions\<close>: \<^verbatim>\<open>mem/uvm.rs\<close>, \<^verbatim>\<open>mem/mmap.rs\<close> and the system calls on user memory. Copies are
    byte-wise exact up to the first byte that may not be accessed; the heap and the list of \<open>mmap\<close> regions keep their invariants. The locale \<open>node_pool\<close> is the contract of the warehouse of nodes.
  \<^item> \<open>Vm\<close>: \<^verbatim>\<open>mem/vm.rs\<close>, the kernel's address space and the kernel stacks.
  \<^item> \<open>Lru\<close>, \<open>Buffer\<close>: \<^verbatim>\<open>fs/buffer\<close>. The pointer updates refine two lists; \<open>view\<close> is the disk as
    the callers see it, and the locale \<open>block_cache\<close> is the contract by which the file system uses it.
  \<^item> \<open>Bitmap\<close>, \<open>Inode\<close>, \<open>Icache\<close>, \<open>Dentry\<close>, \<open>Path\<close>: \<^verbatim>\<open>fs/fs.rs\<close>, \<^verbatim>\<open>fs/bitmap.rs\<close>, \<^verbatim>\<open>fs/inode.rs\<close>, \<^verbatim>\<open>fs/dentry.rs\<close>, \<^verbatim>\<open>fs/path.rs\<close>. Block allocation,
    reading of file data, the inode cache as a counter of references (locale \<open>refcounted\<close>), and path resolution against the
    function \<open>resolve\<close> on the content of the disk.
  \<^item> \<open>File\<close>, \<open>Fsyscall\<close>: \<^verbatim>\<open>fs/file.rs\<close>, \<^verbatim>\<open>syscall/fs.rs\<close>, the open files and every file system call.
  \<^item> \<open>Proc\<close>, \<open>Exec\<close>, \<open>Sched\<close>: \<^verbatim>\<open>proc\<close> and \<^verbatim>\<open>syscall/proc.rs\<close>. The record \<open>kernel\<close> joins memory, files, warehouse, process table and run
    queue. \<open>Exec\<close> holds \<open>create\<close>, \<open>fork\<close> and the loader of ELF programs. The relation \<open>kstep\<close> composes the pieces of the scheduler into the steps of a hart, and
    \<open>sched_inv\<close> holds in every state it reaches.
  \<^item> \<open>Syscall\<close>: \<^verbatim>\<open>syscall/mod.rs\<close>, \<^verbatim>\<open>syscall/util.rs\<close>. \<open>dispatch\<close> maps the 54 numbers to the operations above; every call keeps \<open>sched_inv\<close>.
  \<^item> \<open>Plic\<close>, \<open>Console\<close>, \<open>Virtio\<close>: \<^verbatim>\<open>irq/plic.rs\<close>, \<^verbatim>\<open>irq/clint.rs\<close>, \<^verbatim>\<open>drivers/uart\<close>, \<^verbatim>\<open>drivers/virtio\<close>. The interrupt controller is a set of
    registers, the console a sequence of status readings with a queue of received bytes; the disk is a
    parameter, a function that serves a request, about which \<open>blk_device\<close> states what the virtio specification says.
  \<^item> \<open>Trap\<close>: \<^verbatim>\<open>irq\<close> and \<^verbatim>\<open>asm/trampoline.S\<close>, \<^verbatim>\<open>asm/vector.S\<close>, \<^verbatim>\<open>asm/switch.S\<close>. The record \<open>machine\<close> is the kernel with the registers and
    devices of the hart; \<open>user_trap\<close> is a whole trap from user mode, from the registers of the process to the registers it continues with.
  \<^item> \<open>Mkfs\<close>: \<open>mkfs\<close> of \<^verbatim>\<open>xtask/src/main.rs\<close>, read with the decoders of the kernel.

  \<^bold>\<open>What the theorems show.\<close> C1 to C3 and C6 to C11 are about processes and traps: the run queue agrees with the states of the processes in every
  reachable state and after every trap, what a system call and a clock tick do, and where sleeping and resuming go wrong. C4, C5 and C12 to C23 are about the
  disk and the file system, from the image the build writes to a read by a process. C24 to C34 are about user memory and page tables, C35 and C36
  about the interrupt controller and the console, and C37 to C40 about the page allocator. A property with hypotheses is followed by an
  application to a concrete state.

  \<^bold>\<open>Bounds and fuel.\<close> Walks along pointers that a corrupt list could make endless are partial functions; under the invariants of the lists they
  return (C27 for \<open>mmap\<close>). \<open>pt_destroy\<close> takes fuel for the depth of the recursion, three levels. Other loops have a
  measure. The bounds of the theorems are those of the code: 64 processes, 32 buffers, 50 cached inodes, 256 nodes, 128 MiB of counted pages; 996 blocks
  is what the data area of the image has left for a program.

  \<^bold>\<open>Not modelled.\<close> The order of initialisation in \<^verbatim>\<open>main.rs\<close> and \<^verbatim>\<open>init\<close>, \<^verbatim>\<open>hart.rs\<close> except its bound, \<^verbatim>\<open>asm/boot.S\<close>, \<^verbatim>\<open>asm/enter.S\<close>, \<^verbatim>\<open>asm/sbi.S\<close> and \<^verbatim>\<open>sbi.rs\<close>: they
  call the components or the firmware. \<^verbatim>\<open>dtb\<close> reads the device tree with the third-party package \<open>fdt\<close>; its results are parameters. More than one hart at
  a time, the memory model and the translation cache: the model runs one hart. \<open>printk\<close>, the logo, the debug
  printers and the texts of messages: output only. \<open>fs_test\<close>, which \<open>fs::init\<close> runs at boot, the tests under \<^verbatim>\<open>tests\<close> and the program
  \<^verbatim>\<open>service/hello\<close>: they exercise the kernel. \<^verbatim>\<open>fs/buffer_list.rs\<close>: no module declares it. \<open>timer_vector\<close>, \<open>enable_m\<close> and
  \<open>disable_m\<close>: code for machine mode that is never reached under the firmware. The other commands of \<^verbatim>\<open>xtask\<close> and \<^verbatim>\<open>kernel/build.rs\<close>: they start compilers and the emulator.
\<close>

end
